(* ===== verification/Xv6_Prelude.thy ===== *)
theory Xv6_Prelude
  imports Main "HOL-Library.Word"
begin

text \<open>
  Shared vocabulary of the development: the machine integer types of
  \<^verbatim>\<open>kernel/types.h\<close>, the outcome type of kernel code and its
  combinators, the loop forms the C sources use, and the generic lemmas on words,
  lists and outcomes that the component theories rest on.

  Kernel code is an operation \<open>'s \<Rightarrow> ('s, 'a) outcome\<close> on an explicit
  state.  \<open>Ok a s\<close> is a return with value \<open>a\<close>; \<open>Stop e s\<close> is control that
  does not return to the caller: a \<^verbatim>\<open>panic()\<close>, an access the C code has
  no right to make (a null or out-of-range pointer), a spin on a lock that another
  CPU holds, or a switch to the scheduler by \<^verbatim>\<open>swtch()\<close>.
\<close>

section \<open>Machine integers\<close>

unbundle bit_operations_syntax

type_synonym u8 = "8 word"
type_synonym u16 = "16 word"
type_synonym u32 = "32 word"
type_synonym u64 = "64 word"

text \<open>
  A C \<^verbatim>\<open>int\<close> is an \<open>int\<close>; where the sources can leave the
  32-bit range the result is wrapped explicitly, as the two's complement machine does.
\<close>

definition i32 :: "int \<Rightarrow> int" where
  "i32 x = (x + 2 ^ 31) mod 2 ^ 32 - 2 ^ 31"

lemma i32_id [simp]: "- (2 ^ 31) \<le> x \<Longrightarrow> x < 2 ^ 31 \<Longrightarrow> i32 x = x"
  by (simp add: i32_def)

lemma i32_range: "- (2 ^ 31) \<le> i32 x \<and> i32 x < 2 ^ 31"
proof -
  have "0 \<le> (x + 2 ^ 31) mod 2 ^ 32" "(x + 2 ^ 31) mod 2 ^ 32 < (2 ^ 32 :: int)"
    by simp_all
  then show ?thesis by (simp add: i32_def)
qed

section \<open>Outcomes and operations\<close>

datatype stop = Panic string | Fault string | Spin | Swtch

datatype ('s, 'a) outcome = Ok 'a 's | Stop stop 's

type_synonym ('s, 'a) op = "'s \<Rightarrow> ('s, 'a) outcome"

abbreviation ret :: "'a \<Rightarrow> ('s, 'a) op" where
  "ret \<equiv> Ok"

definition bind :: "('s, 'a) op \<Rightarrow> ('a \<Rightarrow> ('s, 'b) op) \<Rightarrow> ('s, 'b) op" where
  "bind m k s = (case m s of Ok a s' \<Rightarrow> k a s' | Stop e s' \<Rightarrow> Stop e s')"

definition seq :: "('s, 'a) op \<Rightarrow> ('s, 'b) op \<Rightarrow> ('s, 'b) op" where
  "seq m k = bind m (\<lambda>_. k)"

definition gets :: "('s \<Rightarrow> 'a) \<Rightarrow> ('s, 'a) op" where
  "gets f s = Ok (f s) s"

definition modify :: "('s \<Rightarrow> 's) \<Rightarrow> ('s, unit) op" where
  "modify f s = Ok () (f s)"

abbreviation halt :: "stop \<Rightarrow> ('s, 'a) op" where
  "halt \<equiv> Stop"

abbreviation panic :: "string \<Rightarrow> ('s, 'a) op" where
  "panic msg \<equiv> halt (Panic msg)"

abbreviation fault :: "string \<Rightarrow> ('s, 'a) op" where
  "fault msg \<equiv> halt (Fault msg)"

definition do_if :: "bool \<Rightarrow> ('s, unit) op \<Rightarrow> ('s, unit) op" where
  "do_if b m = (if b then m else ret ())"

named_theorems op_simps \<open>unfolding of the operation combinators\<close>

lemma gets_apply [op_simps, simp]: "gets f s = Ok (f s) s"
  by (simp add: gets_def)

lemma modify_apply [op_simps, simp]: "modify f s = Ok () (f s)"
  by (simp add: modify_def)

lemma do_if_simps [op_simps, simp]:
  "do_if True m = m" "do_if False m = ret ()"
  by (simp_all add: do_if_def)

lemma do_if_apply [op_simps]: "do_if b m s = (if b then m s else Ok () s)"
  by (simp add: do_if_def)

lemma bind_apply [op_simps]:
  "bind m k s = (case m s of Ok a s' \<Rightarrow> k a s' | Stop e s' \<Rightarrow> Stop e s')"
  by (simp add: bind_def)

lemma seq_apply [op_simps]:
  "seq m k s = (case m s of Ok a s' \<Rightarrow> k s' | Stop e s' \<Rightarrow> Stop e s')"
  by (simp add: seq_def bind_def)

lemma bind_Ok: "m s = Ok a s' \<Longrightarrow> bind m k s = k a s'"
  by (simp add: bind_def)

lemma bind_Stop: "m s = Stop e s' \<Longrightarrow> bind m k s = Stop e s'"
  by (simp add: bind_def)

lemma seq_Ok: "m s = Ok a s' \<Longrightarrow> seq m k s = k s'"
  by (simp add: seq_apply)

lemma seq_Stop: "m s = Stop e s' \<Longrightarrow> seq m k s = Stop e s'"
  by (simp add: seq_apply)

lemma bind_assoc: "bind (bind m f) g = bind m (\<lambda>x. bind (f x) g)"
  by (rule ext) (simp add: bind_def split: outcome.split)

lemma seq_assoc: "seq (seq m k) l = seq m (seq k l)"
  by (simp add: seq_def bind_assoc)

lemma seq_ret [simp]: "seq (ret a) k = k" "seq m (ret ()) = m"
  by (rule ext, simp add: seq_apply split: outcome.split)+

lemma bind_eq_Ok_iff:
  "bind m k s = Ok b s'' \<longleftrightarrow> (\<exists>a s'. m s = Ok a s' \<and> k a s' = Ok b s'')"
  by (auto simp: bind_def split: outcome.splits)

lemma bind_eq_Stop_iff:
  "bind m k s = Stop e s'' \<longleftrightarrow>
     m s = Stop e s'' \<or> (\<exists>a s'. m s = Ok a s' \<and> k a s' = Stop e s'')"
  by (auto simp: bind_def split: outcome.splits)

lemma seq_eq_Ok_iff:
  "seq m k s = Ok b s'' \<longleftrightarrow> (\<exists>a s'. m s = Ok a s' \<and> k s' = Ok b s'')"
  by (simp add: seq_def bind_eq_Ok_iff)

lemma seq_eq_Stop_iff:
  "seq m k s = Stop e s'' \<longleftrightarrow>
     m s = Stop e s'' \<or> (\<exists>a s'. m s = Ok a s' \<and> k s' = Stop e s'')"
  by (simp add: seq_def bind_eq_Stop_iff)

lemmas op_iffs = bind_eq_Ok_iff bind_eq_Stop_iff seq_eq_Ok_iff seq_eq_Stop_iff

lemma bind_cong [fundef_cong]:
  assumes "m s = m' s'" and "\<And>a t. m' s' = Ok a t \<Longrightarrow> k a t = k' a t"
  shows "bind m k s = bind m' k' s'"
  using assms by (simp add: bind_def split: outcome.split)

section \<open>Loops\<close>

text \<open>
  \<open>for_each\<close> is a \<^verbatim>\<open>for\<close> loop that runs to its end; \<open>scan\<close> is a
  \<^verbatim>\<open>for\<close> loop whose body may leave it early (\<^verbatim>\<open>return\<close>,
  \<^verbatim>\<open>break\<close>, \<^verbatim>\<open>goto\<close>): a body that answers \<open>Some r\<close> ends it.
\<close>

primrec for_each :: "'i list \<Rightarrow> ('i \<Rightarrow> ('s, unit) op) \<Rightarrow> ('s, unit) op" where
  "for_each [] body = ret ()"
| "for_each (i # is) body = seq (body i) (for_each is body)"

primrec scan :: "'i list \<Rightarrow> ('i \<Rightarrow> ('s, 'a option) op) \<Rightarrow> ('s, 'a option) op" where
  "scan [] body = ret None"
| "scan (i # is) body =
     bind (body i) (\<lambda>r. case r of Some a \<Rightarrow> ret (Some a) | None \<Rightarrow> scan is body)"

text \<open>
  The same with a local variable of the loop as accumulator: \<open>fold_op\<close> runs to the end;
  in \<open>loop_op\<close> the body continues with \<open>Inl a\<close> or leaves the loop with
  \<open>Inr b\<close>.
\<close>

primrec fold_op :: "'i list \<Rightarrow> ('i \<Rightarrow> 'a \<Rightarrow> ('s, 'a) op) \<Rightarrow> 'a \<Rightarrow> ('s, 'a) op" where
  "fold_op [] body a = ret a"
| "fold_op (i # is) body a = bind (body i a) (fold_op is body)"

primrec loop_op :: "'i list \<Rightarrow> ('i \<Rightarrow> 'a \<Rightarrow> ('s, 'a + 'b) op) \<Rightarrow> 'a \<Rightarrow> ('s, 'a + 'b) op" where
  "loop_op [] body a = ret (Inl a)"
| "loop_op (i # is) body a =
     bind (body i a) (\<lambda>r. case r of Inl a' \<Rightarrow> loop_op is body a' | Inr b \<Rightarrow> ret (Inr b))"

lemma fold_op_pure:
  assumes "\<And>i a. i \<in> set is \<Longrightarrow> body i a s = Ok (f i a) s"
  shows "fold_op is body a s = Ok (fold f is a) s"
  using assms by (induction "is" arbitrary: a) (simp_all add: op_simps)

text \<open>A loop whose body only updates the state is a fold over the indices.\<close>

lemma for_each_fold:
  assumes "\<And>i s. i \<in> set is \<Longrightarrow> body i s = Ok () (f i s)"
  shows "for_each is body s = Ok () (fold f is s)"
  using assms by (induction "is" arbitrary: s) (simp_all add: op_simps)

lemma for_each_append:
  "for_each (is @ js) body = seq (for_each is body) (for_each js body)"
  by (induction "is") (auto simp: seq_def bind_def fun_eq_iff split: outcome.split)

text \<open>The same under an invariant that makes the body total.\<close>

lemma for_each_fold_inv:
  assumes "I s" and "\<And>i s. i \<in> set is \<Longrightarrow> I s \<Longrightarrow> body i s = Ok () (f i s) \<and> I (f i s)"
  shows "for_each is body s = Ok () (fold f is s) \<and> I (fold f is s)"
  using assms by (induction "is" arbitrary: s) (simp_all add: op_simps)

text \<open>A search loop whose body does not change the state stops at the first hit.\<close>

primrec first_hit :: "('i \<Rightarrow> 'a option) \<Rightarrow> 'i list \<Rightarrow> 'a option" where
  "first_hit f [] = None"
| "first_hit f (i # is) = (case f i of Some a \<Rightarrow> Some a | None \<Rightarrow> first_hit f is)"

lemma scan_pure:
  assumes "\<And>i. i \<in> set is \<Longrightarrow> body i s = Ok (f i) s"
  shows "scan is body s = Ok (first_hit f is) s"
  using assms by (induction "is") (simp_all add: op_simps split: option.split)

lemma first_hit_None: "first_hit f is = None \<longleftrightarrow> (\<forall>i \<in> set is. f i = None)"
  by (induction "is") (auto split: option.splits)

lemma first_hit_Some:
  "first_hit f is = Some a \<Longrightarrow>
     \<exists>xs i ys. is = xs @ i # ys \<and> f i = Some a \<and> (\<forall>j \<in> set xs. f j = None)"
proof (induction "is")
  case Nil
  then show ?case by simp
next
  case (Cons i "is")
  show ?case
  proof (cases "f i")
    case None
    with Cons obtain xs j ys where
      "is = xs @ j # ys" "f j = Some a" "\<forall>k \<in> set xs. f k = None" by auto
    with None have "i # is = (i # xs) @ j # ys \<and> f j = Some a \<and> (\<forall>k \<in> set (i # xs). f k = None)"
      by simp
    then show ?thesis by blast
  next
    case (Some b)
    with Cons.prems have "i # is = [] @ i # is \<and> f i = Some a \<and> (\<forall>j \<in> set []. f j = None)" by simp
    then show ?thesis by blast
  qed
qed

section \<open>Hoare triples\<close>

text \<open>
  \<open>triple P m Q\<close>: from a state with \<open>P\<close>, if \<open>m\<close> returns \<open>a\<close> in
  state \<open>t\<close> then \<open>Q a t\<close>.  Used for invariants that hold on every return
  path; that an operation returns is stated separately.
\<close>

definition triple :: "('s \<Rightarrow> bool) \<Rightarrow> ('s, 'a) op \<Rightarrow> ('a \<Rightarrow> 's \<Rightarrow> bool) \<Rightarrow> bool" where
  "triple P m Q \<longleftrightarrow> (\<forall>s a t. P s \<longrightarrow> m s = Ok a t \<longrightarrow> Q a t)"

lemma tripleI: "(\<And>s a t. P s \<Longrightarrow> m s = Ok a t \<Longrightarrow> Q a t) \<Longrightarrow> triple P m Q"
  by (simp add: triple_def)

lemma tripleD: "triple P m Q \<Longrightarrow> P s \<Longrightarrow> m s = Ok a t \<Longrightarrow> Q a t"
  by (simp add: triple_def)

lemma triple_bind:
  "triple P m R \<Longrightarrow> (\<And>a. triple (R a) (k a) Q) \<Longrightarrow> triple P (bind m k) Q"
  unfolding triple_def bind_eq_Ok_iff by blast

lemma triple_seq: "triple P m (\<lambda>_. R) \<Longrightarrow> triple R k Q \<Longrightarrow> triple P (seq m k) Q"
  by (simp add: seq_def triple_bind)

lemma triple_for_each:
  "(\<And>i. i \<in> set is \<Longrightarrow> triple I (body i) (\<lambda>_. I)) \<Longrightarrow> triple I (for_each is body) (\<lambda>_. I)"
proof (induction "is")
  case Nil
  then show ?case by (simp add: triple_def)
next
  case (Cons i "is")
  then have "triple I (body i) (\<lambda>_. I)" "triple I (for_each is body) (\<lambda>_. I)" by simp_all
  then show ?case by (simp add: triple_seq)
qed

lemma triple_scan:
  "(\<And>i. i \<in> set is \<Longrightarrow> triple I (body i) (\<lambda>_. I)) \<Longrightarrow> triple I (scan is body) (\<lambda>_. I)"
proof (induction "is")
  case Nil
  then show ?case by (simp add: triple_def)
next
  case (Cons i "is")
  then have "triple I (scan is body) (\<lambda>_. I)" by simp
  then have "triple I (case r of Some a \<Rightarrow> ret (Some a) | None \<Rightarrow> scan is body) (\<lambda>_. I)" for r
    by (cases r) (simp_all add: triple_def)
  moreover from Cons.prems have "triple I (body i) (\<lambda>_. I)" by simp
  ultimately show ?case by (simp only: scan.simps) (rule triple_bind)
qed

end
