(* ===== verification/Xv6_Layout.thy ===== *)
theory Xv6_Layout
  imports Xv6_Prelude
begin

text \<open>
  The constants and address arithmetic of \<^verbatim>\<open>kernel/param.h\<close>,
  \<^verbatim>\<open>kernel/riscv.h\<close> and \<^verbatim>\<open>kernel/memlayout.h\<close>: table sizes, page
  rounding, the Sv39 page-table-entry encoding and the physical and virtual address
  maps.  The lemmas say what the bit tricks compute: rounding is division by the page
  size, a page-table entry gives back the page and the flags it was made from, and the
  three 9-bit indices together identify a virtual page below \<open>MAXVA\<close>.
\<close>

section \<open>Table sizes (param.h)\<close>

definition NPROC :: nat where "NPROC = 64"
definition NCPU :: nat where "NCPU = 8"
definition NOFILE :: nat where "NOFILE = 16"
definition NFILE :: nat where "NFILE = 100"
definition NINODE :: nat where "NINODE = 50"
definition NDEV :: int where "NDEV = 10"
definition ROOTDEV :: u32 where "ROOTDEV = 1"
definition MAXARG :: nat where "MAXARG = 32"
definition MAXOPBLOCKS :: nat where "MAXOPBLOCKS = 10"
definition LOGSIZE :: nat where "LOGSIZE = MAXOPBLOCKS * 3"
definition NBUF :: nat where "NBUF = MAXOPBLOCKS * 3"
definition FSSIZE :: nat where "FSSIZE = 2000"
definition MAXPATH :: nat where "MAXPATH = 128"

section \<open>Pages and page-table entries (riscv.h)\<close>

definition PGSIZE :: u64 where "PGSIZE = 4096"

definition PGROUNDUP :: "u64 \<Rightarrow> u64" where
  "PGROUNDUP sz = (sz + PGSIZE - 1) AND NOT (PGSIZE - 1)"

definition PGROUNDDOWN :: "u64 \<Rightarrow> u64" where
  "PGROUNDDOWN a = a AND NOT (PGSIZE - 1)"

definition PTE_V :: u64 where "PTE_V = push_bit 0 1"
definition PTE_R :: u64 where "PTE_R = push_bit 1 1"
definition PTE_W :: u64 where "PTE_W = push_bit 2 1"
definition PTE_X :: u64 where "PTE_X = push_bit 3 1"
definition PTE_U :: u64 where "PTE_U = push_bit 4 1"

definition PA2PTE :: "u64 \<Rightarrow> u64" where
  "PA2PTE pa = push_bit 10 (drop_bit 12 pa)"

definition PTE2PA :: "u64 \<Rightarrow> u64" where
  "PTE2PA pte = push_bit 12 (drop_bit 10 pte)"

definition PTE_FLAGS :: "u64 \<Rightarrow> u64" where
  "PTE_FLAGS pte = pte AND 0x3FF"

definition PX :: "nat \<Rightarrow> u64 \<Rightarrow> u64" where
  "PX level va = drop_bit (12 + 9 * level) va AND 0x1FF"

definition MAXVA :: u64 where "MAXVA = push_bit (9 + 9 + 9 + 12 - 1) 1"

section \<open>Address maps (memlayout.h)\<close>

definition UART0 :: u64 where "UART0 = 0x10000000"
definition VIRTIO0 :: u64 where "VIRTIO0 = 0x10001000"
definition PLIC :: u64 where "PLIC = 0x0c000000"
definition KERNBASE :: u64 where "KERNBASE = 0x80000000"
definition PHYSTOP :: u64 where "PHYSTOP = KERNBASE + 128 * 1024 * 1024"
definition TRAMPOLINE :: u64 where "TRAMPOLINE = MAXVA - PGSIZE"
definition TRAPFRAME :: u64 where "TRAPFRAME = TRAMPOLINE - PGSIZE"

definition KSTACK :: "nat \<Rightarrow> u64" where
  "KSTACK p = TRAMPOLINE - (of_nat p + 1) * 2 * PGSIZE"

named_theorems layout_simps \<open>the numeric values of the layout constants\<close>

lemma layout_consts [layout_simps]:
  "PGSIZE = 4096" "MAXVA = 0x4000000000" "KERNBASE = 0x80000000" "PHYSTOP = 0x88000000"
  "TRAMPOLINE = 0x3FFFFFF000" "TRAPFRAME = 0x3FFFFFE000"
  "UART0 = 0x10000000" "VIRTIO0 = 0x10001000" "PLIC = 0x0c000000"
  "PTE_V = 1" "PTE_R = 2" "PTE_W = 4" "PTE_X = 8" "PTE_U = 16"
  by (simp_all add: PGSIZE_def MAXVA_def KERNBASE_def PHYSTOP_def TRAMPOLINE_def TRAPFRAME_def
        UART0_def VIRTIO0_def PLIC_def PTE_V_def PTE_R_def PTE_W_def PTE_X_def PTE_U_def)

section \<open>What the address arithmetic computes\<close>

definition page_aligned :: "u64 \<Rightarrow> bool" where
  "page_aligned a \<longleftrightarrow> a mod PGSIZE = 0"

lemma mask12: "(4095 :: u64) = mask 12"
  by (simp add: mask_eq_exp_minus_1)

lemma PGROUNDDOWN_drop: "PGROUNDDOWN a = push_bit 12 (drop_bit 12 a)"
  unfolding PGROUNDDOWN_def layout_simps mask12
  by (rule bit_word_eqI) (auto simp: bit_simps mask12)

lemma unat64_lt: "unat (a :: u64) < 2 ^ 64"
  using unsigned_less [of a] by simp

lemma unat_PGROUNDDOWN: "unat (PGROUNDDOWN a) = unat a div 4096 * 4096"
proof -
  have "unat (PGROUNDDOWN a) = take_bit 64 (push_bit 12 (drop_bit 12 (take_bit 64 (unat a))))"
    unfolding PGROUNDDOWN_drop by (simp add: unsigned_push_bit_eq unsigned_drop_bit_eq)
  also have "take_bit 64 (unat a) = unat a"
    using unat64_lt by (simp add: take_bit_nat_eq_self_iff)
  also have "push_bit 12 (drop_bit 12 (unat a)) = unat a div 4096 * 4096"
    by (simp add: push_bit_eq_mult drop_bit_eq_div)
  also have "take_bit 64 (unat a div 4096 * 4096) = unat a div 4096 * 4096"
    using unat64_lt [of a] by (simp add: take_bit_nat_eq_self_iff)
  finally show ?thesis .
qed

lemma page_aligned_iff: "page_aligned a \<longleftrightarrow> unat a mod 4096 = 0"
proof -
  have "page_aligned a \<longleftrightarrow> unat (a mod 4096) = 0"
    by (simp add: page_aligned_def layout_simps unat_eq_zero)
  then show ?thesis by (simp add: unat_mod)
qed

lemma page_aligned_PGROUNDDOWN: "page_aligned (PGROUNDDOWN a)"
  by (simp add: page_aligned_iff unat_PGROUNDDOWN)

lemma PGROUNDDOWN_le: "PGROUNDDOWN a \<le> a"
  by (simp add: word_le_nat_alt unat_PGROUNDDOWN)

lemma PGROUNDDOWN_id: "page_aligned a \<Longrightarrow> PGROUNDDOWN a = a"
  by (rule word_unat_eq_iff [THEN iffD2]) (auto simp: page_aligned_iff unat_PGROUNDDOWN)

lemma PGROUNDUP_DOWN: "PGROUNDUP sz = PGROUNDDOWN (sz + 4095)"
  by (simp add: PGROUNDUP_def PGROUNDDOWN_def layout_simps add.commute)

lemma unat_PGROUNDUP:
  assumes "unat sz + 4095 < 2 ^ 64"
  shows "unat (PGROUNDUP sz) = (unat sz + 4095) div 4096 * 4096"
proof -
  have "unat (sz + 4095) = unat sz + 4095"
    using assms by (simp add: unat_word_ariths)
  then show ?thesis by (simp add: PGROUNDUP_DOWN unat_PGROUNDDOWN)
qed

lemma PGROUNDUP_ge:
  assumes "unat sz + 4095 < 2 ^ 64"
  shows "sz \<le> PGROUNDUP sz"
proof -
  have "unat sz \<le> (unat sz + 4095) div 4096 * 4096"
    using div_mult_mod_eq [of "unat sz + 4095" 4096] mod_less_divisor [of 4096 "unat sz + 4095"]
    by linarith
  then show ?thesis by (simp add: word_le_nat_alt unat_PGROUNDUP [OF assms])
qed

lemma page_aligned_PGROUNDUP: "page_aligned (PGROUNDUP sz)"
  by (simp add: PGROUNDUP_DOWN page_aligned_PGROUNDDOWN)

lemma page_aligned_room:
  assumes "page_aligned x"
  shows "unat x + 4096 \<le> 2 ^ 64"
proof -
  have "unat x = unat x div 4096 * 4096"
    using assms div_mult_mod_eq [of "unat x" 4096] by (simp add: page_aligned_iff)
  moreover have "unat x div 4096 < 2 ^ 52" using unat64_lt [of x] by simp
  ultimately show ?thesis by simp
qed

lemma unat_page_off:
  assumes "page_aligned x" and "i < 4096"
  shows "unat (x + of_nat i) = unat x + i"
  using page_aligned_room [OF assms(1)] assms(2) by (simp add: unat_word_ariths unat_of_nat)

lemma PGROUNDDOWN_page_off:
  assumes "page_aligned x" and "i < 4096"
  shows "PGROUNDDOWN (x + of_nat i) = x"
proof -
  have "(unat x + i) div 4096 * 4096 = unat x"
    using assms by (simp add: page_aligned_iff div_add1_eq mod_0_imp_dvd)
  then show ?thesis
    by (simp add: word_unat_eq_iff unat_PGROUNDDOWN unat_page_off [OF assms])
qed

text \<open>Different pages do not overlap.\<close>

lemma page_off_other:
  assumes "page_aligned x" "page_aligned p" "x \<noteq> p" "i < 4096"
  shows "\<not> unat (x + of_nat i - p) < 4096"
proof
  assume "unat (x + of_nat i - p) < 4096"
  moreover have "p + of_nat (unat (x + of_nat i - p)) = x + of_nat i" by simp
  ultimately show False
    using assms PGROUNDDOWN_page_off [of p "unat (x + of_nat i - p)"] PGROUNDDOWN_page_off [of x i] by simp
qed

lemma high_bits_clear:
  assumes "unat (w :: u64) < 2 ^ k" and "k \<le> n"
  shows "\<not> bit w n"
proof -
  have "unat (take_bit k w) = unat w"
    using assms(1) by (simp add: unsigned_take_bit_eq take_bit_nat_eq_self_iff)
  then have "take_bit k w = w" by (simp only: word_unat_eq_iff)
  then show ?thesis using assms(2) by (metis bit_take_bit_iff leD)
qed

lemma low_bits_clear: "page_aligned a \<Longrightarrow> n < 12 \<Longrightarrow> \<not> bit a n"
  by (metis PGROUNDDOWN_id PGROUNDDOWN_drop bit_push_bit_iff leD)

lemma PTE2PA_PA2PTE:
  assumes "page_aligned pa" and "unat pa < 2 ^ 56" and "unat f < 2 ^ 10"
  shows "PTE2PA (PA2PTE pa OR f) = pa"
proof (rule bit_word_eqI)
  fix n :: nat
  have "bit pa n \<Longrightarrow> 12 \<le> n"
    by (rule ccontr) (use low_bits_clear [OF assms(1)] in simp)
  moreover have "bit pa n \<Longrightarrow> n < 56"
    by (rule ccontr) (use high_bits_clear [OF assms(2)] in simp)
  moreover have "bit f k \<Longrightarrow> k < 10" for k
    by (rule ccontr) (use high_bits_clear [OF assms(3)] in simp)
  ultimately show "bit (PTE2PA (PA2PTE pa OR f)) n = bit pa n"
    by (auto simp: PTE2PA_def PA2PTE_def bit_simps)
qed

lemma PTE_FLAGS_PA2PTE:
  assumes "unat f < 2 ^ 10"
  shows "PTE_FLAGS (PA2PTE pa OR f) = f"
proof (rule bit_word_eqI)
  fix n :: nat
  have m: "(0x3FF :: u64) = mask 10" by (simp add: mask_eq_exp_minus_1)
  have "bit f n \<Longrightarrow> n < 10"
    by (rule ccontr) (use high_bits_clear [OF assms] in simp)
  then show "bit (PTE_FLAGS (PA2PTE pa OR f)) n = bit f n"
    unfolding PTE_FLAGS_def PA2PTE_def m by (auto simp: bit_simps)
qed

lemma unat_PX: "unat (PX level va) = unat va div 2 ^ (12 + 9 * level) mod 512"
proof -
  have "(0x1FF :: u64) = mask 9" by (simp add: mask_eq_exp_minus_1)
  then have "PX level va = take_bit 9 (drop_bit (12 + 9 * level) va)"
    by (simp only: PX_def take_bit_eq_mask)
  then have "unat (PX level va) = take_bit 9 (drop_bit (12 + 9 * level) (take_bit 64 (unat va)))"
    by (simp only: unsigned_take_bit_eq unsigned_drop_bit_eq) simp
  also have "take_bit 64 (unat va) = unat va"
    using unat64_lt by (simp add: take_bit_nat_eq_self_iff)
  finally show ?thesis by (simp add: take_bit_eq_mod drop_bit_eq_div)
qed

lemma unat_PX_lt: "unat (PX level va) < 512"
  by (simp add: unat_PX)

lemma PX_page_number:
  assumes "va < MAXVA"
  shows "unat va div 4096 =
    unat (PX 2 va) * 512 * 512 + unat (PX 1 va) * 512 + unat (PX 0 va)"
proof -
  define q where "q = unat va div 4096"
  have "unat va < 2 ^ 38" using assms by (simp add: layout_simps word_less_nat_alt)
  then have "q < 512 * 512 * 512" by (simp add: q_def)
  then have "q div 512 div 512 < 512" by linarith
  moreover have "unat (PX 2 va) = q div 512 div 512 mod 512" "unat (PX 1 va) = q div 512 mod 512"
    "unat (PX 0 va) = q mod 512"
    by (simp_all add: unat_PX q_def div_mult2_eq [symmetric])
  ultimately have "unat (PX 2 va) = q div 512 div 512" "unat (PX 1 va) = q div 512 mod 512"
    "unat (PX 0 va) = q mod 512" by simp_all
  moreover have "q = q div 512 * 512 + q mod 512"
    "q div 512 = q div 512 div 512 * 512 + q div 512 mod 512"
    by (simp_all only: div_mult_mod_eq)
  ultimately show ?thesis unfolding q_def [symmetric] by linarith
qed

end
