(* ===== verification/Xv6_Spinlock.thy ===== *)
theory Xv6_Spinlock
  imports Xv6_Layout
begin

text \<open>
  \<^verbatim>\<open>kernel/spinlock.c\<close>: the nesting of interrupt-off sections
  (\<^verbatim>\<open>push_off\<close>/\<^verbatim>\<open>pop_off\<close>) and the spin lock
  (\<^verbatim>\<open>acquire\<close>/\<^verbatim>\<open>release\<close>/\<^verbatim>\<open>holding\<close>), with the
  per-CPU state of \<^verbatim>\<open>kernel/proc.h\<close>.

  The base record \<open>machine\<close> holds what every kernel component uses: the hart that
  runs the code (register \<^verbatim>\<open>tp\<close>), the interrupt-enable bit of each hart, the
  \<^verbatim>\<open>cpus\<close> array and the store of spin locks.  The later theories extend this
  record by their own state, so an operation of this theory applies to every later
  state as it is.  A \<^verbatim>\<open>struct spinlock *\<close> is the name of the object
  (\<open>lockid\<close>) and the store maps names to lock values; a sleep channel
  (\<^verbatim>\<open>void *chan\<close>) is a name as well (\<open>chan\<close>).
\<close>

section \<open>Names of kernel objects\<close>

datatype sleepid = BufLock nat | InodeLock nat

datatype lockid =
    KmemLock | PidLock | WaitLock | ProcLock nat | TicksLock | BcacheLock | LogLock
  | ItableLock | FtableLock | PipeLock u64 | ConsLock | UartTxLock | PrLock | VdiskLock
  | SleepLk sleepid

datatype chan =
    ChanProc nat | ChanTicks | ChanLog | ChanPipeNread u64 | ChanPipeNwrite u64
  | ChanConsR | ChanUartTxR | ChanDiskFree | ChanBuf nat | ChanSleepLock sleepid

section \<open>State\<close>

record "context" =
  ra :: u64
  sp :: u64
  sregs :: "u64 list"

record cpu =
  cproc :: "nat option"
  ccontext :: "context"
  noff :: int
  intena :: bool

record spinlock =
  locked :: bool
  lname :: string
  lcpu :: "nat option"

record machine =
  tp :: nat
  sie :: "nat \<Rightarrow> bool"
  cpus :: "nat \<Rightarrow> cpu"
  locks :: "lockid \<Rightarrow> spinlock"

section \<open>Operations\<close>

definition cpuid :: "('z machine_scheme, nat) op" where
  "cpuid = gets tp"

definition mycpu :: "'z machine_scheme \<Rightarrow> cpu" where
  "mycpu s = cpus s (tp s)"

definition upd_mycpu :: "(cpu \<Rightarrow> cpu) \<Rightarrow> 'z machine_scheme \<Rightarrow> 'z machine_scheme" where
  "upd_mycpu f s = s\<lparr>cpus := (cpus s)(tp s := f (cpus s (tp s)))\<rparr>"

definition upd_lock ::
  "lockid \<Rightarrow> (spinlock \<Rightarrow> spinlock) \<Rightarrow> 'z machine_scheme \<Rightarrow> 'z machine_scheme" where
  "upd_lock lk f s = s\<lparr>locks := (locks s)(lk := f (locks s lk))\<rparr>"

definition intr_get :: "'z machine_scheme \<Rightarrow> bool" where
  "intr_get s = sie s (tp s)"

definition intr_on :: "('z machine_scheme, unit) op" where
  "intr_on = modify (\<lambda>s. s\<lparr>sie := (sie s)(tp s := True)\<rparr>)"

definition intr_off :: "('z machine_scheme, unit) op" where
  "intr_off = modify (\<lambda>s. s\<lparr>sie := (sie s)(tp s := False)\<rparr>)"

definition initlock :: "lockid \<Rightarrow> string \<Rightarrow> ('z machine_scheme, unit) op" where
  "initlock lk name = modify (upd_lock lk (\<lambda>_. \<lparr>locked = False, lname = name, lcpu = None\<rparr>))"

definition push_off :: "('z machine_scheme, unit) op" where
  "push_off =
     bind (gets intr_get) (\<lambda>old.
     seq intr_off (
     seq (bind (gets mycpu) (\<lambda>c. do_if (noff c = 0) (modify (upd_mycpu (intena_update (\<lambda>_. old)))))) (
     modify (upd_mycpu (\<lambda>c. c\<lparr>noff := noff c + 1\<rparr>)))))"

definition pop_off :: "('z machine_scheme, unit) op" where
  "pop_off =
     seq (bind (gets intr_get) (\<lambda>on. do_if on (panic ''pop_off - interruptible''))) (
     seq (bind (gets mycpu) (\<lambda>c. do_if (noff c < 1) (panic ''pop_off''))) (
     seq (modify (upd_mycpu (\<lambda>c. c\<lparr>noff := noff c - 1\<rparr>))) (
     bind (gets mycpu) (\<lambda>c. do_if (noff c = 0 \<and> intena c) intr_on))))"

definition holding :: "lockid \<Rightarrow> 'z machine_scheme \<Rightarrow> bool" where
  "holding lk s \<longleftrightarrow> locked (locks s lk) \<and> lcpu (locks s lk) = Some (tp s)"

text \<open>
  The atomic swap of \<^verbatim>\<open>acquire\<close> sets \<^verbatim>\<open>locked\<close> to 1 and reads the old
  value; while the old value is 1 the loop goes round, which leaves the lock as it is.
\<close>

definition acquire :: "lockid \<Rightarrow> ('z machine_scheme, unit) op" where
  "acquire lk =
     seq push_off (
     seq (bind (gets (holding lk)) (\<lambda>h. do_if h (panic ''acquire''))) (
     seq (bind (gets (\<lambda>s. locked (locks s lk))) (\<lambda>l. do_if l (halt Spin))) (
     seq (modify (upd_lock lk (locked_update (\<lambda>_. True)))) (
     modify (\<lambda>s. upd_lock lk (lcpu_update (\<lambda>_. Some (tp s))) s)))))"

definition release :: "lockid \<Rightarrow> ('z machine_scheme, unit) op" where
  "release lk =
     seq (bind (gets (holding lk)) (\<lambda>h. do_if (\<not> h) (panic ''release''))) (
     seq (modify (upd_lock lk (lcpu_update (\<lambda>_. None)))) (
     seq (modify (upd_lock lk (locked_update (\<lambda>_. False)))) (
     pop_off)))"

section \<open>A critical section, seen from one CPU\<close>

text \<open>
  \<open>cpu_ok\<close>: the interrupt bookkeeping of the running hart is consistent; inside a
  \<^verbatim>\<open>push_off\<close> section interrupts are off, outside of one \<^verbatim>\<open>intena\<close>
  already has the value \<^verbatim>\<open>push_off\<close> would give it.
\<close>

definition cpu_ok :: "'z machine_scheme \<Rightarrow> bool" where
  "cpu_ok s \<longleftrightarrow> 0 \<le> noff (mycpu s) \<and> (noff (mycpu s) = 0 \<longrightarrow> intena (mycpu s) = sie s (tp s))
     \<and> (0 < noff (mycpu s) \<longrightarrow> \<not> sie s (tp s))"

definition lock_free :: "lockid \<Rightarrow> 'z machine_scheme \<Rightarrow> bool" where
  "lock_free lk s \<longleftrightarrow> \<not> locked (locks s lk) \<and> lcpu (locks s lk) = None"

definition entered :: "'z machine_scheme \<Rightarrow> 'z machine_scheme" where
  "entered s = s\<lparr>sie := (sie s)(tp s := False),
     cpus := (cpus s)(tp s := (mycpu s)\<lparr>noff := noff (mycpu s) + 1\<rparr>)\<rparr>"

definition held :: "lockid \<Rightarrow> 'z machine_scheme \<Rightarrow> 'z machine_scheme" where
  "held lk s = upd_lock lk (\<lambda>l. l\<lparr>locked := True, lcpu := Some (tp s)\<rparr>) (entered s)"

lemmas machine_defs = mycpu_def upd_mycpu_def upd_lock_def intr_get_def intr_on_def intr_off_def

lemma cpu_intena_idem:
  "intena c = b \<Longrightarrow> c\<lparr>intena := b, noff := k\<rparr> = c\<lparr>noff := k\<rparr>"
  by (cases c) simp

lemma sie_idem: "sie s h = b \<Longrightarrow> s\<lparr>sie := (sie s)(h := b)\<rparr> = s"
  by (cases s) (auto simp: fun_upd_idem)

lemma locks_idem: "s\<lparr>sie := a, cpus := b, locks := locks s\<rparr> = s\<lparr>sie := a, cpus := b\<rparr>"
  by (cases s) simp

lemma push_off_ok: "cpu_ok s \<Longrightarrow> push_off s = Ok () (entered s)"
  by (cases "noff (mycpu s) = 0")
     (auto simp: push_off_def entered_def cpu_ok_def machine_defs cpu_intena_idem op_simps)

lemma pop_off_ok:
  assumes "cpu_ok s" shows "pop_off (entered s) = Ok () s"
proof -
  have "\<not> noff (cpus s (tp s)) + 1 < 1" using assms by (simp add: cpu_ok_def mycpu_def)
  then show ?thesis using assms
    by (auto simp: pop_off_def entered_def cpu_ok_def machine_defs sie_idem op_simps)
qed

lemma acquire_ok: "cpu_ok s \<Longrightarrow> lock_free lk s \<Longrightarrow> acquire lk s = Ok () (held lk s)"
  by (simp add: acquire_def push_off_ok holding_def held_def lock_free_def entered_def
        machine_defs op_simps)

lemma release_ok:
  assumes "cpu_ok s" and "lock_free lk s"
  shows "release lk (held lk s) = Ok () s"
proof -
  have "(locks s lk)\<lparr>lcpu := None, locked := False\<rparr> = locks s lk"
    using assms(2) by (cases "locks s lk") (simp add: lock_free_def)
  then have "upd_lock lk (locked_update (\<lambda>_. False)) (upd_lock lk (lcpu_update (\<lambda>_. None)) (held lk s))
      = entered s"
    by (simp add: held_def entered_def machine_defs locks_idem)
  moreover have "holding lk (held lk s)"
    by (simp add: holding_def held_def entered_def machine_defs)
  ultimately show ?thesis
    by (simp add: release_def pop_off_ok [OF assms(1)] op_simps)
qed

text \<open>
  The bracket \<^verbatim>\<open>acquire\<close> ... \<^verbatim>\<open>release\<close> is transparent: a body
  that runs under the lock and keeps it behaves as it does without the lock.
\<close>

lemma critical_section:
  assumes "cpu_ok s" "lock_free lk s"
    and "body (held lk s) = Ok a (held lk t)" "cpu_ok t" "lock_free lk t"
  shows "seq (acquire lk) (bind body (\<lambda>r. seq (release lk) (ret r))) s = Ok a t"
  using assms by (simp add: acquire_ok release_ok op_simps)

lemma acquire_held_panics:
  "cpu_ok s \<Longrightarrow> holding lk s \<Longrightarrow> acquire lk s = Stop (Panic ''acquire'') (entered s)"
  by (simp add: acquire_def push_off_ok holding_def entered_def machine_defs op_simps)

lemma release_not_held_panics:
  "\<not> holding lk s \<Longrightarrow> release lk s = Stop (Panic ''release'') s"
  by (simp add: release_def op_simps)

lemma acquire_busy_spins:
  "cpu_ok s \<Longrightarrow> locked (locks s lk) \<Longrightarrow> \<not> holding lk s \<Longrightarrow> acquire lk s = Stop Spin (entered s)"
  by (simp add: acquire_def push_off_ok holding_def entered_def machine_defs op_simps)

text \<open>
  \<^verbatim>\<open>push_off\<close>/\<^verbatim>\<open>pop_off\<close> nest: after \<open>n\<close> of one and \<open>n\<close> of
  the other the hart is in the state it started from, and in between interrupts are off.
\<close>

primrec repeat_op :: "nat \<Rightarrow> ('s, unit) op \<Rightarrow> ('s, unit) op" where
  "repeat_op 0 m = ret ()"
| "repeat_op (Suc n) m = seq m (repeat_op n m)"

lemma cpu_ok_entered: "cpu_ok s \<Longrightarrow> cpu_ok (entered s)"
  by (simp add: cpu_ok_def entered_def mycpu_def)

lemma repeat_snoc: "repeat_op (Suc n) m = seq (repeat_op n m) m"
  by (induction n) (simp, metis repeat_op.simps(2) seq_assoc)

lemma push_off_n: "cpu_ok s \<Longrightarrow> repeat_op n push_off s = Ok () ((entered ^^ n) s)"
  by (induction n arbitrary: s) (simp_all add: push_off_ok cpu_ok_entered funpow_swap1 op_simps)

lemma pop_off_n: "cpu_ok s \<Longrightarrow> repeat_op n pop_off ((entered ^^ n) s) = Ok () s"
proof (induction n arbitrary: s)
  case (Suc n)
  have "repeat_op n pop_off ((entered ^^ n) (entered s)) = Ok () (entered s)"
    using Suc by (simp add: cpu_ok_entered)
  then have "seq (repeat_op n pop_off) pop_off ((entered ^^ n) (entered s)) = Ok () s"
    using Suc.prems by (simp add: pop_off_ok op_simps)
  then show ?case by (simp only: repeat_snoc funpow_Suc_right o_apply)
qed simp

section \<open>Contention between harts\<close>

text \<open>
  The same code with the memory accesses of different harts interleaved.  A hart is
  outside, past the \<^verbatim>\<open>holding\<close> check and swapping (\<open>Trying\<close>), past a
  successful swap but with \<^verbatim>\<open>lk->cpu\<close> not yet written (\<open>Got\<close>), in the
  critical section, or between the two stores of \<^verbatim>\<open>release\<close> (\<open>Leaving\<close>).
\<close>

datatype lock_pc = Outside | Trying | Got | Critical | Leaving

record lock_sys =
  slk :: spinlock
  hpc :: "nat \<Rightarrow> lock_pc"

definition holding_by :: "nat \<Rightarrow> lock_sys \<Rightarrow> bool" where
  "holding_by h s \<longleftrightarrow> locked (slk s) \<and> lcpu (slk s) = Some h"

inductive lock_step :: "lock_sys \<Rightarrow> lock_sys \<Rightarrow> bool" where
  enter: "hpc s h = Outside \<Longrightarrow> \<not> holding_by h s \<Longrightarrow> lock_step s (s\<lparr>hpc := (hpc s)(h := Trying)\<rparr>)"
| spin: "hpc s h = Trying \<Longrightarrow> locked (slk s) \<Longrightarrow> lock_step s (s\<lparr>slk := (slk s)\<lparr>locked := True\<rparr>\<rparr>)"
| swap: "hpc s h = Trying \<Longrightarrow> \<not> locked (slk s) \<Longrightarrow>
     lock_step s (s\<lparr>slk := (slk s)\<lparr>locked := True\<rparr>, hpc := (hpc s)(h := Got)\<rparr>)"
| owner: "hpc s h = Got \<Longrightarrow>
     lock_step s (s\<lparr>slk := (slk s)\<lparr>lcpu := Some h\<rparr>, hpc := (hpc s)(h := Critical)\<rparr>)"
| disown: "hpc s h = Critical \<Longrightarrow> holding_by h s \<Longrightarrow>
     lock_step s (s\<lparr>slk := (slk s)\<lparr>lcpu := None\<rparr>, hpc := (hpc s)(h := Leaving)\<rparr>)"
| unlock: "hpc s h = Leaving \<Longrightarrow>
     lock_step s (s\<lparr>slk := (slk s)\<lparr>locked := False\<rparr>, hpc := (hpc s)(h := Outside)\<rparr>)"

definition lock_init :: "string \<Rightarrow> lock_sys" where
  "lock_init name = \<lparr>slk = \<lparr>locked = False, lname = name, lcpu = None\<rparr>, hpc = (\<lambda>_. Outside)\<rparr>"

inductive lock_reachable :: "string \<Rightarrow> lock_sys \<Rightarrow> bool" for name where
  start: "lock_reachable name (lock_init name)"
| step: "lock_reachable name s \<Longrightarrow> lock_step s t \<Longrightarrow> lock_reachable name t"

definition owns :: "lock_sys \<Rightarrow> nat \<Rightarrow> bool" where
  "owns s h \<longleftrightarrow> hpc s h = Got \<or> hpc s h = Critical \<or> hpc s h = Leaving"

definition lock_inv :: "lock_sys \<Rightarrow> bool" where
  "lock_inv s \<longleftrightarrow> (\<forall>h h'. owns s h \<longrightarrow> owns s h' \<longrightarrow> h = h')
     \<and> (locked (slk s) \<longleftrightarrow> (\<exists>h. owns s h)) \<and> (\<forall>h. lcpu (slk s) = Some h \<longleftrightarrow> hpc s h = Critical)"

lemma lock_inv_init: "lock_inv (lock_init name)"
  by (simp add: lock_inv_def lock_init_def owns_def)

lemma owns_upd:
  "owns (s\<lparr>hpc := (hpc s)(h := p)\<rparr>) = (owns s)(h := p = Got \<or> p = Critical \<or> p = Leaving)"
  "owns (s\<lparr>slk := l, hpc := (hpc s)(h := p)\<rparr>) = (owns s)(h := p = Got \<or> p = Critical \<or> p = Leaving)"
  "owns (s\<lparr>slk := l\<rparr>) = owns s"
  by (auto simp: owns_def fun_eq_iff)

lemma owns_hpc: "hpc s h = Got \<Longrightarrow> owns s h" "hpc s h = Critical \<Longrightarrow> owns s h" "hpc s h = Leaving \<Longrightarrow> owns s h"
  "hpc s h = Outside \<Longrightarrow> \<not> owns s h" "hpc s h = Trying \<Longrightarrow> \<not> owns s h"
  by (simp_all add: owns_def)

lemma lock_inv_step: "lock_step s t \<Longrightarrow> lock_inv s \<Longrightarrow> lock_inv t"
proof (induction rule: lock_step.induct)
  case (enter s h)
  then have "(owns s)(h := False) = owns s" by (simp add: owns_hpc fun_upd_idem)
  with enter show ?case by (auto simp: lock_inv_def owns_upd)
next
  case (spin s h)
  then show ?case by (simp add: lock_inv_def owns_upd)
next
  case (swap s h)
  then have "\<not> owns s h'" for h' by (simp add: lock_inv_def)
  with swap show ?case by (auto simp: lock_inv_def owns_upd dest: owns_hpc)
next
  case (owner s h)
  then have o: "(owns s)(h := True) = owns s" by (simp add: owns_hpc fun_upd_idem)
  have u: "h' = h" if "hpc s h' = Critical" for h'
    using owner owns_hpc(1) [of s h] owns_hpc(2) [OF that] unfolding lock_inv_def by blast
  with owner have "(lcpu ((slk s)\<lparr>lcpu := Some h\<rparr>) = Some h') = (((hpc s)(h := Critical)) h' = Critical)"
    for h' by auto
  with owner show ?case unfolding lock_inv_def owns_upd by (simp add: o)
next
  case (disown s h)
  then have o: "(owns s)(h := True) = owns s" by (simp add: owns_hpc fun_upd_idem)
  have "h' = h" if "hpc s h' = Critical" for h'
    using disown owns_hpc(2) [of s h] owns_hpc(2) [OF that] unfolding lock_inv_def by blast
  then have "(\<forall>h'. (lcpu ((slk s)\<lparr>lcpu := None\<rparr>) = Some h') = (((hpc s)(h := Leaving)) h' = Critical))"
    by auto
  with disown show ?case unfolding lock_inv_def owns_upd by (simp add: o)
next
  case (unlock s h)
  then have "owns s h' \<longleftrightarrow> h' = h" for h'
    using owns_hpc(3) [of s h] unfolding lock_inv_def by blast
  then have "owns s = (\<lambda>h'. h' = h)" by blast
  with unlock show ?case by (auto simp: lock_inv_def owns_upd)
qed

lemma lock_reachable_inv: "lock_reachable name s \<Longrightarrow> lock_inv s"
  by (induction rule: lock_reachable.induct) (auto intro: lock_inv_init lock_inv_step)

section \<open>Properties\<close>

text \<open>
  C4. Mutual exclusion of the spin lock: in every state that any interleaving of the harts
  can reach, at most one hart is between a successful swap in \<^verbatim>\<open>acquire\<close> and the
  final store of \<^verbatim>\<open>release\<close>, and \<^verbatim>\<open>holding()\<close> answers true exactly for
  the hart in the critical section.
\<close>

theorem spinlock_mutual_exclusion:
  assumes "lock_reachable name s"
  shows "(owns s h \<and> owns s h' \<longrightarrow> h = h') \<and> (holding_by h s \<longleftrightarrow> hpc s h = Critical)"
proof -
  have inv: "lock_inv s" using assms by (rule lock_reachable_inv)
  then have "owns s h \<Longrightarrow> owns s h' \<Longrightarrow> h = h'" unfolding lock_inv_def by blast
  moreover have "holding_by h s \<longleftrightarrow> hpc s h = Critical"
    using inv owns_hpc(2) [of s h] unfolding lock_inv_def holding_by_def by blast
  ultimately show ?thesis by blast
qed

definition demo_lock :: lock_sys where
  "demo_lock = \<lparr>slk = \<lparr>locked = True, lname = ''kmem'', lcpu = Some 3\<rparr>,
     hpc = ((\<lambda>_. Outside)(3 := Critical))\<rparr>"

lemma demo_lock_reachable: "lock_reachable ''kmem'' demo_lock"
proof -
  let ?a = "lock_init ''kmem''"
  let ?b = "?a\<lparr>hpc := (hpc ?a)(3 := Trying)\<rparr>"
  let ?c = "?b\<lparr>slk := (slk ?b)\<lparr>locked := True\<rparr>, hpc := (hpc ?b)(3 := Got)\<rparr>"
  let ?d = "?c\<lparr>slk := (slk ?c)\<lparr>lcpu := Some 3\<rparr>, hpc := (hpc ?c)(3 := Critical)\<rparr>"
  have "lock_reachable ''kmem'' ?b"
    by (rule lock_reachable.step [OF lock_reachable.start], rule lock_step.enter)
      (simp_all add: lock_init_def holding_by_def)
  then have "lock_reachable ''kmem'' ?c"
    by (rule lock_reachable.step, intro lock_step.swap) (simp_all add: lock_init_def)
  then have "lock_reachable ''kmem'' ?d"
    by (rule lock_reachable.step, intro lock_step.owner) simp
  moreover have "?d = demo_lock" by (simp add: demo_lock_def lock_init_def)
  ultimately show ?thesis by simp
qed

theorem spinlock_mutual_exclusion_witness:
  "holding_by 3 demo_lock \<and> \<not> holding_by 4 demo_lock"
  using spinlock_mutual_exclusion [OF demo_lock_reachable, of 3 3]
    spinlock_mutual_exclusion [OF demo_lock_reachable, of 4 4]
  by (simp add: demo_lock_def)

text \<open>
  C5. A lock bracket on a consistent hart: \<^verbatim>\<open>acquire\<close> of a free lock succeeds with
  the lock held and interrupts off, and \<^verbatim>\<open>release\<close> then restores exactly the state
  before, including the interrupt enable that \<^verbatim>\<open>push_off\<close> recorded.
\<close>

theorem acquire_release_restores:
  assumes "cpu_ok s" and "lock_free l s"
  shows "\<exists>t. acquire l s = Ok () t \<and> holding l t \<and> \<not> intr_get t \<and> release l t = Ok () s"
proof -
  have "holding l (held l s)" "\<not> intr_get (held l s)"
    by (simp_all add: holding_def held_def entered_def machine_defs)
  then show ?thesis using acquire_ok [OF assms] release_ok [OF assms] by blast
qed

definition demo_machine :: machine where
  "demo_machine = \<lparr>tp = 0, sie = (\<lambda>_. True),
     cpus = (\<lambda>_. \<lparr>cproc = None, ccontext = \<lparr>ra = 0, sp = 0, sregs = []\<rparr>, noff = 0, intena = True\<rparr>),
     locks = (\<lambda>_. \<lparr>locked = False, lname = [], lcpu = None\<rparr>)\<rparr>"

theorem acquire_release_restores_witness:
  "\<exists>t. acquire KmemLock demo_machine = Ok () t \<and> holding KmemLock t \<and> \<not> intr_get t
     \<and> release KmemLock t = Ok () demo_machine"
  by (rule acquire_release_restores) (simp_all add: demo_machine_def cpu_ok_def lock_free_def mycpu_def)

text \<open>
  \<^verbatim>\<open>push_off\<close> and \<^verbatim>\<open>pop_off\<close> nest to any depth: \<open>n\<close> calls of the
  first followed by \<open>n\<close> of the second succeed and give back the state before.
\<close>

theorem push_off_pop_off_nest:
  assumes "cpu_ok s"
  shows "seq (repeat_op n push_off) (repeat_op n pop_off) s = Ok () s"
  using push_off_n [OF assms, of n] pop_off_n [OF assms, of n] by (simp add: op_simps)

theorem push_off_pop_off_nest_witness:
  "seq (repeat_op 3 push_off) (repeat_op 3 pop_off) demo_machine = Ok () demo_machine"
  by (rule push_off_pop_off_nest) (simp add: demo_machine_def cpu_ok_def mycpu_def)

end
