(* ===== verification/Xv6_Kstring.thy ===== *)
theory Xv6_Kstring
  imports Xv6_Spinlock
begin

text \<open>
  \<^verbatim>\<open>kernel/string.c\<close> over byte-addressed physical memory, and the little-endian
  64-bit loads and stores the kernel makes through pointers.  The C loops are kept as
  recursions over the count; the lemmas give the closed form of each: what
  \<^verbatim>\<open>memset\<close> leaves in memory, that \<^verbatim>\<open>memmove\<close> copies the old source
  bytes whatever the overlap, when the comparisons answer 0, and that
  \<^verbatim>\<open>safestrcpy\<close> always terminates its result.
\<close>

type_synonym memory = "u64 \<Rightarrow> u8"

record phys = machine +
  mem :: memory
  sym_end :: u64
  sym_etext :: u64
  sym_trampoline :: u64

section \<open>The routines of string.c\<close>

primrec memset_loop :: "memory \<Rightarrow> u64 \<Rightarrow> u8 \<Rightarrow> nat \<Rightarrow> memory" where
  "memset_loop m dst c 0 = m"
| "memset_loop m dst c (Suc n) = memset_loop (m(dst := c)) (dst + 1) c n"

definition memset :: "memory \<Rightarrow> u64 \<Rightarrow> int \<Rightarrow> nat \<Rightarrow> memory" where
  "memset m dst c n = memset_loop m dst (word_of_int c) n"

primrec memcmp :: "memory \<Rightarrow> u64 \<Rightarrow> u64 \<Rightarrow> nat \<Rightarrow> int" where
  "memcmp m s1 s2 0 = 0"
| "memcmp m s1 s2 (Suc n) =
     (if m s1 \<noteq> m s2 then uint (m s1) - uint (m s2) else memcmp m (s1 + 1) (s2 + 1) n)"

primrec copy_fwd :: "memory \<Rightarrow> u64 \<Rightarrow> u64 \<Rightarrow> nat \<Rightarrow> memory" where
  "copy_fwd m d s 0 = m"
| "copy_fwd m d s (Suc n) = copy_fwd (m(d := m s)) (d + 1) (s + 1) n"

primrec copy_bwd :: "memory \<Rightarrow> u64 \<Rightarrow> u64 \<Rightarrow> nat \<Rightarrow> memory" where
  "copy_bwd m d s 0 = m"
| "copy_bwd m d s (Suc n) = copy_bwd (m(d - 1 := m (s - 1))) (d - 1) (s - 1) n"

definition memmove :: "memory \<Rightarrow> u64 \<Rightarrow> u64 \<Rightarrow> nat \<Rightarrow> memory" where
  "memmove m dst src n =
     (if n = 0 then m
      else if src < dst \<and> src + of_nat n > dst
      then copy_bwd m (dst + of_nat n) (src + of_nat n) n
      else copy_fwd m dst src n)"

primrec strncmp :: "memory \<Rightarrow> u64 \<Rightarrow> u64 \<Rightarrow> nat \<Rightarrow> int" where
  "strncmp m p q 0 = 0"
| "strncmp m p q (Suc n) =
     (if m p \<noteq> 0 \<and> m p = m q then strncmp m (p + 1) (q + 1) n
      else uint (m p) - uint (m q))"

primrec strncpy :: "memory \<Rightarrow> u64 \<Rightarrow> u64 \<Rightarrow> nat \<Rightarrow> memory" where
  "strncpy m s t 0 = m"
| "strncpy m s t (Suc n) =
     (let m' = m(s := m t) in
      if m t \<noteq> 0 then strncpy m' (s + 1) (t + 1) n else memset_loop m' (s + 1) 0 n)"

text \<open>\<^verbatim>\<open>while(--n > 0 && (*s++ = *t++) != 0); *s = 0;\<close>: \<open>n\<close> bytes of
  room, the last one for the terminator.  After a copied NUL, \<^verbatim>\<open>s\<close> is already past it.\<close>

primrec safestrcpy_loop :: "memory \<Rightarrow> u64 \<Rightarrow> u64 \<Rightarrow> nat \<Rightarrow> memory" where
  "safestrcpy_loop m s t 0 = m(s := 0)"
| "safestrcpy_loop m s t (Suc n) =
     (let m' = m(s := m t) in
      if m t \<noteq> 0 then safestrcpy_loop m' (s + 1) (t + 1) n else m'(s + 1 := 0))"

definition safestrcpy :: "memory \<Rightarrow> u64 \<Rightarrow> u64 \<Rightarrow> int \<Rightarrow> memory" where
  "safestrcpy m s t n = (if n \<le> 0 then m else safestrcpy_loop m s t (nat (n - 1)))"

partial_function (option) strlen_from :: "memory \<Rightarrow> u64 \<Rightarrow> nat \<Rightarrow> nat option" where
  "strlen_from m s n = (if m (s + of_nat n) = 0 then Some n else strlen_from m s (Suc n))"

definition strlen :: "memory \<Rightarrow> u64 \<Rightarrow> nat option" where
  "strlen m s = strlen_from m s 0"

text \<open>\<^verbatim>\<open>uint64 *\<close> accesses: RISC-V is little-endian.\<close>

definition load64 :: "memory \<Rightarrow> u64 \<Rightarrow> u64" where
  "load64 m a = ucast (m a) OR push_bit 8 (ucast (m (a + 1))) OR push_bit 16 (ucast (m (a + 2)))
     OR push_bit 24 (ucast (m (a + 3))) OR push_bit 32 (ucast (m (a + 4)))
     OR push_bit 40 (ucast (m (a + 5))) OR push_bit 48 (ucast (m (a + 6)))
     OR push_bit 56 (ucast (m (a + 7)))"

definition store64 :: "memory \<Rightarrow> u64 \<Rightarrow> u64 \<Rightarrow> memory" where
  "store64 m a v = m(a := ucast v, a + 1 := ucast (drop_bit 8 v), a + 2 := ucast (drop_bit 16 v),
     a + 3 := ucast (drop_bit 24 v), a + 4 := ucast (drop_bit 32 v), a + 5 := ucast (drop_bit 40 v),
     a + 6 := ucast (drop_bit 48 v), a + 7 := ucast (drop_bit 56 v))"

section \<open>Closed forms\<close>

text \<open>The offset of an address in a run that starts at \<open>d\<close>.\<close>

lemma unat_pred: "(w :: u64) \<noteq> 0 \<Longrightarrow> unat (w - 1) = unat w - 1"
  by (simp add: unat_minus_one)

lemma off_Suc:
  fixes a d :: u64
  assumes "n < 2 ^ 64"
  shows "unat (a - d) < Suc n \<longleftrightarrow> a = d \<or> unat (a - (d + 1)) < n"
proof (cases "a = d")
  case False
  then have "a - d \<noteq> 0" by simp
  then have "unat (a - (d + 1)) = unat (a - d) - 1"
    unfolding diff_diff_eq [symmetric] by (rule unat_pred)
  moreover from \<open>a - d \<noteq> 0\<close> have "0 < unat (a - d)" using unat_gt_0 by blast
  ultimately show ?thesis using False by auto
qed simp

lemma off_self:
  fixes d :: u64
  assumes "n < 2 ^ 64"
  shows "\<not> unat (d - (d + 1)) < n"
proof -
  have "d - (d + 1) = (- 1 :: u64)" by simp
  moreover have "unat (- 1 :: u64) = 2 ^ 64 - 1"
    by (simp add: unsigned_minus_1_eq_mask mask_eq_exp_minus_1)
  ultimately show ?thesis using assms by simp
qed

lemma memset_loop_apply:
  "n \<le> 2 ^ 64 \<Longrightarrow> memset_loop m d c n a = (if unat (a - d) < n then c else m a)"
proof (induction n arbitrary: m d)
  case (Suc n)
  then have "n < 2 ^ 64" by simp
  then show ?case using Suc off_Suc [of n a d] off_self [of n d] by auto
qed simp

lemma memset_apply:
  "n \<le> 2 ^ 64 \<Longrightarrow> memset m d c n a = (if unat (a - d) < n then word_of_int c else m a)"
  by (simp add: memset_def memset_loop_apply)

lemma copy_fwd_apply:
  assumes "n \<le> 2 ^ 64"
    and "\<And>i j. i < j \<Longrightarrow> j < n \<Longrightarrow> d + of_nat i \<noteq> s + of_nat j"
  shows "copy_fwd m d s n a = (if unat (a - d) < n then m (s + (a - d)) else m a)"
  using assms
proof (induction n arbitrary: m d s)
  case (Suc n)
  then have n: "n < 2 ^ 64" by simp
  have ne: "d + 1 + of_nat i \<noteq> s + 1 + of_nat j" if "i < j" "j < n" for i j
    using Suc.prems(2) [of "Suc i" "Suc j"] that by (simp add: add.assoc)
  have IH: "copy_fwd (m(d := m s)) (d + 1) (s + 1) n a =
      (if unat (a - (d + 1)) < n then (m(d := m s)) (s + 1 + (a - (d + 1))) else (m(d := m s)) a)"
    using Suc.IH n ne by simp
  have fresh: "s + (a - d) \<noteq> d" if "unat (a - (d + 1)) < n" "a \<noteq> d"
  proof -
    from that(2) have "a - d \<noteq> 0" by simp
    then have "0 < unat (a - d)" using unat_gt_0 by blast
    moreover have "unat (a - d) < Suc n" using off_Suc [OF n, of a d] that(1) by blast
    ultimately show ?thesis using Suc.prems(2) [of 0 "unat (a - d)"] by auto
  qed
  show ?case
  proof (cases "a = d")
    case True
    then show ?thesis using IH off_self [OF n, of d] by simp
  next
    case False
    then show ?thesis using IH fresh off_Suc [OF n, of a d] by (auto simp: algebra_simps)
  qed
qed simp

lemma copy_bwd_apply:
  assumes "n \<le> 2 ^ 64"
    and "\<And>i j. j < i \<Longrightarrow> i < n \<Longrightarrow> d + of_nat i \<noteq> s + of_nat j"
  shows "copy_bwd m (d + of_nat n) (s + of_nat n) n a = (if unat (a - d) < n then m (s + (a - d)) else m a)"
  using assms
proof (induction n arbitrary: m)
  case (Suc n)
  let ?m = "m(d + of_nat n := m (s + of_nat n))"
  have n: "n < 2 ^ 64" using Suc.prems by simp
  have IH: "copy_bwd ?m (d + of_nat n) (s + of_nat n) n a =
      (if unat (a - d) < n then ?m (s + (a - d)) else ?m a)"
    using Suc by simp
  have fresh: "s + (a - d) \<noteq> d + of_nat n" if "unat (a - d) < n"
    using Suc.prems(2) [of "unat (a - d)" n] that by auto
  have last: "unat (a - d) = n \<longleftrightarrow> a = d + of_nat n"
  proof
    assume "unat (a - d) = n"
    then have "a - d = of_nat n" by auto
    then show "a = d + of_nat n" by (simp add: algebra_simps)
  next
    assume "a = d + of_nat n"
    then show "unat (a - d) = n" using n by (simp add: unat_of_nat)
  qed
  then show ?case using IH fresh by (auto simp: less_Suc_eq)
qed simp

lemma memmove_apply:
  assumes "unat dst + n \<le> 2 ^ 64" and "unat src + n < 2 ^ 64"
  shows "memmove m dst src n a = (if unat (a - dst) < n then m (src + (a - dst)) else m a)"
proof -
  have idx: "unat (w + of_nat i) = unat w + i" if "unat w + i < 2 ^ 64" for w :: u64 and i
    using that by (simp add: unat_word_ariths unat_of_nat)
  show ?thesis
  proof (cases "src < dst \<and> src + of_nat n > dst")
    case True
    have "dst + of_nat i \<noteq> src + of_nat j" if "j < i" "i < n" for i j
    proof -
      have "unat (src + of_nat j) < unat (dst + of_nat i)"
        using that assms True by (simp add: idx word_less_nat_alt)
      then show ?thesis by auto
    qed
    then have "copy_bwd m (dst + of_nat n) (src + of_nat n) n a =
        (if unat (a - dst) < n then m (src + (a - dst)) else m a)"
      using assms by (intro copy_bwd_apply) auto
    with True show ?thesis by (simp add: memmove_def)
  next
    case False
    have "dst + of_nat i \<noteq> src + of_nat j" if "i < j" "j < n" for i j
    proof -
      have "unat (src + of_nat j) \<noteq> unat (dst + of_nat i)"
        using that assms False by (auto simp: idx word_less_nat_alt)
      then show ?thesis by auto
    qed
    then have "copy_fwd m dst src n a = (if unat (a - dst) < n then m (src + (a - dst)) else m a)"
      using assms by (intro copy_fwd_apply) auto
    with False show ?thesis by (auto simp: memmove_def)
  qed
qed

text \<open>64-bit loads and stores.\<close>

lemma byte64_bit:
  "bit (push_bit k (ucast (ucast (drop_bit k (v :: u64)) :: u8)) :: u64) n
     \<longleftrightarrow> k \<le> n \<and> n < k + 8 \<and> n < 64 \<and> bit v n"
  by (auto simp: bit_simps)

lemma bytes64_bits:
  fixes v :: u64
  shows "(push_bit 0 (ucast (ucast (drop_bit 0 v) :: u8)) OR push_bit 8 (ucast (ucast (drop_bit 8 v) :: u8))
     OR push_bit 16 (ucast (ucast (drop_bit 16 v) :: u8)) OR push_bit 24 (ucast (ucast (drop_bit 24 v) :: u8))
     OR push_bit 32 (ucast (ucast (drop_bit 32 v) :: u8)) OR push_bit 40 (ucast (ucast (drop_bit 40 v) :: u8))
     OR push_bit 48 (ucast (ucast (drop_bit 48 v) :: u8)) OR push_bit 56 (ucast (ucast (drop_bit 56 v) :: u8))) = v"
    (is "?w = v")
proof (rule bit_word_eqI)
  fix n :: nat
  assume "n < LENGTH(64)"
  then have "n < 64" by simp
  then have "n < 0 + 8 \<or> 8 \<le> n \<and> n < 8 + 8 \<or> 16 \<le> n \<and> n < 16 + 8 \<or> 24 \<le> n \<and> n < 24 + 8
      \<or> 32 \<le> n \<and> n < 32 + 8 \<or> 40 \<le> n \<and> n < 40 + 8 \<or> 48 \<le> n \<and> n < 48 + 8 \<or> 56 \<le> n \<and> n < 56 + 8"
    by linarith
  with \<open>n < 64\<close> show "bit ?w n = bit v n"
    unfolding bit_or_iff byte64_bit by blast
qed

lemma load64_store64: "load64 (store64 m a v) a = v"
  using bytes64_bits [of v] by (simp add: load64_def store64_def)

lemma store64_other:
  assumes "8 \<le> unat (x - a)"
  shows "store64 m a v x = m x"
proof -
  have "x \<noteq> a + of_nat i" if "i < 8" for i
  proof
    assume "x = a + of_nat i"
    then have "unat (x - a) = i" using that by (simp add: unat_of_nat)
    with assms that show False by simp
  qed
  from this [of 0] this [of 1] this [of 2] this [of 3] this [of 4] this [of 5] this [of 6] this [of 7]
  show ?thesis by (simp add: store64_def)
qed

lemma load64_cong:
  assumes "\<And>i. i < 8 \<Longrightarrow> m (a + of_nat i) = m' (a + of_nat i)"
  shows "load64 m a = load64 m' a"
  using assms [of 0] assms [of 1] assms [of 2] assms [of 3] assms [of 4] assms [of 5] assms [of 6]
    assms [of 7] by (simp add: load64_def)

text \<open>Two words of memory that are eight bytes apart, in either direction.\<close>

lemma load64_store64_other:
  assumes "8 \<le> unat (b - a)" and "8 \<le> unat (a - b)"
  shows "load64 (store64 m a v) b = load64 m b"
proof (rule load64_cong)
  fix i :: nat
  assume i: "i < 8"
  have "\<not> unat (b + of_nat i - a) < 8"
  proof
    define k where "k = unat (b + of_nat i - a)"
    assume "unat (b + of_nat i - a) < 8"
    then have k: "k < 8" by (simp add: k_def)
    have "b + of_nat i - a = of_nat k" by (simp add: k_def)
    then have eq: "b - a = of_nat k - of_nat i" "a - b = of_nat i - of_nat k"
      by (simp_all add: algebra_simps)
    show False
    proof (cases "i \<le> k")
      case True
      then have "unat (b - a) = k - i" using eq(1) k by (simp flip: of_nat_diff add: unat_of_nat)
      then show False using assms(1) k by simp
    next
      case False
      then have "unat (a - b) = i - k" using eq(2) i by (simp flip: of_nat_diff add: unat_of_nat)
      then show False using assms(2) i by simp
    qed
  qed
  then show "store64 m a v (b + of_nat i) = m (b + of_nat i)" by (simp add: store64_other)
qed

text \<open>Strings.\<close>

lemma strlen_from_Some:
  "strlen_from m s k = Some n \<Longrightarrow>
     k \<le> n \<and> m (s + of_nat n) = 0 \<and> (\<forall>i. k \<le> i \<and> i < n \<longrightarrow> m (s + of_nat i) \<noteq> 0)"
proof (erule strlen_from.raw_induct [rotated])
  fix f and m :: memory and s :: u64 and k n :: nat
  assume IH: "\<And>m (s :: u64) k n. f m s k = Some n \<Longrightarrow>
      k \<le> n \<and> m (s + of_nat n) = 0 \<and> (\<forall>i. k \<le> i \<and> i < n \<longrightarrow> m (s + of_nat i) \<noteq> 0)"
    and step: "(if m (s + of_nat k) = 0 then Some k else f m s (Suc k)) = Some n"
  show "k \<le> n \<and> m (s + of_nat n) = 0 \<and> (\<forall>i. k \<le> i \<and> i < n \<longrightarrow> m (s + of_nat i) \<noteq> 0)"
  proof (cases "m (s + of_nat k) = 0")
    case True
    then show ?thesis using step by auto
  next
    case False
    then have "f m s (Suc k) = Some n" using step by simp
    from IH [OF this] False show ?thesis
      by (metis Suc_leD Suc_leI le_neq_implies_less)
  qed
qed

lemma strlen_from_total:
  assumes "k \<le> n" and "m (s + of_nat n) = 0" and "\<forall>i<n. m (s + of_nat i) \<noteq> 0"
  shows "strlen_from m s k = Some n"
  using assms(1)
proof (induction "n - k" arbitrary: k)
  case 0
  then have "k = n" by simp
  then show ?case using assms(2) by (subst strlen_from.simps) simp
next
  case (Suc j)
  then have "k < n" "strlen_from m s (Suc k) = Some n" by simp_all
  then show ?case using assms(3) by (subst strlen_from.simps) simp
qed

lemma strlen_Some:
  "strlen m s = Some n \<longleftrightarrow> m (s + of_nat n) = 0 \<and> (\<forall>i<n. m (s + of_nat i) \<noteq> 0)"
  unfolding strlen_def using strlen_from_Some [of m s 0 n] strlen_from_total [of 0 n m s] by blast

lemma memcmp_eq_0: "memcmp m p q n = 0 \<longleftrightarrow> (\<forall>i<n. m (p + of_nat i) = m (q + of_nat i))"
proof (induction n arbitrary: p q)
  case (Suc n)
  have "(\<forall>i<Suc n. m (p + of_nat i) = m (q + of_nat i)) \<longleftrightarrow>
      m p = m q \<and> (\<forall>i<n. m (p + 1 + of_nat i) = m (q + 1 + of_nat i))"
    by (simp add: All_less_Suc2 add.assoc)
  then show ?case using Suc by (simp flip: word_uint_eq_iff)
qed simp

text \<open>The comparison stops at the first difference or at a common terminator.\<close>

lemma strncmp_eq_0:
  "strncmp m p q n = 0 \<longleftrightarrow>
     (\<forall>i<n. (\<forall>j<i. m (p + of_nat j) \<noteq> 0) \<longrightarrow> m (p + of_nat i) = m (q + of_nat i))"
proof (induction n arbitrary: p q)
  case (Suc n)
  have split: "(\<forall>i<Suc n. (\<forall>j<i. m (p + of_nat j) \<noteq> 0) \<longrightarrow> m (p + of_nat i) = m (q + of_nat i)) \<longleftrightarrow>
      m p = m q \<and> (m p \<noteq> 0 \<longrightarrow>
        (\<forall>i<n. (\<forall>j<i. m (p + 1 + of_nat j) \<noteq> 0) \<longrightarrow> m (p + 1 + of_nat i) = m (q + 1 + of_nat i)))"
    by (auto simp: All_less_Suc2 add.assoc)
  show ?case unfolding split Suc.IH [of "p + 1" "q + 1", symmetric] strncmp.simps
    by (auto simp: word_uint_eq_iff)
qed simp

end
