(* ===== verification/Xv6_Kalloc.thy ===== *)
theory Xv6_Kalloc
  imports Xv6_Kstring
begin

text \<open>
  \<^verbatim>\<open>kernel/kalloc.c\<close>: the physical page allocator.  The free list is threaded
  through the free pages themselves, as in the code: the first word of a free page is the
  address of the next one.  The abstraction is the list of free pages; under its invariant
  \<^verbatim>\<open>kfree\<close> pushes and \<^verbatim>\<open>kalloc\<close> pops, and no other byte of memory
  changes than those of the page that moves.
\<close>

record kmem = phys +
  freelist :: u64

section \<open>Operations\<close>

definition kfree :: "u64 \<Rightarrow> ('z kmem_scheme, unit) op" where
  "kfree pa =
     seq (bind (gets sym_end) (\<lambda>e.
       do_if (pa mod PGSIZE \<noteq> 0 \<or> pa < e \<or> pa \<ge> PHYSTOP) (panic ''kfree''))) (
     seq (modify (\<lambda>s. s\<lparr>mem := memset (mem s) pa 1 (unat PGSIZE)\<rparr>)) (
     seq (acquire KmemLock) (
     seq (modify (\<lambda>s. s\<lparr>mem := store64 (mem s) pa (freelist s)\<rparr>)) (
     seq (modify (\<lambda>s. s\<lparr>freelist := pa\<rparr>)) (
     release KmemLock)))))"

definition kalloc :: "('z kmem_scheme, u64) op" where
  "kalloc =
     seq (acquire KmemLock) (
     bind (gets freelist) (\<lambda>r.
     seq (do_if (r \<noteq> 0) (modify (\<lambda>s. s\<lparr>freelist := load64 (mem s) r\<rparr>))) (
     seq (release KmemLock) (
     seq (do_if (r \<noteq> 0) (modify (\<lambda>s. s\<lparr>mem := memset (mem s) r 5 (unat PGSIZE)\<rparr>))) (
     ret r)))))"

text \<open>
  The loop of \<^verbatim>\<open>freerange\<close>.  Pointer arithmetic that wraps is undefined in C;
  the model faults there, so the loop ends for every pair of arguments.
\<close>

function freerange_loop :: "u64 \<Rightarrow> u64 \<Rightarrow> ('z kmem_scheme, unit) op" where
  "freerange_loop p pa_end =
     (if p + PGSIZE < p then fault ''pointer overflow''
      else if p + PGSIZE \<le> pa_end then seq (kfree p) (freerange_loop (p + PGSIZE) pa_end)
      else ret ())"
  by pat_completeness auto

termination
proof (relation "measure (\<lambda>(p, _). 2 ^ 64 - unat p)")
  fix p pa_end :: u64
  assume "\<not> p + PGSIZE < p"
  moreover have "p \<noteq> p + PGSIZE" by (simp add: PGSIZE_def)
  ultimately have "p < p + PGSIZE" by (metis not_less_iff_gr_or_eq)
  then have "unat p < unat (p + PGSIZE)" by (simp only: word_less_nat_alt)
  then show "((p + PGSIZE, pa_end), p, pa_end) \<in> measure (\<lambda>(p, _). 2 ^ 64 - unat p)"
    using unat64_lt [of "p + PGSIZE"] by simp
qed simp

declare freerange_loop.simps [simp del]

definition freerange :: "u64 \<Rightarrow> u64 \<Rightarrow> ('z kmem_scheme, unit) op" where
  "freerange pa_start pa_end = freerange_loop (PGROUNDUP pa_start) pa_end"

definition kinit :: "('z kmem_scheme, unit) op" where
  "kinit = seq (initlock KmemLock ''kmem'') (bind (gets sym_end) (\<lambda>e. freerange e PHYSTOP))"

text \<open>
  \<^verbatim>\<open>freemem\<close> of the system-call exercise counts the free pages; on a cyclic list its
  loop would not end, which is \<open>None\<close>.
\<close>

partial_function (option) count_free :: "memory \<Rightarrow> u64 \<Rightarrow> int \<Rightarrow> int option" where
  "count_free m r n = (if r = 0 then Some n else count_free m (load64 m r) (i32 (n + 1)))"

definition freemem :: "('z kmem_scheme, int) op" where
  "freemem =
     seq (acquire KmemLock) (
     bind (gets (\<lambda>s. count_free (mem s) (freelist s) 0)) (\<lambda>c.
     case c of
       None \<Rightarrow> halt Spin
     | Some n \<Rightarrow> seq (release KmemLock) (ret (i32 (n * 4096)))))"

section \<open>The lock is transparent\<close>

text \<open>Fields of this layer do not interact with the lock bookkeeping below it.\<close>

lemma held_phys [simp]:
  "mem (held lk s) = mem s" "sym_end (held lk s) = sym_end s" "freelist (held lk s') = freelist s'"
  by (simp_all add: held_def entered_def upd_lock_def)

lemma held_upd_phys [simp]:
  "(held lk s)\<lparr>mem := m\<rparr> = held lk (s\<lparr>mem := m\<rparr>)"
  "(held lk s')\<lparr>freelist := r\<rparr> = held lk (s'\<lparr>freelist := r\<rparr>)"
  by (cases s; simp add: held_def entered_def upd_lock_def mycpu_def)
     (cases s'; simp add: held_def entered_def upd_lock_def mycpu_def)

lemma cpu_ok_upd_phys [simp]:
  "cpu_ok (s\<lparr>mem := m\<rparr>) = cpu_ok s" "cpu_ok (s'\<lparr>freelist := r\<rparr>) = cpu_ok s'"
  by (simp_all add: cpu_ok_def mycpu_def)

lemma lock_free_upd_phys [simp]:
  "lock_free lk (s\<lparr>mem := m\<rparr>) = lock_free lk s" "lock_free lk (s'\<lparr>freelist := r\<rparr>) = lock_free lk s'"
  by (simp_all add: lock_free_def)

definition valid_page :: "'z phys_scheme \<Rightarrow> u64 \<Rightarrow> bool" where
  "valid_page s pa \<longleftrightarrow> page_aligned pa \<and> sym_end s \<le> pa \<and> pa < PHYSTOP"

definition kfreed :: "u64 \<Rightarrow> 'z kmem_scheme \<Rightarrow> 'z kmem_scheme" where
  "kfreed pa s = s\<lparr>mem := store64 (memset (mem s) pa 1 4096) pa (freelist s), freelist := pa\<rparr>"

definition kalloced :: "'z kmem_scheme \<Rightarrow> 'z kmem_scheme" where
  "kalloced s = s\<lparr>freelist := load64 (mem s) (freelist s), mem := memset (mem s) (freelist s) 5 4096\<rparr>"

definition klock_ok :: "'z kmem_scheme \<Rightarrow> bool" where
  "klock_ok s \<longleftrightarrow> cpu_ok s \<and> lock_free KmemLock s"

lemma kfree_eq:
  assumes "klock_ok s"
  shows "kfree pa s = (if valid_page s pa then Ok () (kfreed pa s) else Stop (Panic ''kfree'') s)"
  using assms
  by (auto simp: klock_ok_def kfree_def kfreed_def valid_page_def page_aligned_def acquire_ok release_ok
      op_simps PGSIZE_def)

lemma kalloc_eq:
  assumes "klock_ok s"
  shows "kalloc s = (if freelist s = 0 then Ok 0 s else Ok (freelist s) (kalloced s))"
  using assms
  by (simp add: klock_ok_def kalloc_def kalloced_def acquire_ok release_ok op_simps PGSIZE_def)

section \<open>The contract of a page allocator\<close>

text \<open>
  What the rest of the kernel relies on: pages come from a list of free ones, a page that
  is handed out is not free any more, and only the contents of the page that moves change.
\<close>

definition outside_page :: "u64 \<Rightarrow> memory \<Rightarrow> memory \<Rightarrow> bool" where
  "outside_page p m m' \<longleftrightarrow> (\<forall>a. \<not> unat (a - p) < 4096 \<longrightarrow> m' a = m a)"

datatype request = Alloc | Free nat

text \<open>
  A client that keeps the list of the pages it holds and issues requests; \<open>Free i\<close> gives
  back the \<open>i\<close>-th page it holds.
\<close>

primrec serve :: "('s, u64) op \<Rightarrow> (u64 \<Rightarrow> ('s, unit) op) \<Rightarrow> request list \<Rightarrow> u64 list \<Rightarrow> ('s, u64 list) op" where
  "serve alloc free [] hs = ret hs"
| "serve alloc free (r # rs) hs =
     (case r of
        Alloc \<Rightarrow> bind alloc (\<lambda>p. serve alloc free rs (if p = 0 then hs else p # hs))
      | Free i \<Rightarrow> if i < length hs
          then seq (free (hs ! i)) (serve alloc free rs (take i hs @ drop (Suc i) hs))
          else serve alloc free rs hs)"

locale page_allocator =
  fixes inv :: "'s \<Rightarrow> u64 list \<Rightarrow> bool"
    and alloc :: "('s, u64) op"
    and free :: "u64 \<Rightarrow> ('s, unit) op"
    and content :: "'s \<Rightarrow> memory"
    and usable :: "'s \<Rightarrow> u64 \<Rightarrow> bool"
  assumes inv_pages: "inv s ps \<Longrightarrow> distinct ps \<and> 0 \<notin> set ps \<and> (\<forall>p \<in> set ps. usable s p)"
    and alloc_empty: "inv s [] \<Longrightarrow> alloc s = Ok 0 s"
    and alloc_pop: "inv s (p # ps) \<Longrightarrow>
      \<exists>t. alloc s = Ok p t \<and> inv t ps \<and> usable t = usable s \<and> outside_page p (content s) (content t)"
    and free_push: "inv s ps \<Longrightarrow> usable s p \<Longrightarrow> p \<notin> set ps \<Longrightarrow>
      \<exists>t. free p s = Ok () t \<and> inv t (p # ps) \<and> usable t = usable s \<and> outside_page p (content s) (content t)"
begin

lemma serve_conserves:
  assumes "inv s ps" "distinct (hs @ ps)" "\<forall>p \<in> set hs. usable s p"
  shows "\<exists>hs' ps' t. serve alloc free rs hs s = Ok hs' t \<and> inv t ps' \<and> distinct (hs' @ ps')
    \<and> set hs' \<union> set ps' = set hs \<union> set ps"
  using assms
proof (induction rs arbitrary: s hs ps)
  case Nil
  then show ?case by auto
next
  case (Cons r rs)
  show ?case
  proof (cases r)
    case Alloc
    show ?thesis
    proof (cases ps)
      case Nil
      then show ?thesis
        using Cons.IH [OF Cons.prems] Cons.prems(1) Alloc alloc_empty by (simp add: op_simps)
    next
      case (Cons p qs)
      then obtain t where t: "alloc s = Ok p t" "inv t qs" "usable t = usable s"
        using Cons.prems(1) alloc_pop by blast
      have p: "p \<noteq> 0" "usable s p" using inv_pages [OF Cons.prems(1)] Cons by auto
      have "distinct ((p # hs) @ qs)" "\<forall>x \<in> set (p # hs). usable t x"
        using Cons.prems Cons t(3) p by auto
      from Cons.IH [OF t(2) this] show ?thesis using Alloc t(1) p Cons by (simp add: op_simps)
    qed
  next
    case (Free i)
    show ?thesis
    proof (cases "i < length hs")
      case False
      then show ?thesis using Cons.IH [OF Cons.prems] Free by simp
    next
      case True
      let ?p = "hs ! i" and ?hs = "take i hs @ drop (Suc i) hs"
      have split: "hs = take i hs @ ?p # drop (Suc i) hs" using True by (rule id_take_nth_drop)
      then have d: "distinct (take i hs @ ?p # drop (Suc i) hs)" "set hs = insert ?p (set ?hs)"
        using Cons.prems(2) by (metis distinct_append) (subst split, simp)
      then have p: "?p \<notin> set ?hs" "distinct ?hs" by auto
      have "?p \<notin> set ps" "usable s ?p" using nth_mem [OF True] Cons.prems by auto
      then obtain t where t: "free ?p s = Ok () t" "inv t (?p # ps)" "usable t = usable s"
        using free_push [OF Cons.prems(1)] by blast
      have "distinct (?hs @ ?p # ps)" "\<forall>x \<in> set ?hs. usable t x"
        using p Cons.prems d(2) t(3) by auto
      from Cons.IH [OF t(2) this] show ?thesis using Free True t(1) d(2) by (auto simp: op_simps)
    qed
  qed
qed

end

section \<open>The free list implements it\<close>

primrec flist_chain :: "memory \<Rightarrow> u64 \<Rightarrow> u64 list \<Rightarrow> bool" where
  "flist_chain m p [] \<longleftrightarrow> p = 0"
| "flist_chain m p (x # xs) \<longleftrightarrow> p = x \<and> p \<noteq> 0 \<and> flist_chain m (load64 m p) xs"

definition kmem_inv :: "'z kmem_scheme \<Rightarrow> u64 list \<Rightarrow> bool" where
  "kmem_inv s ps \<longleftrightarrow> klock_ok s \<and> KERNBASE \<le> sym_end s \<and> flist_chain (mem s) (freelist s) ps \<and> distinct ps
     \<and> (\<forall>p \<in> set ps. valid_page s p)"

lemma load64_outside_page:
  assumes "outside_page p m m'" "page_aligned p" "page_aligned x" "x \<noteq> p"
  shows "load64 m' x = load64 m x"
  using assms page_off_other [OF assms(3,2,4)] by (intro load64_cong) (simp add: outside_page_def)

lemma free_chain_outside_page:
  assumes "outside_page p m m'" "page_aligned p" "\<forall>x \<in> set xs. page_aligned x" "p \<notin> set xs"
  shows "flist_chain m' q xs = flist_chain m q xs"
  using assms(3,4)
proof (induction xs arbitrary: q)
  case (Cons x xs)
  then show ?case using load64_outside_page [OF assms(1,2), of x] by auto
qed simp

lemma outside_page_memset: "outside_page p m (memset m p c 4096)"
  by (simp add: outside_page_def memset_apply)

lemma outside_page_kfreed: "outside_page p (mem s) (mem (kfreed p s))"
  by (simp add: outside_page_def kfreed_def store64_other memset_apply)

lemma valid_page_moved [simp]:
  "valid_page (kfreed p s) = valid_page s" "valid_page (kalloced s) = valid_page s"
  by (simp_all add: kfreed_def kalloced_def valid_page_def fun_eq_iff)

lemma valid_page_nonzero: "KERNBASE \<le> sym_end s \<Longrightarrow> valid_page s p \<Longrightarrow> p \<noteq> 0"
  by (auto simp: valid_page_def layout_simps)

lemma kfree_push:
  assumes "kmem_inv s ps" "valid_page s p" "p \<notin> set ps"
  shows "kfree p s = Ok () (kfreed p s)" and "kmem_inv (kfreed p s) (p # ps)"
proof -
  have al: "page_aligned p" "\<forall>x \<in> set ps. page_aligned x"
    using assms by (auto simp: kmem_inv_def valid_page_def)
  have fields: "freelist (kfreed p s) = p" "sym_end (kfreed p s) = sym_end s"
    "klock_ok (kfreed p s) = klock_ok s"
    "load64 (mem (kfreed p s)) p = freelist s"
    by (auto simp: kfreed_def klock_ok_def load64_store64)
  have "flist_chain (mem (kfreed p s)) (freelist s) ps"
    using assms(1) free_chain_outside_page [OF outside_page_kfreed [of p s] al assms(3)] by (simp add: kmem_inv_def)
  then show "kmem_inv (kfreed p s) (p # ps)"
    using assms valid_page_nonzero [of s p] by (auto simp: kmem_inv_def fields)
  show "kfree p s = Ok () (kfreed p s)" using assms by (simp add: kfree_eq kmem_inv_def)
qed

lemma kalloc_pop:
  assumes "kmem_inv s (p # ps)"
  shows "kalloc s = Ok p (kalloced s)" and "kmem_inv (kalloced s) ps"
    and "mem (kalloced s) = memset (mem s) p 5 4096"
proof -
  have p: "freelist s = p" "p \<noteq> 0" using assms by (auto simp: kmem_inv_def)
  then show m: "mem (kalloced s) = memset (mem s) p 5 4096" by (simp add: kalloced_def)
  have fields: "freelist (kalloced s) = load64 (mem s) p" "sym_end (kalloced s) = sym_end s"
    "klock_ok (kalloced s) = klock_ok s"
    using p by (auto simp: kalloced_def klock_ok_def)
  have "flist_chain (mem (kalloced s)) (load64 (mem s) p) ps"
    using assms free_chain_outside_page [OF outside_page_memset, of p ps "mem s" 5 "load64 (mem s) p"]
    by (auto simp: kmem_inv_def valid_page_def m)
  then show "kmem_inv (kalloced s) ps" using assms by (simp add: kmem_inv_def fields)
  show "kalloc s = Ok p (kalloced s)" using assms p by (simp add: kalloc_eq kmem_inv_def)
qed

interpretation kmem: page_allocator kmem_inv kalloc kfree mem valid_page
proof
  fix s :: "'z kmem_scheme" and p ps
  show "kmem_inv s ps \<Longrightarrow> distinct ps \<and> 0 \<notin> set ps \<and> (\<forall>p \<in> set ps. valid_page s p)"
    using valid_page_nonzero [of s 0] by (auto simp: kmem_inv_def)
  show "kmem_inv s [] \<Longrightarrow> kalloc s = Ok 0 s"
    by (simp add: kmem_inv_def kalloc_eq)
  show "\<exists>t. kalloc s = Ok p t \<and> kmem_inv t ps \<and> valid_page t = valid_page s \<and> outside_page p (mem s) (mem t)"
    if "kmem_inv s (p # ps)"
    using kalloc_pop [OF that] outside_page_memset by (intro exI [of _ "kalloced s"]) simp
  show "\<exists>t. kfree p s = Ok () t \<and> kmem_inv t (p # ps) \<and> valid_page t = valid_page s \<and> outside_page p (mem s) (mem t)"
    if "kmem_inv s ps" "valid_page s p" "p \<notin> set ps"
    using kfree_push [OF that] outside_page_kfreed [of p s] by (intro exI [of _ "kfreed p s"]) simp
qed

section \<open>Counting and filling the free list\<close>

text \<open>There are at most 32768 pages between the kernel image and \<open>PHYSTOP\<close>.\<close>

lemma valid_pages_bound:
  assumes "distinct ps" "\<forall>p \<in> set ps. valid_page s p" "KERNBASE \<le> sym_end s"
  shows "length ps \<le> 32768"
proof -
  let ?f = "\<lambda>p :: u64. unat p div 4096"
  have range: "?f ` set ps \<subseteq> {0x80000 ..< 0x88000}"
  proof
    fix k
    assume "k \<in> ?f ` set ps"
    then obtain p where p: "p \<in> set ps" "k = unat p div 4096" by blast
    then have "unat p < 0x88000000" "0x80000000 \<le> unat p"
      using assms(2,3) by (auto simp: valid_page_def layout_simps word_less_nat_alt word_le_nat_alt)
    then show "k \<in> {0x80000 ..< 0x88000}" using p(2) by auto
  qed
  have "inj_on ?f (set ps)"
  proof
    fix p q
    assume "p \<in> set ps" "q \<in> set ps" and eq: "?f p = ?f q"
    then have "page_aligned p" "page_aligned q" using assms(2) by (auto simp: valid_page_def)
    then have "unat p = ?f p * 4096" "unat q = ?f q * 4096"
      using div_mult_mod_eq [of "unat p" 4096] div_mult_mod_eq [of "unat q" 4096]
      by (simp_all add: page_aligned_iff)
    then show "p = q" using eq by (simp add: word_unat_eq_iff)
  qed
  then have "card (set ps) = card (?f ` set ps)" by (simp add: card_image)
  also have "\<dots> \<le> card {0x80000 ..< 0x88000 :: nat}" by (intro card_mono range) simp
  finally show ?thesis using distinct_card [OF assms(1)] by simp
qed

lemma count_free_chain:
  "flist_chain m p ps \<Longrightarrow> 0 \<le> n \<Longrightarrow> n + int (length ps) < 2 ^ 31 \<Longrightarrow>
     count_free m p n = Some (n + int (length ps))"
proof (induction ps arbitrary: p n)
  case Nil
  then show ?case by (subst count_free.simps) simp
next
  case (Cons x xs)
  have "count_free m (load64 m p) (n + 1) = Some (n + 1 + int (length xs))"
    by (rule Cons.IH) (use Cons.prems in auto)
  moreover have "i32 (n + 1) = n + 1" using Cons.prems by simp
  ultimately show ?case using Cons.prems(1) by (subst count_free.simps) auto
qed

lemma freemem_count:
  assumes "kmem_inv s ps"
  shows "freemem s = Ok (4096 * int (length ps)) s"
proof -
  have "length ps \<le> 32768"
    using assms valid_pages_bound [of ps s] by (simp add: kmem_inv_def)
  then have "count_free (mem s) (freelist s) 0 = Some (int (length ps))"
    using assms count_free_chain [of "mem s" "freelist s" ps 0] by (simp add: kmem_inv_def)
  moreover have "i32 (int (length ps) * 4096) = 4096 * int (length ps)"
    using \<open>length ps \<le> 32768\<close> by simp
  ultimately show ?thesis using assms
    by (simp add: freemem_def kmem_inv_def klock_ok_def acquire_ok release_ok op_simps)
qed

definition pages_upto :: "u64 \<Rightarrow> nat \<Rightarrow> u64 list" where
  "pages_upto p n = map (\<lambda>i. p + of_nat i * PGSIZE) [0..<n]"

lemma unat_pages:
  assumes "unat p + n * 4096 \<le> 0x88000000" "i \<le> n"
  shows "unat (p + of_nat i * PGSIZE) = unat p + i * 4096"
proof -
  have "i * 4096 \<le> n * 4096" using assms(2) by simp
  then have "unat p + i * 4096 < 2 ^ 64" using assms(1) by simp
  moreover have "of_nat i * PGSIZE = (of_nat (i * 4096) :: u64)" by (simp add: PGSIZE_def)
  ultimately show ?thesis by (simp add: unat_word_ariths unat_of_nat del: of_nat_mult)
qed

text \<open>
  The loop of \<^verbatim>\<open>freerange\<close> frees one page after the other, up to the first one
  that does not fit.
\<close>

lemma freerange_loop_frees:
  assumes "kmem_inv s ps" "page_aligned p" "sym_end s \<le> p" "unat p + n * 4096 = 0x88000000"
    "\<forall>x \<in> set ps. x < p"
  shows "\<exists>t. freerange_loop p PHYSTOP s = Ok () t \<and> kmem_inv t (rev (pages_upto p n) @ ps)"
  using assms
proof (induction n arbitrary: s ps p)
  case 0
  then have "p = PHYSTOP" by (simp add: layout_simps word_unat_eq_iff)
  then show ?case using 0 by (subst freerange_loop.simps) (simp add: layout_simps pages_upto_def)
next
  case (Suc n)
  have p': "unat (p + PGSIZE) = unat p + 4096"
    using unat_pages [of p "Suc n" 1] Suc.prems(4) by simp
  have v: "valid_page s p" using Suc.prems p'
    by (simp add: valid_page_def layout_simps word_less_nat_alt)
  have p: "p \<notin> set ps" using Suc.prems(5) by auto
  have lt: "p < p + PGSIZE" using p' by (simp add: word_less_nat_alt)
  have "page_aligned (p + PGSIZE)"
    using Suc.prems(2) p' by (simp add: page_aligned_iff)
  moreover have "sym_end (kfreed p s) \<le> p + PGSIZE"
    using Suc.prems(3) lt by (simp add: kfreed_def)
  moreover have "unat (p + PGSIZE) + n * 4096 = 0x88000000" using Suc.prems(4) p' by simp
  moreover have "\<forall>x \<in> set (p # ps). x < p + PGSIZE" using Suc.prems(5) lt by auto
  ultimately obtain t where t: "freerange_loop (p + PGSIZE) PHYSTOP (kfreed p s) = Ok () t"
    "kmem_inv t (rev (pages_upto (p + PGSIZE) n) @ p # ps)"
    using Suc.IH [OF kfree_push(2) [OF Suc.prems(1) v p]] by blast
  have "p + PGSIZE \<le> PHYSTOP" using Suc.prems(4) p' by (simp add: word_le_nat_alt layout_simps)
  then have "freerange_loop p PHYSTOP s = Ok () t"
    using lt t(1) kfree_push(1) [OF Suc.prems(1) v p]
    by (subst freerange_loop.simps) (simp add: op_simps)
  moreover have "pages_upto p (Suc n) = p # pages_upto (p + PGSIZE) n"
    by (simp add: pages_upto_def upt_conv_Cons map_Suc_upt [symmetric] del: upt_Suc)
       (simp add: algebra_simps)
  ultimately show ?case using t(2) by simp
qed

section \<open>Properties\<close>

text \<open>
  C1. The page allocator conserves pages.  Whatever sequence of \<^verbatim>\<open>kalloc\<close> and
  \<^verbatim>\<open>kfree\<close> requests a client makes, giving back only pages it holds, every request
  succeeds without a panic; no page is ever handed out twice or both held and free; and the
  held and the free pages together are the same pages as before.
\<close>

theorem kalloc_kfree_conserve:
  assumes "kmem_inv s ps" "distinct (hs @ ps)" "\<forall>p \<in> set hs. valid_page s p"
  shows "\<exists>hs' ps' t. serve kalloc kfree rs hs s = Ok hs' t \<and> kmem_inv t ps' \<and> distinct (hs' @ ps')
    \<and> set hs' \<union> set ps' = set hs \<union> set ps"
  using assms by (rule kmem.serve_conserves)

definition demo_kmem :: kmem where
  "demo_kmem = \<lparr>tp = 0, sie = (\<lambda>_. True),
     cpus = (\<lambda>_. \<lparr>cproc = None, ccontext = \<lparr>ra = 0, sp = 0, sregs = []\<rparr>, noff = 0, intena = True\<rparr>),
     locks = (\<lambda>_. \<lparr>locked = False, lname = [], lcpu = None\<rparr>),
     mem = (\<lambda>_. 0), sym_end = 0x80021000, sym_etext = 0x80008000, sym_trampoline = 0x80007000, freelist = 0\<rparr>"

lemma demo_kmem_inv: "kmem_inv demo_kmem []"
  by (simp add: demo_kmem_def kmem_inv_def klock_ok_def cpu_ok_def mycpu_def lock_free_def layout_simps)

lemma demo_kmem_valid: "valid_page demo_kmem 0x80021000" "valid_page demo_kmem 0x80022000"
  by (simp_all add: demo_kmem_def valid_page_def page_aligned_def layout_simps)

theorem kalloc_kfree_conserve_witness:
  "\<exists>hs' ps' t. serve kalloc kfree [Free 0, Alloc, Alloc, Free 1] [0x80021000, 0x80022000] demo_kmem = Ok hs' t
     \<and> kmem_inv t ps' \<and> distinct (hs' @ ps') \<and> set hs' \<union> set ps' = {0x80021000, 0x80022000}"
  using kalloc_kfree_conserve [OF demo_kmem_inv, of "[0x80021000, 0x80022000]" "[Free 0, Alloc, Alloc, Free 1]"]
    demo_kmem_valid by simp

text \<open>
  C6. \<^verbatim>\<open>kinit\<close> puts every whole page between the end of the kernel image and
  \<open>PHYSTOP\<close> on the free list, exactly once.
\<close>

theorem kinit_frees_all:
  assumes "cpu_ok s" "freelist s = 0" "KERNBASE \<le> sym_end s" "sym_end s \<le> PHYSTOP"
  shows "\<exists>t. kinit s = Ok () t \<and> kmem_inv t (rev (pages_upto (PGROUNDUP (sym_end s))
    ((unat PHYSTOP - unat (PGROUNDUP (sym_end s))) div 4096)))"
proof -
  let ?s = "upd_lock KmemLock (\<lambda>_. \<lparr>locked = False, lname = ''kmem'', lcpu = None\<rparr>) s"
  let ?p = "PGROUNDUP (sym_end s)"
  let ?n = "(unat PHYSTOP - unat ?p) div 4096"
  have u: "unat (sym_end s) \<le> 0x88000000" using assms(4) by (simp add: word_le_nat_alt layout_simps)
  then have r: "unat ?p = (unat (sym_end s) + 4095) div 4096 * 4096" by (intro unat_PGROUNDUP) simp
  have le: "unat ?p \<le> 0x88000000" using div_le_mono [of "unat (sym_end s) + 4095" "0x88000000 + 4095" 4096] u unfolding r by simp
  have "kmem_inv ?s []"
    using assms by (simp add: kmem_inv_def klock_ok_def cpu_ok_def lock_free_def machine_defs)
  moreover have "sym_end ?s \<le> ?p" using PGROUNDUP_ge [of "sym_end s"] u by (simp add: upd_lock_def)
  moreover have "unat ?p + ?n * 4096 = 0x88000000"
  proof -
    have "(4096 :: nat) dvd 0x88000000 - unat ?p" unfolding r by (intro dvd_diff_nat) simp_all
    then show ?thesis using le by (simp add: layout_simps)
  qed
  ultimately obtain t where "freerange_loop ?p PHYSTOP ?s = Ok () t" "kmem_inv t (rev (pages_upto ?p ?n))"
    using freerange_loop_frees [of ?s "[]" ?p ?n] page_aligned_PGROUNDUP by auto
  then show ?thesis
    by (intro exI [of _ t]) (simp add: kinit_def freerange_def initlock_def op_simps, simp add: upd_lock_def)
qed

theorem kinit_frees_all_witness:
  "\<exists>t. kinit demo_kmem = Ok () t \<and> kmem_inv t (rev (pages_upto (PGROUNDUP (sym_end demo_kmem))
    ((unat PHYSTOP - unat (PGROUNDUP (sym_end demo_kmem))) div 4096)))"
  by (rule kinit_frees_all) (simp_all add: demo_kmem_def cpu_ok_def mycpu_def layout_simps)

text \<open>
  \<^verbatim>\<open>freemem\<close> of the system-call exercise returns the number of free bytes: the
  walk over the list ends, the 32-bit product does not overflow, and the state is unchanged.
\<close>

theorem freemem_counts_free_bytes:
  assumes "kmem_inv s ps"
  shows "freemem s = Ok (4096 * int (length ps)) s"
  using assms by (rule freemem_count)

theorem freemem_counts_free_bytes_witness:
  "freemem (kfreed 0x80021000 demo_kmem) = Ok 4096 (kfreed 0x80021000 demo_kmem)"
  using freemem_counts_free_bytes [OF kfree_push(2) [OF demo_kmem_inv demo_kmem_valid(1)]] by simp

end
