(* ===== verification/Xv6_Vm.thy ===== *)
theory Xv6_Vm
  imports Xv6_Kalloc
begin

text \<open>
  \<^verbatim>\<open>kernel/vm.c\<close> (and \<^verbatim>\<open>proc_mapstacks\<close> of
  \<^verbatim>\<open>kernel/proc.c\<close>): three-level page tables held in physical memory, the user
  address-space operations built on \<open>walk\<close>, and copies between kernel and user space.

  Kernel buffers are byte lists: \<open>copyout\<close> takes the bytes to copy, \<open>copyin\<close> and
  \<open>copyinstr\<close> return the bytes they wrote into the kernel buffer together with the C
  return value, so that a copy that fails half-way is visible to the caller.  A
  \<^verbatim>\<open>for\<close> loop over the pages of an address range is a \<open>scan\<close> over
  \<open>page_range\<close>.
\<close>

record vm = kmem +
  kernel_pagetable :: u64
  satp :: "nat \<Rightarrow> u64"

section \<open>Byte strings in memory\<close>

primrec store_bytes :: "memory \<Rightarrow> u64 \<Rightarrow> u8 list \<Rightarrow> memory" where
  "store_bytes m a [] = m"
| "store_bytes m a (b # bs) = store_bytes (m(a := b)) (a + 1) bs"

definition load_bytes :: "memory \<Rightarrow> u64 \<Rightarrow> nat \<Rightarrow> u8 list" where
  "load_bytes m a n = map (\<lambda>i. m (a + of_nat i)) [0..<n]"

definition page_range :: "u64 \<Rightarrow> u64 \<Rightarrow> u64 list" where
  "page_range a b = map (\<lambda>i. a + of_nat i * PGSIZE) [0..<(unat b - unat a + 4095) div 4096]"

section \<open>Walking a page table\<close>

primrec walk_loop :: "nat \<Rightarrow> u64 \<Rightarrow> bool \<Rightarrow> u64 \<Rightarrow> ('z kmem_scheme, u64 option) op" where
  "walk_loop 0 va alloc pagetable = ret (Some pagetable)"
| "walk_loop (Suc l) va alloc pagetable =
     (let pte = pagetable + 8 * PX (Suc l) va in
      bind (gets (\<lambda>s. load64 (mem s) pte)) (\<lambda>e.
      if e AND PTE_V \<noteq> 0 then walk_loop l va alloc (PTE2PA e)
      else if \<not> alloc then ret None
      else bind kalloc (\<lambda>pg.
        if pg = 0 then ret None
        else seq (modify (\<lambda>s. s\<lparr>mem := memset (mem s) pg 0 (unat PGSIZE)\<rparr>)) (
             seq (modify (\<lambda>s. s\<lparr>mem := store64 (mem s) pte (PA2PTE pg OR PTE_V)\<rparr>)) (
             walk_loop l va alloc pg)))))"

definition walk :: "u64 \<Rightarrow> u64 \<Rightarrow> bool \<Rightarrow> ('z kmem_scheme, u64) op" where
  "walk pagetable va alloc =
     seq (do_if (va \<ge> MAXVA) (panic ''walk'')) (
     bind (walk_loop 2 va alloc pagetable) (\<lambda>r.
     case r of None \<Rightarrow> ret 0 | Some pt \<Rightarrow> ret (pt + 8 * PX 0 va)))"

definition walkaddr :: "u64 \<Rightarrow> u64 \<Rightarrow> ('z kmem_scheme, u64) op" where
  "walkaddr pagetable va =
     (if va \<ge> MAXVA then ret 0
      else bind (walk pagetable va False) (\<lambda>pte.
        if pte = 0 then ret 0
        else bind (gets (\<lambda>s. load64 (mem s) pte)) (\<lambda>e.
          if e AND PTE_V = 0 then ret 0
          else if e AND PTE_U = 0 then ret 0
          else ret (PTE2PA e))))"

text \<open>
  The endless loop of \<^verbatim>\<open>mappages\<close> leaves at \<^verbatim>\<open>last\<close>; if it missed it,
  the panic of \<^verbatim>\<open>walk\<close> at \<open>MAXVA\<close> would end it.  That panic is written out as
  the first branch, which makes the recursion terminate.
\<close>

function mappages_loop :: "u64 \<Rightarrow> u64 \<Rightarrow> u64 \<Rightarrow> u64 \<Rightarrow> u64 \<Rightarrow> ('z kmem_scheme, int) op" where
  "mappages_loop pagetable a last_va pa perm =
     (if a \<ge> MAXVA then panic ''walk''
      else bind (walk pagetable a True) (\<lambda>pte.
        if pte = 0 then ret (- 1)
        else bind (gets (\<lambda>s. load64 (mem s) pte)) (\<lambda>e.
          if e AND PTE_V \<noteq> 0 then panic ''mappages: remap''
          else seq (modify (\<lambda>s. s\<lparr>mem := store64 (mem s) pte (PA2PTE pa OR perm OR PTE_V)\<rparr>)) (
            if a = last_va then ret 0
            else mappages_loop pagetable (a + PGSIZE) last_va (pa + PGSIZE) perm))))"
  by pat_completeness auto

termination
proof (relation "measure (\<lambda>(_, a, _). unat MAXVA - unat a)")
  fix pagetable a last_va pa perm :: u64
  assume "\<not> MAXVA \<le> a"
  then have "unat a < 0x4000000000" by (simp add: word_le_nat_alt layout_simps)
  moreover from this have "unat (a + PGSIZE) = unat a + 4096"
    by (simp add: unat_word_ariths layout_simps)
  ultimately show "((pagetable, a + PGSIZE, last_va, pa + PGSIZE, perm), pagetable, a, last_va, pa, perm)
      \<in> measure (\<lambda>(_, a, _). unat MAXVA - unat a)"
    by (simp add: layout_simps)
qed simp

declare mappages_loop.simps [simp del]

definition mappages :: "u64 \<Rightarrow> u64 \<Rightarrow> u64 \<Rightarrow> u64 \<Rightarrow> u64 \<Rightarrow> ('z kmem_scheme, int) op" where
  "mappages pagetable va sz pa perm =
     (if sz = 0 then panic ''mappages: size''
      else mappages_loop pagetable (PGROUNDDOWN va) (PGROUNDDOWN (va + sz - 1)) pa perm)"

definition kvmmap :: "u64 \<Rightarrow> u64 \<Rightarrow> u64 \<Rightarrow> u64 \<Rightarrow> u64 \<Rightarrow> ('z kmem_scheme, unit) op" where
  "kvmmap kpgtbl va pa sz perm =
     bind (mappages kpgtbl va sz pa perm) (\<lambda>r. do_if (r \<noteq> 0) (panic ''kvmmap''))"

definition proc_mapstacks :: "u64 \<Rightarrow> ('z kmem_scheme, unit) op" where
  "proc_mapstacks kpgtbl =
     for_each [0..<NPROC] (\<lambda>p.
       bind kalloc (\<lambda>pa.
       seq (do_if (pa = 0) (panic ''kalloc'')) (
       kvmmap kpgtbl (KSTACK p) pa PGSIZE (PTE_R OR PTE_W))))"

definition kvmmake :: "('z kmem_scheme, u64) op" where
  "kvmmake =
     bind kalloc (\<lambda>kpgtbl.
     seq (modify (\<lambda>s. s\<lparr>mem := memset (mem s) kpgtbl 0 (unat PGSIZE)\<rparr>)) (
     seq (kvmmap kpgtbl UART0 UART0 PGSIZE (PTE_R OR PTE_W)) (
     seq (kvmmap kpgtbl VIRTIO0 VIRTIO0 PGSIZE (PTE_R OR PTE_W)) (
     seq (kvmmap kpgtbl PLIC PLIC 0x400000 (PTE_R OR PTE_W)) (
     bind (gets sym_etext) (\<lambda>etext.
     seq (kvmmap kpgtbl KERNBASE KERNBASE (etext - KERNBASE) (PTE_R OR PTE_X)) (
     seq (kvmmap kpgtbl etext etext (PHYSTOP - etext) (PTE_R OR PTE_W)) (
     bind (gets sym_trampoline) (\<lambda>trampoline.
     seq (kvmmap kpgtbl TRAMPOLINE trampoline PGSIZE (PTE_R OR PTE_X)) (
     seq (proc_mapstacks kpgtbl) (
     ret kpgtbl)))))))))))"

definition kvminit :: "('z vm_scheme, unit) op" where
  "kvminit = bind kvmmake (\<lambda>pt. modify (\<lambda>s. s\<lparr>kernel_pagetable := pt\<rparr>))"

definition MAKE_SATP :: "u64 \<Rightarrow> u64" where
  "MAKE_SATP pagetable = push_bit 60 8 OR drop_bit 12 pagetable"

definition kvminithart :: "('z vm_scheme, unit) op" where
  "kvminithart = modify (\<lambda>s. s\<lparr>satp := (satp s)(tp s := MAKE_SATP (kernel_pagetable s))\<rparr>)"

section \<open>User address spaces\<close>

definition uvmunmap_page :: "u64 \<Rightarrow> bool \<Rightarrow> u64 \<Rightarrow> ('z kmem_scheme, unit) op" where
  "uvmunmap_page pagetable do_free a =
     bind (walk pagetable a False) (\<lambda>pte.
     seq (do_if (pte = 0) (panic ''uvmunmap: walk'')) (
     bind (gets (\<lambda>s. load64 (mem s) pte)) (\<lambda>e.
     seq (do_if (e AND PTE_V = 0) (panic ''uvmunmap: not mapped'')) (
     seq (do_if (PTE_FLAGS e = PTE_V) (panic ''uvmunmap: not a leaf'')) (
     seq (do_if do_free (kfree (PTE2PA e))) (
     modify (\<lambda>s. s\<lparr>mem := store64 (mem s) pte 0\<rparr>)))))))"

definition uvmunmap :: "u64 \<Rightarrow> u64 \<Rightarrow> u64 \<Rightarrow> bool \<Rightarrow> ('z kmem_scheme, unit) op" where
  "uvmunmap pagetable va npages do_free =
     seq (do_if (va mod PGSIZE \<noteq> 0) (panic ''uvmunmap: not aligned'')) (
     for_each (page_range va (va + npages * PGSIZE)) (uvmunmap_page pagetable do_free))"

definition uvmcreate :: "('z kmem_scheme, u64) op" where
  "uvmcreate =
     bind kalloc (\<lambda>pagetable.
     if pagetable = 0 then ret 0
     else seq (modify (\<lambda>s. s\<lparr>mem := memset (mem s) pagetable 0 (unat PGSIZE)\<rparr>)) (ret pagetable))"

definition uvmfirst :: "u64 \<Rightarrow> u8 list \<Rightarrow> ('z kmem_scheme, unit) op" where
  "uvmfirst pagetable src =
     seq (do_if (length src \<ge> unat PGSIZE) (panic ''uvmfirst: more than a page'')) (
     bind kalloc (\<lambda>pg.
     seq (modify (\<lambda>s. s\<lparr>mem := memset (mem s) pg 0 (unat PGSIZE)\<rparr>)) (
     bind (mappages pagetable 0 PGSIZE pg (PTE_W OR PTE_R OR PTE_X OR PTE_U)) (\<lambda>_.
     modify (\<lambda>s. s\<lparr>mem := store_bytes (mem s) pg src\<rparr>)))))"

definition uvmdealloc :: "u64 \<Rightarrow> u64 \<Rightarrow> u64 \<Rightarrow> ('z kmem_scheme, u64) op" where
  "uvmdealloc pagetable oldsz newsz =
     (if newsz \<ge> oldsz then ret oldsz
      else seq (do_if (PGROUNDUP newsz < PGROUNDUP oldsz)
             (let npages = i32 (uint ((PGROUNDUP oldsz - PGROUNDUP newsz) div PGSIZE))
              in uvmunmap pagetable (PGROUNDUP newsz) (word_of_int npages) True)) (
           ret newsz))"

definition uvmalloc :: "u64 \<Rightarrow> u64 \<Rightarrow> u64 \<Rightarrow> u64 \<Rightarrow> ('z kmem_scheme, u64) op" where
  "uvmalloc pagetable oldsz newsz xperm =
     (if newsz < oldsz then ret oldsz
      else let oldsz = PGROUNDUP oldsz in
        bind (scan (page_range oldsz newsz) (\<lambda>a.
          bind kalloc (\<lambda>pg.
          if pg = 0 then bind (uvmdealloc pagetable a oldsz) (\<lambda>_. ret (Some 0))
          else seq (modify (\<lambda>s. s\<lparr>mem := memset (mem s) pg 0 (unat PGSIZE)\<rparr>)) (
               bind (mappages pagetable a PGSIZE pg (PTE_R OR PTE_U OR xperm)) (\<lambda>r.
               if r \<noteq> 0
               then seq (kfree pg) (bind (uvmdealloc pagetable a oldsz) (\<lambda>_. ret (Some 0)))
               else ret None))))) (\<lambda>res.
        case res of Some v \<Rightarrow> ret v | None \<Rightarrow> ret newsz))"

text \<open>
  \<^verbatim>\<open>freewalk\<close> recurses along the table; \<open>d\<close> bounds the depth.  A table of the
  kernel has three levels, which \<open>uvmfree\<close> passes; a deeper one is reported as endless.
\<close>

primrec freewalk :: "nat \<Rightarrow> u64 \<Rightarrow> ('z kmem_scheme, unit) op" where
  "freewalk 0 pagetable = halt Spin"
| "freewalk (Suc d) pagetable =
     seq (for_each [0..<512] (\<lambda>i.
       let a = pagetable + 8 * of_nat i in
       bind (gets (\<lambda>s. load64 (mem s) a)) (\<lambda>pte.
       if pte AND PTE_V \<noteq> 0 \<and> pte AND (PTE_R OR PTE_W OR PTE_X) = 0
       then seq (freewalk d (PTE2PA pte)) (modify (\<lambda>s. s\<lparr>mem := store64 (mem s) a 0\<rparr>))
       else if pte AND PTE_V \<noteq> 0 then panic ''freewalk: leaf''
       else ret ()))) (
     kfree pagetable)"

definition uvmfree :: "u64 \<Rightarrow> u64 \<Rightarrow> ('z kmem_scheme, unit) op" where
  "uvmfree pagetable sz =
     seq (do_if (sz > 0) (uvmunmap pagetable 0 (PGROUNDUP sz div PGSIZE) True)) (
     freewalk 3 pagetable)"

text \<open>\<open>Some i\<close> is the jump to the label \<^verbatim>\<open>err\<close> at loop index \<open>i\<close>.\<close>

definition uvmcopy :: "u64 \<Rightarrow> u64 \<Rightarrow> u64 \<Rightarrow> ('z kmem_scheme, int) op" where
  "uvmcopy old new sz =
     bind (scan (page_range 0 sz) (\<lambda>i.
       bind (walk old i False) (\<lambda>pte.
       seq (do_if (pte = 0) (panic ''uvmcopy: pte should exist'')) (
       bind (gets (\<lambda>s. load64 (mem s) pte)) (\<lambda>e.
       seq (do_if (e AND PTE_V = 0) (panic ''uvmcopy: page not present'')) (
       bind kalloc (\<lambda>pg.
       if pg = 0 then ret (Some i)
       else seq (modify (\<lambda>s. s\<lparr>mem := memmove (mem s) pg (PTE2PA e) (unat PGSIZE)\<rparr>)) (
            bind (mappages new i PGSIZE pg (PTE_FLAGS e)) (\<lambda>r.
            if r \<noteq> 0 then seq (kfree pg) (ret (Some i)) else ret None))))))))) (\<lambda>err.
     case err of
       None \<Rightarrow> ret 0
     | Some i \<Rightarrow> seq (uvmunmap new 0 (i div PGSIZE) True) (ret (- 1)))"

definition uvmclear :: "u64 \<Rightarrow> u64 \<Rightarrow> ('z kmem_scheme, unit) op" where
  "uvmclear pagetable va =
     bind (walk pagetable va False) (\<lambda>pte.
     seq (do_if (pte = 0) (panic ''uvmclear'')) (
     modify (\<lambda>s. s\<lparr>mem := store64 (mem s) pte (load64 (mem s) pte AND NOT PTE_U)\<rparr>)))"

section \<open>Copies between kernel and user space\<close>

lemma page_offset_lt: "unat (a - PGROUNDDOWN a) < 4096"
proof -
  have "unat (a - PGROUNDDOWN a) = unat a - unat (PGROUNDDOWN a)"
    using PGROUNDDOWN_le by (simp add: unat_sub word_le_nat_alt)
  also have "\<dots> = unat a mod 4096"
    by (simp add: unat_PGROUNDDOWN minus_div_mult_eq_mod)
  finally show ?thesis by simp
qed

function copyout :: "u64 \<Rightarrow> u64 \<Rightarrow> u8 list \<Rightarrow> ('z kmem_scheme, int) op" where
  "copyout pagetable dstva src =
     (if src = [] then ret 0
      else let va0 = PGROUNDDOWN dstva; off = dstva - va0 in
        bind (walkaddr pagetable va0) (\<lambda>pa0.
        if pa0 = 0 then ret (- 1)
        else let n = min (unat PGSIZE - unat off) (length src) in
          seq (modify (\<lambda>s. s\<lparr>mem := store_bytes (mem s) (pa0 + off) (take n src)\<rparr>)) (
          copyout pagetable (va0 + PGSIZE) (drop n src))))"
  by pat_completeness auto

termination
  by (relation "measure (\<lambda>(_, _, src). length src)") (use page_offset_lt in \<open>auto simp: PGSIZE_def\<close>)

function copyin :: "u64 \<Rightarrow> u64 \<Rightarrow> nat \<Rightarrow> ('z kmem_scheme, u8 list \<times> int) op" where
  "copyin pagetable srcva len =
     (if len = 0 then ret ([], 0)
      else let va0 = PGROUNDDOWN srcva; off = srcva - va0 in
        bind (walkaddr pagetable va0) (\<lambda>pa0.
        if pa0 = 0 then ret ([], - 1)
        else let n = min (unat PGSIZE - unat off) len in
          bind (gets (\<lambda>s. load_bytes (mem s) (pa0 + off) n)) (\<lambda>bs.
          bind (copyin pagetable (va0 + PGSIZE) (len - n)) (\<lambda>(rest, r).
          ret (bs @ rest, r)))))"
  by pat_completeness auto

termination
  by (relation "measure (\<lambda>(_, _, len). len)") (use page_offset_lt in \<open>auto simp: PGSIZE_def\<close>)

text \<open>
  The inner loop of \<^verbatim>\<open>copyinstr\<close> over the \<open>n\<close> bytes at \<open>p\<close>: the bytes
  written and whether a NUL was met.
\<close>

primrec copy_chars :: "memory \<Rightarrow> u64 \<Rightarrow> nat \<Rightarrow> u8 list \<times> bool" where
  "copy_chars m p 0 = ([], False)"
| "copy_chars m p (Suc n) =
     (if m p = 0 then ([0], True)
      else let (bs, got) = copy_chars m (p + 1) n in (m p # bs, got))"

function copyinstr :: "u64 \<Rightarrow> u64 \<Rightarrow> nat \<Rightarrow> ('z kmem_scheme, u8 list \<times> int) op" where
  "copyinstr pagetable srcva mx =
     (if mx = 0 then ret ([], - 1)
      else let va0 = PGROUNDDOWN srcva; off = srcva - va0 in
        bind (walkaddr pagetable va0) (\<lambda>pa0.
        if pa0 = 0 then ret ([], - 1)
        else let n = min (unat PGSIZE - unat off) mx in
          bind (gets (\<lambda>s. copy_chars (mem s) (pa0 + off) n)) (\<lambda>(bs, got_null).
          if got_null then ret (bs, 0)
          else bind (copyinstr pagetable (va0 + PGSIZE) (mx - n)) (\<lambda>(rest, r).
            ret (bs @ rest, r)))))"
  by pat_completeness auto

termination
  by (relation "measure (\<lambda>(_, _, n). n)") (use page_offset_lt in \<open>auto simp: PGSIZE_def\<close>)

declare copyout.simps [simp del] copyin.simps [simp del] copyinstr.simps [simp del]

end
