(* ===== verification/Xv6_Rand.thy ===== *)
theory Xv6_Rand
  imports Xv6_Prelude
begin

text \<open>
  \<^verbatim>\<open>kernel/random.c\<close>: the four-component generator of the lottery scheduler.
  Its static variables are the record \<open>rng\<close>.  All arithmetic is on
  \<^verbatim>\<open>unsigned int\<close>, so it is kept at 32 bits; in \<open>randomrange\<close> the operands
  of \<^verbatim>\<open>%\<close> and \<^verbatim>\<open>+\<close> are converted to unsigned as C does and the sum
  is read back as an \<^verbatim>\<open>int\<close>.  (A zero range, which needs the full 32-bit interval,
  leaves the dividend, as \<^verbatim>\<open>remu\<close> does.)
\<close>

record rng =
  z1 :: u32
  z2 :: u32
  z3 :: u32
  z4 :: u32

definition rng_init :: rng where
  "rng_init = \<lparr>z1 = 12345, z2 = 12345, z3 = 12345, z4 = 12345\<rparr>"

definition random :: "rng \<Rightarrow> u32 \<times> rng" where
  "random g =
     (let b = drop_bit 13 (push_bit 6 (z1 g) XOR z1 g);
          g = g\<lparr>z1 := push_bit 18 (z1 g AND 4294967294) XOR b\<rparr>;
          b = drop_bit 27 (push_bit 2 (z2 g) XOR z2 g);
          g = g\<lparr>z2 := push_bit 2 (z2 g AND 4294967288) XOR b\<rparr>;
          b = drop_bit 21 (push_bit 13 (z3 g) XOR z3 g);
          g = g\<lparr>z3 := push_bit 7 (z3 g AND 4294967280) XOR b\<rparr>;
          b = drop_bit 12 (push_bit 3 (z4 g) XOR z4 g);
          g = g\<lparr>z4 := push_bit 13 (z4 g AND 4294967168) XOR b\<rparr>
      in ((z1 g XOR z2 g XOR z3 g XOR z4 g) div 2, g))"

definition randomrange :: "int \<Rightarrow> int \<Rightarrow> rng \<Rightarrow> int \<times> rng" where
  "randomrange lo hi g =
     (let (lo, hi) = (if hi < lo then (hi, lo) else (lo, hi));
          range = i32 (hi - lo + 1);
          (r, g') = random g
      in (sint (r mod word_of_int range + word_of_int lo :: u32), g'))"

text \<open>The documented range of \<^verbatim>\<open>random()\<close>: 0 to 2147483647.\<close>

lemma random_bound: "unat (fst (random g)) < 2 ^ 31"
proof -
  have "unat (w div 2 :: u32) < 2 ^ 31" for w
    using unsigned_less [of w, where ?'a = nat] by (simp add: unat_div)
  then show ?thesis by (simp add: random_def Let_def)
qed

lemma word_of_i32: "word_of_int (i32 x) = (word_of_int x :: u32)"
proof -
  have "i32 x mod 2 ^ 32 = x mod 2 ^ 32"
    unfolding i32_def by (metis add_diff_cancel_right' mod_diff_left_eq)
  then show ?thesis by (simp add: word_of_int_eq_iff take_bit_eq_mod)
qed

text \<open>
  The unsigned detour is harmless: the remainder is below the width of the interval, so
  adding the lower end stays inside it.
\<close>

lemma in_interval:
  assumes "- (2 ^ 31) \<le> lo" "lo \<le> hi" "hi < 2 ^ 31" and "unat r < 2 ^ 31"
  shows "lo \<le> sint (r mod word_of_int (hi - lo + 1) + word_of_int lo :: u32)
    \<and> sint (r mod word_of_int (hi - lo + 1) + word_of_int lo :: u32) \<le> hi"
proof -
  let ?w = "word_of_int (hi - lo + 1) :: u32"
  define q where "q = uint (r mod ?w)"
  have q: "0 \<le> q \<and> lo + q \<le> hi"
  proof (cases "hi - lo + 1 = 2 ^ 32")
    case True
    have "?w = 0" unfolding True by simp
    then have "q = uint r" unfolding q_def by simp
    moreover have "int (unat r) < 2 ^ 31" using assms(4) by (simp only: of_nat_less_numeral_power_cancel_iff)
    ultimately have "q < 2 ^ 31" by simp
    moreover have "lo = - (2 ^ 31)" "hi = 2 ^ 31 - 1" using True assms(1-3) by simp_all
    moreover have "0 \<le> q" unfolding q_def by simp
    ultimately show ?thesis by simp
  next
    case False
    then have "uint ?w = hi - lo + 1"
      using assms by (simp only: uint_word_of_int) simp
    then have "q = uint r mod (hi - lo + 1)" by (simp only: q_def uint_mod)
    moreover have "0 < hi - lo + 1" using assms(2) by simp
    ultimately have "0 \<le> q" "q < hi - lo + 1" by (simp_all only: pos_mod_sign pos_mod_bound)
    then show ?thesis by linarith
  qed
  have "r mod ?w + word_of_int lo = word_of_int (q + lo)" unfolding q_def by simp
  moreover have "sint (word_of_int (q + lo) :: u32) = q + lo"
    unfolding sint_sbintrunc' by (rule signed_take_bit_int_eq_self) (use q assms in simp_all)
  ultimately show ?thesis using q by simp
qed

lemma randomrange_in:
  assumes "- (2 ^ 31) \<le> lo" "lo < 2 ^ 31" "- (2 ^ 31) \<le> hi" "hi < 2 ^ 31"
  shows "min lo hi \<le> fst (randomrange lo hi g) \<and> fst (randomrange lo hi g) \<le> max lo hi"
  using in_interval [of lo hi "fst (random g)"] in_interval [of hi lo "fst (random g)"]
    random_bound [of g] assms
  by (auto simp: randomrange_def Let_def word_of_i32 split: prod.split)

lemma randomrange_snd: "snd (randomrange lo hi g) = snd (random g)"
  by (simp add: randomrange_def Let_def split: prod.split)

end
