(* ===== verification/Xv6_Proc.thy ===== *)
theory Xv6_Proc
  imports Xv6_Vm Xv6_Rand
begin

text \<open>
  \<^verbatim>\<open>kernel/proc.h\<close> and the part of \<^verbatim>\<open>kernel/proc.c\<close> that needs no file
  system: the process table, allocation and release of table slots, sleep and wakeup,
  killing, and the transfer of control to the scheduler.

  A \<^verbatim>\<open>struct proc *\<close> is the index of the slot; a null pointer is \<open>None\<close>, and
  using it as a pointer is a \<open>Fault\<close>.  \<^verbatim>\<open>swtch()\<close> is assembly that is not part
  of the sources: it is a parameter, the field \<open>sw\<close> of an environment, what happens to the state between the switch
  to the scheduler and the return from it.  The trapframe pages are a typed heap
  \<open>tframes\<close>, keyed by the physical address the page has.
\<close>

section \<open>State\<close>

datatype reg = Rra | Rsp | Rgp | Rtp | Rt0 | Rt1 | Rt2 | Rs0 | Rs1 | Ra0 | Ra1 | Ra2 | Ra3 | Ra4
  | Ra5 | Ra6 | Ra7 | Rs2 | Rs3 | Rs4 | Rs5 | Rs6 | Rs7 | Rs8 | Rs9 | Rs10 | Rs11 | Rt3 | Rt4 | Rt5 | Rt6

record trapframe =
  kernel_satp :: u64
  kernel_sp :: u64
  kernel_trap :: u64
  epc :: u64
  kernel_hartid :: u64
  regs :: "reg \<Rightarrow> u64"

datatype procstate = UNUSED | USED | SLEEPING | RUNNABLE | RUNNING | ZOMBIE

record proc =
  state :: procstate
  pchan :: "chan option"
  pkilled :: int
  xstate :: int
  pid :: int
  initial_tickets :: int
  current_tickets :: int
  ticks_used :: int
  parent :: "nat option"
  kstack :: u64
  psz :: u64
  pagetable :: u64
  trapframe_pa :: u64
  pcontext :: "context"
  ofile :: "nat \<Rightarrow> nat option"
  cwd :: "nat option"
  pname :: string

record kproc = vm +
  procs :: "nat \<Rightarrow> proc"
  initproc :: "nat option"
  nextpid :: int
  tframes :: "u64 \<Rightarrow> trapframe"
  rng_state :: rng
  ticks :: u32
  sym_forkret :: u64

definition upd_proc :: "nat \<Rightarrow> (proc \<Rightarrow> proc) \<Rightarrow> 'z kproc_scheme \<Rightarrow> 'z kproc_scheme" where
  "upd_proc p f s = s\<lparr>procs := (procs s)(p := f (procs s p))\<rparr>"

section \<open>The current process\<close>

definition myproc :: "('z machine_scheme, nat option) op" where
  "myproc =
     seq push_off (
     bind (gets (\<lambda>s. cproc (mycpu s))) (\<lambda>p.
     seq pop_off (
     ret p)))"

text \<open>The use of \<^verbatim>\<open>myproc()\<close> as a pointer.\<close>

definition curproc :: "('z machine_scheme, nat) op" where
  "curproc = bind myproc (\<lambda>p. case p of None \<Rightarrow> fault ''null proc'' | Some i \<Rightarrow> ret i)"

definition procinit :: "('z kproc_scheme, unit) op" where
  "procinit =
     seq (initlock PidLock ''nextpid'') (
     seq (initlock WaitLock ''wait_lock'') (
     for_each [0..<NPROC] (\<lambda>p.
       seq (initlock (ProcLock p) ''proc'') (
       seq (modify (upd_proc p (\<lambda>q. q\<lparr>state := UNUSED\<rparr>))) (
       modify (upd_proc p (\<lambda>q. q\<lparr>kstack := KSTACK p\<rparr>)))))))"

section \<open>Allocating and freeing process slots\<close>

definition allocpid :: "('z kproc_scheme, int) op" where
  "allocpid =
     seq (acquire PidLock) (
     bind (gets nextpid) (\<lambda>pid.
     seq (modify (\<lambda>s. s\<lparr>nextpid := i32 (nextpid s + 1)\<rparr>)) (
     seq (release PidLock) (
     ret pid))))"

definition proc_pagetable :: "nat \<Rightarrow> ('z kproc_scheme, u64) op" where
  "proc_pagetable p =
     bind uvmcreate (\<lambda>pt.
     if pt = 0 then ret 0
     else bind (gets sym_trampoline) (\<lambda>trampoline.
       bind (mappages pt TRAMPOLINE PGSIZE trampoline (PTE_R OR PTE_X)) (\<lambda>r.
       if r < 0 then seq (uvmfree pt 0) (ret 0)
       else bind (gets (\<lambda>s. trapframe_pa (procs s p))) (\<lambda>tf.
         bind (mappages pt TRAPFRAME PGSIZE tf (PTE_R OR PTE_W)) (\<lambda>r.
         if r < 0 then seq (uvmunmap pt TRAMPOLINE 1 False) (seq (uvmfree pt 0) (ret 0))
         else ret pt)))))"

definition proc_freepagetable :: "u64 \<Rightarrow> u64 \<Rightarrow> ('z kmem_scheme, unit) op" where
  "proc_freepagetable pt sz =
     seq (uvmunmap pt TRAMPOLINE 1 False) (
     seq (uvmunmap pt TRAPFRAME 1 False) (
     uvmfree pt sz))"

definition freeproc :: "nat \<Rightarrow> ('z kproc_scheme, unit) op" where
  "freeproc p =
     seq (bind (gets (\<lambda>s. trapframe_pa (procs s p))) (\<lambda>tf. do_if (tf \<noteq> 0) (kfree tf))) (
     seq (modify (upd_proc p (\<lambda>q. q\<lparr>trapframe_pa := 0\<rparr>))) (
     seq (bind (gets (\<lambda>s. procs s p)) (\<lambda>q.
       do_if (pagetable q \<noteq> 0) (proc_freepagetable (pagetable q) (psz q)))) (
     modify (upd_proc p (\<lambda>q. q\<lparr>pagetable := 0, psz := 0, pid := 0, parent := None, pname := [],
       pchan := None, pkilled := 0, xstate := 0, state := UNUSED\<rparr>)))))"

definition find_unused :: "('z kproc_scheme, nat option) op" where
  "find_unused =
     scan [0..<NPROC] (\<lambda>p.
       seq (acquire (ProcLock p)) (
       bind (gets (\<lambda>s. state (procs s p))) (\<lambda>st.
       if st = UNUSED then ret (Some p)
       else seq (release (ProcLock p)) (ret None))))"

definition allocproc :: "('z kproc_scheme, nat option) op" where
  "allocproc =
     bind find_unused (\<lambda>found.
     case found of
       None \<Rightarrow> ret None
     | Some p \<Rightarrow>
         bind allocpid (\<lambda>i.
         seq (modify (upd_proc p (\<lambda>q. q\<lparr>pid := i\<rparr>))) (
         seq (modify (upd_proc p (\<lambda>q. q\<lparr>state := USED\<rparr>))) (
         bind kalloc (\<lambda>tf.
         seq (modify (upd_proc p (\<lambda>q. q\<lparr>trapframe_pa := tf\<rparr>))) (
         if tf = 0 then seq (freeproc p) (seq (release (ProcLock p)) (ret None))
         else bind (proc_pagetable p) (\<lambda>pt.
           seq (modify (upd_proc p (\<lambda>q. q\<lparr>pagetable := pt\<rparr>))) (
           if pt = 0 then seq (freeproc p) (seq (release (ProcLock p)) (ret None))
           else seq (modify (\<lambda>s. upd_proc p (\<lambda>q. q\<lparr>pcontext :=
                  \<lparr>ra = sym_forkret s, sp = kstack q + PGSIZE, sregs = replicate 12 0\<rparr>\<rparr>) s)) (
                ret (Some p))))))))))"

definition growproc :: "int \<Rightarrow> ('z kproc_scheme, int) op" where
  "growproc n =
     bind curproc (\<lambda>p.
     bind (gets (\<lambda>s. procs s p)) (\<lambda>q.
     if n > 0 then
       bind (uvmalloc (pagetable q) (psz q) (psz q + word_of_int n) PTE_W) (\<lambda>sz.
       if sz = 0 then ret (- 1)
       else seq (modify (upd_proc p (\<lambda>q. q\<lparr>psz := sz\<rparr>))) (ret 0))
     else if n < 0 then
       bind (uvmdealloc (pagetable q) (psz q) (psz q + word_of_int n)) (\<lambda>sz.
       seq (modify (upd_proc p (\<lambda>q. q\<lparr>psz := sz\<rparr>))) (ret 0))
     else seq (modify (upd_proc p (\<lambda>q. q\<lparr>psz := psz q\<rparr>))) (ret 0)))"

section \<open>Giving up the CPU\<close>

text \<open>
  The environment of code that may sleep: \<open>sw\<close> as above, and \<open>wakeups\<close>, how often a
  loop around \<^verbatim>\<open>sleep()\<close> is woken before it is left waiting (\<open>Spin\<close>).
\<close>

record 's env =
  sw :: "('s, unit) op"
  wakeups :: nat

definition sched :: "'z kproc_scheme env \<Rightarrow> ('z kproc_scheme, unit) op" where
  "sched E =
     bind curproc (\<lambda>p.
     seq (bind (gets (holding (ProcLock p))) (\<lambda>h. do_if (\<not> h) (panic ''sched p->lock''))) (
     seq (bind (gets mycpu) (\<lambda>c. do_if (noff c \<noteq> 1) (panic ''sched locks''))) (
     seq (bind (gets (\<lambda>s. state (procs s p))) (\<lambda>st. do_if (st = RUNNING) (panic ''sched running''))) (
     seq (bind (gets intr_get) (\<lambda>on. do_if on (panic ''sched interruptible''))) (
     bind (gets (\<lambda>s. intena (mycpu s))) (\<lambda>ie.
     seq (sw E) (
     modify (upd_mycpu (\<lambda>c. c\<lparr>intena := ie\<rparr>)))))))))"

definition yield :: "'z kproc_scheme env \<Rightarrow> ('z kproc_scheme, unit) op" where
  "yield E =
     bind curproc (\<lambda>p.
     seq (acquire (ProcLock p)) (
     seq (modify (upd_proc p (\<lambda>q. q\<lparr>state := RUNNABLE\<rparr>))) (
     seq (sched E) (
     release (ProcLock p)))))"

definition sleep :: "'z kproc_scheme env \<Rightarrow> chan \<Rightarrow> lockid \<Rightarrow> ('z kproc_scheme, unit) op" where
  "sleep E ch lk =
     bind curproc (\<lambda>p.
     seq (acquire (ProcLock p)) (
     seq (release lk) (
     seq (modify (upd_proc p (\<lambda>q. q\<lparr>pchan := Some ch\<rparr>))) (
     seq (modify (upd_proc p (\<lambda>q. q\<lparr>state := SLEEPING\<rparr>))) (
     seq (sched E) (
     seq (modify (upd_proc p (\<lambda>q. q\<lparr>pchan := None\<rparr>))) (
     seq (release (ProcLock p)) (
     acquire lk))))))))"

text \<open>The loop \<^verbatim>\<open>while(cond) sleep(chan, lk)\<close>.\<close>

primrec sleep_loop ::
  "nat \<Rightarrow> 'z kproc_scheme env \<Rightarrow> ('z kproc_scheme \<Rightarrow> bool) \<Rightarrow> chan \<Rightarrow> lockid \<Rightarrow> ('z kproc_scheme, unit) op" where
  "sleep_loop 0 E c ch lk = bind (gets c) (\<lambda>b. if b then halt Spin else ret ())"
| "sleep_loop (Suc n) E c ch lk =
     bind (gets c) (\<lambda>b. if b then seq (sleep E ch lk) (sleep_loop n E c ch lk) else ret ())"

definition sleep_while ::
  "'z kproc_scheme env \<Rightarrow> ('z kproc_scheme \<Rightarrow> bool) \<Rightarrow> chan \<Rightarrow> lockid \<Rightarrow> ('z kproc_scheme, unit) op" where
  "sleep_while E c ch lk = sleep_loop (wakeups E) E c ch lk"

lemma sleep_while_done: "\<not> c s \<Longrightarrow> sleep_while E c ch lk s = Ok () s"
  by (cases "wakeups E") (simp_all add: sleep_while_def op_simps)

text \<open>The channel is a pointer; \<open>None\<close> is the null pointer.\<close>

definition wakeup :: "chan option \<Rightarrow> ('z kproc_scheme, unit) op" where
  "wakeup ch =
     for_each [0..<NPROC] (\<lambda>p.
       bind myproc (\<lambda>me.
       do_if (Some p \<noteq> me) (
         seq (acquire (ProcLock p)) (
         seq (modify (upd_proc p (\<lambda>q.
           if state q = SLEEPING \<and> pchan q = ch then q\<lparr>state := RUNNABLE\<rparr> else q))) (
         release (ProcLock p))))))"

section \<open>Killing\<close>

definition kill :: "int \<Rightarrow> ('z kproc_scheme, int) op" where
  "kill i =
     bind (scan [0..<NPROC] (\<lambda>p.
       seq (acquire (ProcLock p)) (
       bind (gets (\<lambda>s. pid (procs s p))) (\<lambda>k.
       if k = i then
         seq (modify (upd_proc p (\<lambda>q. q\<lparr>pkilled := 1\<rparr>))) (
         seq (modify (upd_proc p (\<lambda>q. if state q = SLEEPING then q\<lparr>state := RUNNABLE\<rparr> else q))) (
         seq (release (ProcLock p)) (
         ret (Some 0))))
       else seq (release (ProcLock p)) (ret None))))) (\<lambda>r.
     case r of Some v \<Rightarrow> ret v | None \<Rightarrow> ret (- 1))"

definition setkilled :: "nat \<Rightarrow> ('z kproc_scheme, unit) op" where
  "setkilled p =
     seq (acquire (ProcLock p)) (
     seq (modify (upd_proc p (\<lambda>q. q\<lparr>pkilled := 1\<rparr>))) (
     release (ProcLock p)))"

definition killed :: "nat \<Rightarrow> ('z kproc_scheme, int) op" where
  "killed p =
     seq (acquire (ProcLock p)) (
     bind (gets (\<lambda>s. pkilled (procs s p))) (\<lambda>k.
     seq (release (ProcLock p)) (
     ret k)))"

section \<open>Copies to and from the current process\<close>

text \<open>
  A destination is a user address or a kernel buffer.  For a kernel buffer the bytes are
  handed back to the caller, which owns the buffer.
\<close>

datatype dest = UserDst u64 | KernDst

datatype source = UserSrc u64 | KernSrc "u8 list"

definition either_copyout :: "dest \<Rightarrow> u8 list \<Rightarrow> ('z kproc_scheme, u8 list \<times> int) op" where
  "either_copyout dst src =
     bind curproc (\<lambda>p.
     case dst of
       UserDst a \<Rightarrow> bind (gets (\<lambda>s. pagetable (procs s p))) (\<lambda>pt.
         bind (copyout pt a src) (\<lambda>r. ret ([], r)))
     | KernDst \<Rightarrow> ret (src, 0))"

definition either_copyin :: "source \<Rightarrow> nat \<Rightarrow> nat \<Rightarrow> ('z kproc_scheme, u8 list \<times> int) op" where
  "either_copyin src off len =
     bind curproc (\<lambda>p.
     case src of
       UserSrc a \<Rightarrow> bind (gets (\<lambda>s. pagetable (procs s p))) (\<lambda>pt.
         copyin pt (a + of_nat off) len)
     | KernSrc bs \<Rightarrow> ret (take len (drop off bs), 0))"

section \<open>Waiting for a child\<close>

text \<open>
  One pass of \<^verbatim>\<open>wait()\<close> over the table: \<open>Inr r\<close> is a return with value
  \<open>r\<close>, \<open>Inl havekids\<close> the end of the loop.  An \<^verbatim>\<open>int\<close> is copied out as its
  four bytes.
\<close>

definition int_bytes :: "int \<Rightarrow> u8 list" where
  "int_bytes x = map (\<lambda>i. word_of_int (x div 2 ^ (8 * i))) [0..<4]"

definition wait_scan :: "nat \<Rightarrow> u64 \<Rightarrow> ('z kproc_scheme, bool + int) op" where
  "wait_scan p addr =
     loop_op [0..<NPROC] (\<lambda>pp havekids.
       bind (gets (\<lambda>s. parent (procs s pp))) (\<lambda>par.
       if par \<noteq> Some p then ret (Inl havekids)
       else
         seq (acquire (ProcLock pp)) (
         bind (gets (\<lambda>s. procs s pp)) (\<lambda>q.
         if state q = ZOMBIE then
           bind (if addr \<noteq> 0
                 then bind (gets (\<lambda>s. pagetable (procs s p))) (\<lambda>pt. copyout pt addr (int_bytes (xstate q)))
                 else ret 0) (\<lambda>r.
           if r < 0 then seq (release (ProcLock pp)) (seq (release WaitLock) (ret (Inr (- 1))))
           else seq (freeproc pp) (seq (release (ProcLock pp)) (seq (release WaitLock) (ret (Inr (pid q))))))
         else seq (release (ProcLock pp)) (ret (Inl True)))))) False"

text \<open>
  The endless loop of \<^verbatim>\<open>wait()\<close>, for at most \<open>n\<close> wakeups.
\<close>

primrec wait_loop :: "nat \<Rightarrow> 'z kproc_scheme env \<Rightarrow> nat \<Rightarrow> u64 \<Rightarrow> ('z kproc_scheme, int) op" where
  "wait_loop 0 E p addr = halt Spin"
| "wait_loop (Suc n) E p addr =
     bind (wait_scan p addr) (\<lambda>r.
     case r of
       Inr v \<Rightarrow> ret v
     | Inl havekids \<Rightarrow>
         bind (if havekids then killed p else ret 0) (\<lambda>k.
         if \<not> havekids \<or> k \<noteq> 0 then seq (release WaitLock) (ret (- 1))
         else seq (sleep E (ChanProc p) WaitLock) (wait_loop n E p addr)))"

definition wait :: "'z kproc_scheme env \<Rightarrow> u64 \<Rightarrow> ('z kproc_scheme, int) op" where
  "wait E addr =
     bind curproc (\<lambda>p.
     seq (acquire WaitLock) (
     wait_loop (Suc (wakeups E)) E p addr))"

definition reparent :: "nat \<Rightarrow> ('z kproc_scheme, unit) op" where
  "reparent p =
     for_each [0..<NPROC] (\<lambda>pp.
       bind (gets (\<lambda>s. parent (procs s pp))) (\<lambda>par.
       do_if (par = Some p) (
         bind (gets initproc) (\<lambda>ip.
         seq (modify (upd_proc pp (\<lambda>q. q\<lparr>parent := ip\<rparr>))) (
         wakeup (map_option ChanProc ip))))))"

section \<open>Process locks are transparent\<close>

definition plocks_ok :: "'z kproc_scheme \<Rightarrow> bool" where
  "plocks_ok s \<longleftrightarrow> cpu_ok s \<and> (\<forall>p < NPROC. lock_free (ProcLock p) s)"

lemma held_kproc [simp]:
  "procs (held lk s) = procs s" "nextpid (held lk s) = nextpid s" "initproc (held lk s) = initproc s"
  by (simp_all add: held_def entered_def upd_lock_def)

lemma upd_proc_held [simp]: "upd_proc p f (held lk s) = held lk (upd_proc p f s)"
  by (cases s) (simp add: upd_proc_def held_def entered_def upd_lock_def mycpu_def)

lemma upd_proc_machine [simp]:
  "cpu_ok (upd_proc p f s) = cpu_ok s" "lock_free lk (upd_proc p f s) = lock_free lk s"
  "mycpu (upd_proc p f s) = mycpu s" "plocks_ok (upd_proc p f s) = plocks_ok s"
  by (simp_all add: upd_proc_def cpu_ok_def lock_free_def mycpu_def plocks_ok_def)

lemma procs_upd_proc [simp]: "procs (upd_proc p f s) = (procs s)(p := f (procs s p))"
  by (simp add: upd_proc_def)

lemma plocks_okD: "plocks_ok s \<Longrightarrow> cpu_ok s" "plocks_ok s \<Longrightarrow> p < NPROC \<Longrightarrow> lock_free (ProcLock p) s"
  by (simp_all add: plocks_ok_def)

lemma locked_update:
  assumes "plocks_ok s" "p < NPROC"
  shows "seq (acquire (ProcLock p)) (seq (modify (upd_proc p f)) (release (ProcLock p))) s
    = Ok () (upd_proc p f s)"
  using plocks_okD [OF assms(1)] assms(2) by (simp add: op_simps acquire_ok release_ok)

lemma locked_read:
  assumes "plocks_ok s" "p < NPROC"
  shows "acquire (ProcLock p) s = Ok () (held (ProcLock p) s)" "release (ProcLock p) (held (ProcLock p) s) = Ok () s"
  using plocks_okD [OF assms(1)] assms(2) by (simp_all add: acquire_ok release_ok)

lemma myproc_ok: "cpu_ok s \<Longrightarrow> myproc s = Ok (cproc (mycpu s)) s"
  by (simp add: myproc_def op_simps push_off_ok pop_off_ok) (simp add: entered_def mycpu_def)

lemma curproc_ok: "cpu_ok s \<Longrightarrow> cproc (mycpu s) = Some p \<Longrightarrow> curproc s = Ok p s"
  by (simp add: curproc_def op_simps myproc_ok)

section \<open>wakeup and kill\<close>

text \<open>An update of every slot below \<open>NPROC\<close>.\<close>

definition map_procs :: "(nat \<Rightarrow> proc \<Rightarrow> proc) \<Rightarrow> 'z kproc_scheme \<Rightarrow> 'z kproc_scheme" where
  "map_procs f s = s\<lparr>procs := (\<lambda>p. if p < NPROC then f p (procs s p) else procs s p)\<rparr>"

lemma fold_upd_proc:
  "fold (\<lambda>p. upd_proc p (f p)) [0..<n] s = s\<lparr>procs := (\<lambda>p. if p < n then f p (procs s p) else procs s p)\<rparr>"
proof (induction n)
  case (Suc n)
  then show ?case by (simp add: upd_proc_def fun_eq_iff less_Suc_eq)
qed simp

lemma for_each_upd_proc:
  assumes "plocks_ok s" "cproc (mycpu s) = me"
    and "\<And>p t. p < NPROC \<Longrightarrow> plocks_ok t \<Longrightarrow> cproc (mycpu t) = me \<Longrightarrow> body p t = Ok () (upd_proc p (f p) t)"
  shows "for_each [0..<NPROC] body s = Ok () (map_procs f s)"
proof -
  have "for_each [0..<NPROC] body s = Ok () (fold (\<lambda>p. upd_proc p (f p)) [0..<NPROC] s)
      \<and> plocks_ok (fold (\<lambda>p. upd_proc p (f p)) [0..<NPROC] s) \<and> cproc (mycpu (fold (\<lambda>p. upd_proc p (f p)) [0..<NPROC] s)) = me"
    by (rule for_each_fold_inv [of "\<lambda>t. plocks_ok t \<and> cproc (mycpu t) = me"]) (use assms in auto)
  then show ?thesis by (simp add: fold_upd_proc map_procs_def)
qed

definition woken :: "chan option \<Rightarrow> proc \<Rightarrow> proc" where
  "woken ch q = (if state q = SLEEPING \<and> pchan q = ch then q\<lparr>state := RUNNABLE\<rparr> else q)"

lemma upd_proc_id: "f (procs s p) = procs s p \<Longrightarrow> upd_proc p f s = s"
  by (simp add: upd_proc_def fun_upd_idem)

lemma wakeup_eq:
  assumes "plocks_ok s"
  shows "wakeup ch s = Ok () (map_procs (\<lambda>p q. if Some p = cproc (mycpu s) then q else woken ch q) s)"
  unfolding wakeup_def
proof (rule for_each_upd_proc [OF assms refl])
  fix p and t :: "'a kproc_scheme"
  assume p: "p < NPROC" and t: "plocks_ok t" "cproc (mycpu t) = cproc (mycpu s)"
  have u: "(\<lambda>q. if state q = SLEEPING \<and> pchan q = ch then q\<lparr>state := RUNNABLE\<rparr> else q) = woken ch"
    by (simp add: woken_def fun_eq_iff)
  have "myproc t = Ok (cproc (mycpu s)) t" using myproc_ok plocks_okD(1) [OF t(1)] t(2) by metis
  then show "bind myproc (\<lambda>me. do_if (Some p \<noteq> me) (seq (acquire (ProcLock p)) (seq (modify (upd_proc p (\<lambda>q.
           if state q = SLEEPING \<and> pchan q = ch then q\<lparr>state := RUNNABLE\<rparr> else q))) (release (ProcLock p))))) t =
      Ok () (upd_proc p (\<lambda>q. if Some p = cproc (mycpu s) then q else woken ch q) t)"
    using locked_update [OF t(1) p] by (simp add: bind_apply do_if_apply u upd_proc_id)
qed

end
