(* ===== verification/Xv6_Uart.thy ===== *)
theory Xv6_Uart
  imports Xv6_Proc
begin

text \<open>
  \<^verbatim>\<open>kernel/uart.c\<close>: the serial line.  The devices are not part of the sources: all
  accesses to memory-mapped registers are recorded in \<open>mmio_log\<close> (latest first), and the
  field \<open>device\<close>, which no operation changes, gives what a register reads after a history
  of accesses.  A busy wait on a register is given up after \<open>polls\<close> reads (\<open>Spin\<close>).

  The transmit buffer is a ring of 32 bytes indexed by two 64-bit counters.
\<close>

section \<open>State\<close>

datatype mmio_event = MRead u64 | MWrite u64 u32

record kuart = kproc +
  device :: "mmio_event list \<Rightarrow> u64 \<Rightarrow> u32"
  mmio_log :: "mmio_event list"
  polls :: nat
  uart_tx_buf :: "nat \<Rightarrow> u8"
  uart_tx_w :: u64
  uart_tx_r :: u64
  panicked :: bool

definition mmio_read :: "u64 \<Rightarrow> ('z kuart_scheme, u32) op" where
  "mmio_read a s = Ok (device s (mmio_log s) a) (s\<lparr>mmio_log := MRead a # mmio_log s\<rparr>)"

definition mmio_write :: "u64 \<Rightarrow> u32 \<Rightarrow> ('z kuart_scheme, unit) op" where
  "mmio_write a v = modify (\<lambda>s. s\<lparr>mmio_log := MWrite a v # mmio_log s\<rparr>)"

section \<open>Registers\<close>

definition RHR :: u64 where "RHR = 0"
definition THR :: u64 where "THR = 0"
definition IER :: u64 where "IER = 1"
definition IER_RX_ENABLE :: u8 where "IER_RX_ENABLE = push_bit 0 1"
definition IER_TX_ENABLE :: u8 where "IER_TX_ENABLE = push_bit 1 1"
definition FCR :: u64 where "FCR = 2"
definition FCR_FIFO_ENABLE :: u8 where "FCR_FIFO_ENABLE = push_bit 0 1"
definition FCR_FIFO_CLEAR :: u8 where "FCR_FIFO_CLEAR = push_bit 1 3"
definition LCR :: u64 where "LCR = 3"
definition LCR_EIGHT_BITS :: u8 where "LCR_EIGHT_BITS = push_bit 0 3"
definition LCR_BAUD_LATCH :: u8 where "LCR_BAUD_LATCH = push_bit 7 1"
definition LSR :: u64 where "LSR = 5"
definition LSR_TX_IDLE :: u8 where "LSR_TX_IDLE = push_bit 5 1"
definition UART_TX_BUF_SIZE :: nat where "UART_TX_BUF_SIZE = 32"

definition ReadReg :: "u64 \<Rightarrow> ('z kuart_scheme, u8) op" where
  "ReadReg r = bind (mmio_read (UART0 + r)) (\<lambda>v. ret (ucast v))"

definition WriteReg :: "u64 \<Rightarrow> u8 \<Rightarrow> ('z kuart_scheme, unit) op" where
  "WriteReg r v = mmio_write (UART0 + r) (ucast v)"

section \<open>Operations\<close>

definition uartinit :: "('z kuart_scheme, unit) op" where
  "uartinit =
     seq (WriteReg IER 0x00) (
     seq (WriteReg LCR LCR_BAUD_LATCH) (
     seq (WriteReg 0 0x03) (
     seq (WriteReg 1 0x00) (
     seq (WriteReg LCR LCR_EIGHT_BITS) (
     seq (WriteReg FCR (FCR_FIFO_ENABLE OR FCR_FIFO_CLEAR)) (
     seq (WriteReg IER (IER_TX_ENABLE OR IER_RX_ENABLE)) (
     initlock UartTxLock ''uart'')))))))"

text \<open>The accesses to the ring: is it full, store a byte, the next byte, take it off.\<close>

definition uart_full :: "'z kuart_scheme \<Rightarrow> bool" where
  "uart_full s \<longleftrightarrow> uart_tx_w s = uart_tx_r s + of_nat UART_TX_BUF_SIZE"

definition uart_put :: "u8 \<Rightarrow> 'z kuart_scheme \<Rightarrow> 'z kuart_scheme" where
  "uart_put c s = s\<lparr>uart_tx_buf := (uart_tx_buf s)(unat (uart_tx_w s mod of_nat UART_TX_BUF_SIZE) := c),
     uart_tx_w := uart_tx_w s + 1\<rparr>"

definition uart_peek :: "'z kuart_scheme \<Rightarrow> u8" where
  "uart_peek s = uart_tx_buf s (unat (uart_tx_r s mod of_nat UART_TX_BUF_SIZE))"

definition uart_advance :: "'z kuart_scheme \<Rightarrow> 'z kuart_scheme" where
  "uart_advance s = s\<lparr>uart_tx_r := uart_tx_r s + 1\<rparr>"

text \<open>
  The loop of \<^verbatim>\<open>uartstart()\<close> sends at most the bytes that are in the ring, whose
  number is the difference of the counters.
\<close>

primrec uartstart_loop :: "nat \<Rightarrow> ('z kuart_scheme, unit) op" where
  "uartstart_loop 0 = ret ()"
| "uartstart_loop (Suc n) =
     bind (ReadReg LSR) (\<lambda>lsr.
     if lsr AND LSR_TX_IDLE = 0 then ret ()
     else bind (gets uart_peek) (\<lambda>c.
       seq (modify uart_advance) (
       seq (wakeup (Some ChanUartTxR)) (
       seq (WriteReg THR c) (
       uartstart_loop n)))))"

definition uartstart :: "('z kuart_scheme, unit) op" where
  "uartstart = bind (gets (\<lambda>s. unat (uart_tx_w s - uart_tx_r s))) uartstart_loop"

definition uartputc :: "'z kuart_scheme env \<Rightarrow> u8 \<Rightarrow> ('z kuart_scheme, unit) op" where
  "uartputc E c =
     seq (acquire UartTxLock) (
     seq (bind (gets panicked) (\<lambda>b. do_if b (halt Spin))) (
     seq (sleep_while E uart_full ChanUartTxR UartTxLock) (
     seq (modify (uart_put c)) (
     seq uartstart (
     release UartTxLock)))))"

primrec wait_tx_idle :: "nat \<Rightarrow> ('z kuart_scheme, unit) op" where
  "wait_tx_idle 0 = halt Spin"
| "wait_tx_idle (Suc n) =
     bind (ReadReg LSR) (\<lambda>lsr. if lsr AND LSR_TX_IDLE = 0 then wait_tx_idle n else ret ())"

text \<open>The argument is an \<^verbatim>\<open>int\<close>; the register takes its low byte.\<close>

definition uartputc_sync :: "int \<Rightarrow> ('z kuart_scheme, unit) op" where
  "uartputc_sync c =
     seq push_off (
     seq (bind (gets panicked) (\<lambda>b. do_if b (halt Spin))) (
     seq (bind (gets polls) wait_tx_idle) (
     seq (WriteReg THR (word_of_int c)) (
     pop_off))))"

definition uartgetc :: "('z kuart_scheme, int) op" where
  "uartgetc =
     bind (ReadReg LSR) (\<lambda>lsr.
     if lsr AND 0x01 \<noteq> 0 then bind (ReadReg RHR) (\<lambda>c. ret (uint c)) else ret (- 1))"

end
