(* ===== verification/Xv6_Console.thy ===== *)
theory Xv6_Console
  imports Xv6_Uart
begin

text \<open>
  \<^verbatim>\<open>kernel/console.c\<close>, \<^verbatim>\<open>kernel/printf.c\<close>, \<^verbatim>\<open>procdump\<close> of
  \<^verbatim>\<open>kernel/proc.c\<close>, \<^verbatim>\<open>uartintr\<close> of \<^verbatim>\<open>kernel/uart.c\<close> and
  \<^verbatim>\<open>kernel/plic.c\<close>: formatted output, the line discipline of the console input
  and the interrupt controller.

  Console input is a ring of 128 bytes with three 32-bit indices: bytes between \<open>r\<close> and
  \<open>w\<close> are complete lines a reader may take, bytes between \<open>w\<close> and \<open>e\<close> are being
  edited.  The device switch holds names of driver functions instead of function pointers.
\<close>

section \<open>State\<close>

datatype devfn = Consoleread | Consolewrite

record devsw_entry =
  dread :: "devfn option"
  dwrite :: "devfn option"

record kcons = kuart +
  pr_locking :: bool
  cons_buf :: "nat \<Rightarrow> u8"
  cons_r :: u32
  cons_w :: u32
  cons_e :: u32
  devsw :: "nat \<Rightarrow> devsw_entry"

definition CONSOLE :: nat where "CONSOLE = 1"
definition BACKSPACE :: int where "BACKSPACE = 0x100"
definition INPUT_BUF_SIZE :: nat where "INPUT_BUF_SIZE = 128"

definition Ctrl :: "char \<Rightarrow> int" where "Ctrl x = of_char x - of_char (CHR ''@'')"

abbreviation LF :: char where "LF \<equiv> CHR 0x0A"

section \<open>Formatted output\<close>

definition consputc :: "int \<Rightarrow> ('z kuart_scheme, unit) op" where
  "consputc c =
     (if c = BACKSPACE
      then seq (uartputc_sync 8) (seq (uartputc_sync 32) (uartputc_sync 8))
      else uartputc_sync c)"

definition digits :: string where "digits = ''0123456789abcdef''"

text \<open>
  The digits of \<open>x\<close>, least significant first: the \<^verbatim>\<open>do ... while\<close> loop.  A base
  below 2 is no base; the kernel passes 10 and 16.
\<close>

function digits_rev :: "nat \<Rightarrow> nat \<Rightarrow> nat list" where
  "digits_rev x base =
     (if base < 2 then []
      else x mod base # (if x div base = 0 then [] else digits_rev (x div base) base))"
  by pat_completeness auto

termination
proof (relation "measure fst")
  fix x base :: nat
  assume "\<not> base < 2" "x div base \<noteq> 0"
  then have "x div base < x" by (cases "x = 0") simp_all
  then show "((x div base, base), x, base) \<in> measure fst" by simp
qed simp

declare digits_rev.simps [simp del]

definition printint_chars :: "int \<Rightarrow> nat \<Rightarrow> bool \<Rightarrow> string" where
  "printint_chars xx base sign =
     (let neg = sign \<and> xx < 0;
          x = (word_of_int (if neg then - xx else xx) :: u32);
          buf = map (\<lambda>d. digits ! d) (digits_rev (unat x) base) @ (if neg then ''-'' else [])
      in rev buf)"

definition puts :: "string \<Rightarrow> ('z kuart_scheme, unit) op" where
  "puts cs = for_each cs (\<lambda>c. consputc (of_char c))"

definition printint :: "int \<Rightarrow> nat \<Rightarrow> bool \<Rightarrow> ('z kuart_scheme, unit) op" where
  "printint xx base sign = puts (printint_chars xx base sign)"

definition printptr :: "u64 \<Rightarrow> ('z kuart_scheme, unit) op" where
  "printptr x =
     seq (consputc (of_char (CHR ''0''))) (
     seq (consputc (of_char (CHR ''x''))) (
     for_each [0..<16] (\<lambda>i. consputc (of_char (digits ! unat (drop_bit 60 (push_bit (4 * i) x)))))))"

text \<open>
  The variable arguments of \<^verbatim>\<open>printf\<close>.  Fetching an argument of another type than
  was passed, or one that was not passed, has no meaning in C.
\<close>

datatype parg = PInt int | PPtr u64 | PStr "string option"

fun printf_loop :: "string \<Rightarrow> parg list \<Rightarrow> ('z kuart_scheme, unit) op" where
  "printf_loop [] args = ret ()"
| "printf_loop [c] args = (if c = CHR ''%'' then ret () else consputc (of_char c))"
| "printf_loop (c # d # fmt) args =
     (if c \<noteq> CHR ''%'' then seq (consputc (of_char c)) (printf_loop (d # fmt) args)
      else if d = CHR ''d'' then
        (case args of PInt x # as \<Rightarrow> seq (printint x 10 True) (printf_loop fmt as) | _ \<Rightarrow> fault ''va_arg'')
      else if d = CHR ''x'' then
        (case args of PInt x # as \<Rightarrow> seq (printint x 16 True) (printf_loop fmt as) | _ \<Rightarrow> fault ''va_arg'')
      else if d = CHR ''p'' then
        (case args of PPtr x # as \<Rightarrow> seq (printptr x) (printf_loop fmt as) | _ \<Rightarrow> fault ''va_arg'')
      else if d = CHR ''s'' then
        (case args of
           PStr s # as \<Rightarrow> seq (puts (case s of None \<Rightarrow> ''(null)'' | Some cs \<Rightarrow> cs)) (printf_loop fmt as)
         | _ \<Rightarrow> fault ''va_arg'')
      else if d = CHR ''%'' then seq (consputc (of_char (CHR ''%''))) (printf_loop fmt args)
      else seq (consputc (of_char (CHR ''%''))) (seq (consputc (of_char d)) (printf_loop fmt args)))"

definition printf :: "string \<Rightarrow> parg list \<Rightarrow> ('z kcons_scheme, unit) op" where
  "printf fmt args =
     bind (gets pr_locking) (\<lambda>locking.
     seq (do_if locking (acquire PrLock)) (
     seq (printf_loop fmt args) (
     do_if locking (release PrLock))))"

text \<open>
  \<^verbatim>\<open>panic()\<close> with its effect on the console; the other components only record that
  control does not come back.
\<close>

definition panic_print :: "string \<Rightarrow> ('z kcons_scheme, unit) op" where
  "panic_print msg =
     seq (modify (\<lambda>s. s\<lparr>pr_locking := False\<rparr>)) (
     seq (printf ''panic: '' []) (
     seq (printf msg []) (
     seq (printf [LF] []) (
     seq (modify (\<lambda>s. s\<lparr>panicked := True\<rparr>)) (
     panic msg)))))"

definition printfinit :: "('z kcons_scheme, unit) op" where
  "printfinit = seq (initlock PrLock ''pr'') (modify (\<lambda>s. s\<lparr>pr_locking := True\<rparr>))"

fun state_name :: "procstate \<Rightarrow> string" where
  "state_name UNUSED = ''unused''"
| "state_name USED = ''used''"
| "state_name SLEEPING = ''sleep ''"
| "state_name RUNNABLE = ''runble''"
| "state_name RUNNING = ''run   ''"
| "state_name ZOMBIE = ''zombie''"

definition procdump :: "('z kcons_scheme, unit) op" where
  "procdump =
     seq (printf [LF] []) (
     for_each [0..<NPROC] (\<lambda>p.
       bind (gets (\<lambda>s. procs s p)) (\<lambda>q.
       if state q = UNUSED then ret ()
       else seq (printf ''%d %s %s'' [PInt (pid q), PStr (Some (state_name (state q))), PStr (Some (pname q))]) (
            printf [LF] []))))"

section \<open>Reads and writes of the console device\<close>

definition consolewrite :: "'z kcons_scheme env \<Rightarrow> source \<Rightarrow> int \<Rightarrow> ('z kcons_scheme, int) op" where
  "consolewrite E src n =
     bind (loop_op [0..<nat n] (\<lambda>i k.
       bind (either_copyin src i 1) (\<lambda>(bs, r).
       if r = - 1 then ret (Inr k)
       else seq (uartputc E (hd bs)) (ret (Inl (k + 1))))) 0) (\<lambda>r.
     case r of Inl k \<Rightarrow> ret k | Inr k \<Rightarrow> ret k)"

text \<open>
  The wait for input: \<open>False\<close> is the return of -1 because the process was killed.
\<close>

primrec cons_wait :: "nat \<Rightarrow> 'z kcons_scheme env \<Rightarrow> ('z kcons_scheme, bool) op" where
  "cons_wait 0 E = bind (gets (\<lambda>s. cons_r s = cons_w s)) (\<lambda>b. if b then halt Spin else ret True)"
| "cons_wait (Suc n) E =
     bind (gets (\<lambda>s. cons_r s = cons_w s)) (\<lambda>empty.
     if \<not> empty then ret True
     else bind curproc (\<lambda>p.
       bind (killed p) (\<lambda>k.
       if k \<noteq> 0 then ret False
       else seq (sleep E ChanConsR ConsLock) (cons_wait n E))))"

definition dst_plus :: "dest \<Rightarrow> u64 \<Rightarrow> dest" where
  "dst_plus dst k = (case dst of UserDst a \<Rightarrow> UserDst (a + k) | KernDst \<Rightarrow> KernDst)"

text \<open>
  The loop of \<^verbatim>\<open>consoleread\<close> with \<open>n\<close> bytes still wanted; \<open>None\<close> is a
  killed reader, otherwise the bytes for a kernel destination and the \<open>n\<close> that is left.
\<close>

primrec consoleread_loop ::
  "nat \<Rightarrow> 'z kcons_scheme env \<Rightarrow> dest \<Rightarrow> nat \<Rightarrow> ('z kcons_scheme, (u8 list \<times> nat) option) op" where
  "consoleread_loop 0 E dst target = ret (Some ([], 0))"
| "consoleread_loop (Suc n) E dst target =
     bind (cons_wait (wakeups E) E) (\<lambda>avail.
     if \<not> avail then ret None
     else bind (gets (\<lambda>s. cons_buf s (unat (cons_r s mod of_nat INPUT_BUF_SIZE)))) (\<lambda>c.
       seq (modify (\<lambda>s. s\<lparr>cons_r := cons_r s + 1\<rparr>)) (
       if uint c = Ctrl (CHR ''D'') then
         seq (do_if (Suc n < target) (modify (\<lambda>s. s\<lparr>cons_r := cons_r s - 1\<rparr>))) (
         ret (Some ([], Suc n)))
       else bind (either_copyout dst [c]) (\<lambda>(bs, r).
         if r = - 1 then ret (Some ([], Suc n))
         else if uint c = of_char LF then ret (Some (bs, n))
         else bind (consoleread_loop n E (dst_plus dst 1) target) (\<lambda>res.
           case res of None \<Rightarrow> ret None | Some (rest, left) \<Rightarrow> ret (Some (bs @ rest, left)))))))"

definition consoleread :: "'z kcons_scheme env \<Rightarrow> dest \<Rightarrow> int \<Rightarrow> ('z kcons_scheme, u8 list \<times> int) op" where
  "consoleread E dst n =
     seq (acquire ConsLock) (
     bind (consoleread_loop (nat n) E dst (nat n)) (\<lambda>res.
     case res of
       None \<Rightarrow> seq (release ConsLock) (ret ([], - 1))
     | Some (bs, left) \<Rightarrow> seq (release ConsLock) (ret (bs, int (nat n) - int left))))"

section \<open>Input interrupts\<close>

text \<open>The loop for control-U ends at the latest when \<open>e\<close> has come down to \<open>w\<close>.\<close>

primrec kill_line :: "nat \<Rightarrow> ('z kcons_scheme, unit) op" where
  "kill_line 0 = ret ()"
| "kill_line (Suc n) =
     bind (gets (\<lambda>s. cons_buf s (unat ((cons_e s - 1) mod of_nat INPUT_BUF_SIZE)))) (\<lambda>c.
     if uint c = of_char LF then ret ()
     else seq (modify (\<lambda>s. s\<lparr>cons_e := cons_e s - 1\<rparr>)) (
          seq (consputc BACKSPACE) (
          kill_line n)))"

definition consoleintr_switch :: "int \<Rightarrow> ('z kcons_scheme, unit) op" where
  "consoleintr_switch c =
     (if c = Ctrl (CHR ''P'') then procdump
      else if c = Ctrl (CHR ''U'') then bind (gets (\<lambda>s. unat (cons_e s - cons_w s))) kill_line
      else if c = Ctrl (CHR ''H'') \<or> c = 0x7f then
        bind (gets (\<lambda>s. cons_e s \<noteq> cons_w s)) (\<lambda>b.
        do_if b (seq (modify (\<lambda>s. s\<lparr>cons_e := cons_e s - 1\<rparr>)) (consputc BACKSPACE)))
      else
        bind (gets (\<lambda>s. cons_e s - cons_r s < of_nat INPUT_BUF_SIZE)) (\<lambda>room.
        do_if (c \<noteq> 0 \<and> room) (
          let c = (if c = 13 then of_char LF else c) in
          seq (consputc c) (
          seq (modify (\<lambda>s. s\<lparr>cons_buf := (cons_buf s)(unat (cons_e s mod of_nat INPUT_BUF_SIZE) := word_of_int c)\<rparr>)) (
          seq (modify (\<lambda>s. s\<lparr>cons_e := cons_e s + 1\<rparr>)) (
          bind (gets (\<lambda>s. c = of_char LF \<or> c = Ctrl (CHR ''D'') \<or> cons_e s - cons_r s = of_nat INPUT_BUF_SIZE)) (\<lambda>b.
          do_if b (
            seq (modify (\<lambda>s. s\<lparr>cons_w := cons_e s\<rparr>)) (
            wakeup (Some ChanConsR))))))))))"

definition consoleintr :: "int \<Rightarrow> ('z kcons_scheme, unit) op" where
  "consoleintr c =
     seq (acquire ConsLock) (
     seq (consoleintr_switch c) (
     release ConsLock))"

definition consoleinit :: "('z kcons_scheme, unit) op" where
  "consoleinit =
     seq (initlock ConsLock ''cons'') (
     seq uartinit (
     modify (\<lambda>s. s\<lparr>devsw := (devsw s)(CONSOLE := \<lparr>dread = Some Consoleread, dwrite = Some Consolewrite\<rparr>)\<rparr>)))"

text \<open>The interrupt handler of the UART, for at most \<open>polls\<close> waiting characters.\<close>

primrec uartintr_loop :: "nat \<Rightarrow> ('z kcons_scheme, unit) op" where
  "uartintr_loop 0 = halt Spin"
| "uartintr_loop (Suc n) =
     bind uartgetc (\<lambda>c. if c = - 1 then ret () else seq (consoleintr c) (uartintr_loop n))"

definition uartintr :: "('z kcons_scheme, unit) op" where
  "uartintr =
     seq (bind (gets polls) uartintr_loop) (
     seq (acquire UartTxLock) (
     seq uartstart (
     release UartTxLock)))"

section \<open>The interrupt controller\<close>

definition UART0_IRQ :: nat where "UART0_IRQ = 10"
definition VIRTIO0_IRQ :: nat where "VIRTIO0_IRQ = 1"

definition PLIC_SENABLE :: "nat \<Rightarrow> u64" where "PLIC_SENABLE hart = PLIC + 0x2080 + of_nat hart * 0x100"
definition PLIC_SPRIORITY :: "nat \<Rightarrow> u64" where "PLIC_SPRIORITY hart = PLIC + 0x201000 + of_nat hart * 0x2000"
definition PLIC_SCLAIM :: "nat \<Rightarrow> u64" where "PLIC_SCLAIM hart = PLIC + 0x201004 + of_nat hart * 0x2000"

definition plicinit :: "('z kuart_scheme, unit) op" where
  "plicinit =
     seq (mmio_write (PLIC + of_nat (UART0_IRQ * 4)) 1) (
     mmio_write (PLIC + of_nat (VIRTIO0_IRQ * 4)) 1)"

definition plicinithart :: "('z kuart_scheme, unit) op" where
  "plicinithart =
     bind cpuid (\<lambda>hart.
     seq (mmio_write (PLIC_SENABLE hart) (push_bit UART0_IRQ 1 OR push_bit VIRTIO0_IRQ 1)) (
     mmio_write (PLIC_SPRIORITY hart) 0))"

definition plic_claim :: "('z kuart_scheme, int) op" where
  "plic_claim = bind cpuid (\<lambda>hart. bind (mmio_read (PLIC_SCLAIM hart)) (\<lambda>irq. ret (sint irq)))"

definition plic_complete :: "int \<Rightarrow> ('z kuart_scheme, unit) op" where
  "plic_complete irq = bind cpuid (\<lambda>hart. mmio_write (PLIC_SCLAIM hart) (word_of_int irq))"

end
