(* ===== verification/Xv6_Bytes.thy ===== *)
theory Xv6_Bytes
  imports Xv6_Layout
begin

text \<open>
  Structures in byte arrays: little-endian 16- and 32-bit fields, the string routines on the
  byte lists that stand for kernel buffers, and the on-disk structures of
  \<^verbatim>\<open>kernel/fs.h\<close> (super block, inode, directory entry) with their encodings.
  A \<^verbatim>\<open>short\<close> is a \<open>16 word\<close>, read with \<open>sint\<close> where its sign matters.
\<close>

section \<open>Fields\<close>

definition le16 :: "u16 \<Rightarrow> u8 list" where
  "le16 v = [ucast v, ucast (drop_bit 8 v)]"

definition le32 :: "u32 \<Rightarrow> u8 list" where
  "le32 v = [ucast v, ucast (drop_bit 8 v), ucast (drop_bit 16 v), ucast (drop_bit 24 v)]"

definition get16 :: "u8 list \<Rightarrow> nat \<Rightarrow> u16" where
  "get16 bs off = ucast (bs ! off) OR push_bit 8 (ucast (bs ! (off + 1)))"

definition get32 :: "u8 list \<Rightarrow> nat \<Rightarrow> u32" where
  "get32 bs off = ucast (bs ! off) OR push_bit 8 (ucast (bs ! (off + 1)))
     OR push_bit 16 (ucast (bs ! (off + 2))) OR push_bit 24 (ucast (bs ! (off + 3)))"

definition put_bytes :: "u8 list \<Rightarrow> nat \<Rightarrow> u8 list \<Rightarrow> u8 list" where
  "put_bytes bs off xs = take off bs @ xs @ drop (off + length xs) bs"

lemma length_le [simp]: "length (le16 v) = 2" "length (le32 w) = 4"
  by (simp_all add: le16_def le32_def)

lemma length_put_bytes [simp]: "off + length xs \<le> length bs \<Longrightarrow> length (put_bytes bs off xs) = length bs"
  by (simp add: put_bytes_def)

lemma nth_put_bytes:
  "off + length xs \<le> length bs \<Longrightarrow> i < length bs \<Longrightarrow>
     put_bytes bs off xs ! i = (if off \<le> i \<and> i < off + length xs then xs ! (i - off) else bs ! i)"
  by (auto simp: put_bytes_def nth_append min_def)

lemma get16_le16: "get16 (xs @ le16 v @ ys) (length xs) = v"
  by (simp add: get16_def le16_def nth_append) (rule bit_word_eqI, auto simp: bit_simps)

lemma le32_join:
  "ucast (ucast v :: u8) OR push_bit 8 (ucast (ucast (drop_bit 8 v) :: u8))
     OR push_bit 16 (ucast (ucast (drop_bit 16 v) :: u8)) OR push_bit 24 (ucast (ucast (drop_bit 24 v) :: u8))
   = (v :: u32)"
proof (rule bit_word_eqI)
  fix n assume "n < LENGTH(32)"
  then consider "n < 8" | "8 \<le> n" "n < 16" | "16 \<le> n" "n < 24" | "24 \<le> n" "n < 32" by fastforce
  then show "bit (ucast (ucast v :: u8) OR push_bit 8 (ucast (ucast (drop_bit 8 v) :: u8))
     OR push_bit 16 (ucast (ucast (drop_bit 16 v) :: u8))
     OR push_bit 24 (ucast (ucast (drop_bit 24 v) :: u8)) :: u32) n = bit v n"
    by cases (auto simp: bit_simps)
qed

lemma get32_le32: "get32 (xs @ le32 v @ ys) (length xs) = v"
  by (simp add: get32_def le32_def nth_append le32_join)

lemma get16_put: "off + 2 \<le> length bs \<Longrightarrow> get16 (put_bytes bs off (le16 v)) off = v"
  using get16_le16 [of "take off bs" v] by (simp add: put_bytes_def)

lemma get32_put: "off + 4 \<le> length bs \<Longrightarrow> get32 (put_bytes bs off (le32 v)) off = v"
  using get32_le32 [of "take off bs" v] by (simp add: put_bytes_def)

lemma get_put_other:
  assumes "off + length xs \<le> length bs" "k + 4 \<le> off \<or> off + length xs \<le> k" "k + 4 \<le> length bs"
  shows "get32 (put_bytes bs off xs) k = get32 bs k"
proof -
  have "put_bytes bs off xs ! (k + i) = bs ! (k + i)" if "i < 4" for i
    using assms that by (subst nth_put_bytes) auto
  from this [of 0] this [of 1] this [of 2] this [of 3] show ?thesis by (simp add: get32_def)
qed

section \<open>Strings in byte lists\<close>

text \<open>A C string is the list of its bytes; past the end of the list stands the terminator.\<close>

definition first_byte :: "u8 list \<Rightarrow> u8" where
  "first_byte bs = (case bs of [] \<Rightarrow> 0 | b # _ \<Rightarrow> b)"

primrec strncmp_b :: "u8 list \<Rightarrow> u8 list \<Rightarrow> nat \<Rightarrow> int" where
  "strncmp_b p q 0 = 0"
| "strncmp_b p q (Suc n) =
     (if first_byte p \<noteq> 0 \<and> first_byte p = first_byte q then strncmp_b (tl p) (tl q) n
      else uint (first_byte p) - uint (first_byte q))"

primrec strncpy_b :: "u8 list \<Rightarrow> nat \<Rightarrow> u8 list" where
  "strncpy_b t 0 = []"
| "strncpy_b t (Suc n) =
     (if first_byte t \<noteq> 0 then first_byte t # strncpy_b (tl t) n else replicate (Suc n) 0)"

lemma length_strncpy_b [simp]: "length (strncpy_b t n) = n"
  by (induction n arbitrary: t) simp_all

text \<open>The string in a buffer: its bytes up to the first NUL.\<close>

definition cstring :: "u8 list \<Rightarrow> u8 list" where
  "cstring bs = takeWhile (\<lambda>b. b \<noteq> 0) bs"

lemma strncmp_b_eq_0: "strncmp_b p q n = 0 \<longleftrightarrow> take n (cstring p) = take n (cstring q)"
proof (induction n arbitrary: p q)
  case (Suc n)
  show ?case
  proof (cases p)
    case Nil
    then show ?thesis by (cases q) (simp_all add: first_byte_def cstring_def uint_0_iff)
  next
    case (Cons a p')
    then show ?thesis using Suc [of p' "tl q"]
      by (cases q) (auto simp: first_byte_def cstring_def uint_0_iff dest: word_uint_eqI)
  qed
qed simp

lemma cstring_strncpy_b: "cstring (strncpy_b t n) = take n (cstring t)"
proof (induction n arbitrary: t)
  case (Suc n)
  then show ?case by (cases t) (simp_all add: first_byte_def cstring_def)
qed (simp add: cstring_def)

section \<open>On-disk structures (fs.h)\<close>

definition BSIZE :: nat where "BSIZE = 1024"
definition ROOTINO :: u32 where "ROOTINO = 1"
definition FSMAGIC :: u32 where "FSMAGIC = 0x10203040"
definition NDIRECT :: nat where "NDIRECT = 12"
definition NINDIRECT :: nat where "NINDIRECT = BSIZE div 4"
definition MAXFILE :: nat where "MAXFILE = NDIRECT + NINDIRECT"
definition BPB :: nat where "BPB = BSIZE * 8"
definition DIRSIZ :: nat where "DIRSIZ = 14"

definition T_DIR :: u16 where "T_DIR = 1"
definition T_FILE :: u16 where "T_FILE = 2"
definition T_DEVICE :: u16 where "T_DEVICE = 3"

record superblock =
  sb_magic :: u32
  sb_size :: u32
  sb_nblocks :: u32
  sb_ninodes :: u32
  sb_nlog :: u32
  sb_logstart :: u32
  sb_inodestart :: u32
  sb_bmapstart :: u32

definition superblock_bytes :: "superblock \<Rightarrow> u8 list" where
  "superblock_bytes x = le32 (sb_magic x) @ le32 (sb_size x) @ le32 (sb_nblocks x) @ le32 (sb_ninodes x)
     @ le32 (sb_nlog x) @ le32 (sb_logstart x) @ le32 (sb_inodestart x) @ le32 (sb_bmapstart x)"

definition superblock_at :: "u8 list \<Rightarrow> superblock" where
  "superblock_at bs = \<lparr>sb_magic = get32 bs 0, sb_size = get32 bs 4, sb_nblocks = get32 bs 8,
     sb_ninodes = get32 bs 12, sb_nlog = get32 bs 16, sb_logstart = get32 bs 20,
     sb_inodestart = get32 bs 24, sb_bmapstart = get32 bs 28\<rparr>"

record dinode =
  di_type :: u16
  di_major :: u16
  di_minor :: u16
  di_nlink :: u16
  di_size :: u32
  di_addrs :: "u32 list"

definition dinode_size :: nat where "dinode_size = 64"

definition IPB :: nat where "IPB = BSIZE div dinode_size"

definition IBLOCK :: "u32 \<Rightarrow> superblock \<Rightarrow> u32" where
  "IBLOCK i x = i div of_nat IPB + sb_inodestart x"

definition BBLOCK :: "u32 \<Rightarrow> superblock \<Rightarrow> u32" where
  "BBLOCK b x = b div of_nat BPB + sb_bmapstart x"

definition dinode_bytes :: "dinode \<Rightarrow> u8 list" where
  "dinode_bytes d = le16 (di_type d) @ le16 (di_major d) @ le16 (di_minor d) @ le16 (di_nlink d)
     @ le32 (di_size d) @ concat (map le32 (di_addrs d))"

definition dinode_at :: "u8 list \<Rightarrow> nat \<Rightarrow> dinode" where
  "dinode_at bs off = \<lparr>di_type = get16 bs off, di_major = get16 bs (off + 2), di_minor = get16 bs (off + 4),
     di_nlink = get16 bs (off + 6), di_size = get32 bs (off + 8),
     di_addrs = map (\<lambda>i. get32 bs (off + 12 + 4 * i)) [0..<NDIRECT + 1]\<rparr>"

record dirent =
  de_inum :: u16
  de_name :: "u8 list"

definition dirent_size :: nat where "dirent_size = 16"

definition dirent_bytes :: "dirent \<Rightarrow> u8 list" where
  "dirent_bytes e = le16 (de_inum e) @ de_name e"

definition dirent_of :: "u8 list \<Rightarrow> dirent" where
  "dirent_of bs = \<lparr>de_inum = get16 bs 0, de_name = take DIRSIZ (drop 2 bs)\<rparr>"

lemmas fs_consts = BSIZE_def ROOTINO_def NDIRECT_def NINDIRECT_def MAXFILE_def BPB_def DIRSIZ_def
  dinode_size_def IPB_def dirent_size_def

text \<open>Reading field by field from a concatenation of encoded fields.\<close>

lemma get16_append: "length xs = k \<Longrightarrow> get16 (xs @ ys) (k + off) = get16 ys off"
  by (simp add: get16_def nth_append)

lemma get32_append: "length xs = k \<Longrightarrow> get32 (xs @ ys) (k + off) = get32 ys off"
  by (simp add: get32_def nth_append)

lemma get_le_here [simp]: "get16 (le16 v @ ys) 0 = v" "get32 (le32 w @ ys) 0 = w"
  using get16_le16 [of "[]"] get32_le32 [of "[]"] by simp_all

lemma get32_concat: "i < length vs \<Longrightarrow> get32 (concat (map le32 vs) @ ys) (4 * i) = vs ! i"
proof (induction vs arbitrary: i)
  case (Cons v vs)
  then show ?case
    using get32_append [of "le32 v" 4 "concat (map le32 vs) @ ys"] by (cases i) simp_all
qed simp

lemma length_concat_le32 [simp]: "length (concat (map le32 vs)) = 4 * length vs"
  by (induction vs) simp_all

lemma superblock_roundtrip: "superblock_at (superblock_bytes x @ ys) = x"
proof -
  have s: "get32 (le32 v @ zs) (4 + off) = get32 zs off" for v zs off
    by (rule get32_append) simp
  show ?thesis
    using s [of _ _ 0] s [of _ _ 4] s [of _ _ 8] s [of _ _ 12] s [of _ _ 16] s [of _ _ 20] s [of _ _ 24]
    by (simp add: superblock_at_def superblock_bytes_def)
qed

lemma dinode_at_shift: "length xs = off \<Longrightarrow> dinode_at (xs @ ys) off = dinode_at ys 0"
  using get16_append [of xs off ys] get32_append [of xs off ys] get16_append [of xs off ys 0] get16_append [of xs off ys 2]
  by (simp add: dinode_at_def add.assoc numeral_2_eq_2)

lemma dinode_roundtrip0:
  assumes "length (di_addrs d) = NDIRECT + 1"
  shows "dinode_at (dinode_bytes d @ ys) 0 = d"
proof -
  have s: "get16 (le16 v @ zs) 2 = get16 zs 0" "get16 (le16 v @ le16 w @ zs) 4 = get16 zs 0"
    "get16 (le16 v @ le16 w @ le16 x @ zs) 6 = get16 zs 0" for v w x zs
    using get16_append [of "le16 v" 2 zs 0] get16_append [of "le16 v @ le16 w" 4 zs 0]
      get16_append [of "le16 v @ le16 w @ le16 x" 6 zs 0] by simp_all
  have h: "get32 (le16 a @ le16 b @ le16 c @ le16 e @ zs) (8 + off) = get32 zs off" for a b c e zs off
    using get32_append [of "le16 a @ le16 b @ le16 c @ le16 e" 8 zs off] by simp
  have h12: "get32 (le16 a @ le16 b @ le16 c @ le16 e @ le32 f @ zs) (12 + off) = get32 zs off" for a b c e f zs off
    using get32_append [of "le16 a @ le16 b @ le16 c @ le16 e @ le32 f" 12 zs off] by simp
  have "map (\<lambda>i. get32 (dinode_bytes d @ ys) (12 + 4 * i)) [0..<NDIRECT + 1] = di_addrs d"
  proof (rule nth_equalityI)
    fix i assume "i < length (map (\<lambda>i. get32 (dinode_bytes d @ ys) (12 + 4 * i)) [0..<NDIRECT + 1])"
    then have i: "i < NDIRECT + 1" by simp
    have "get32 (dinode_bytes d @ ys) (12 + 4 * i) = di_addrs d ! i"
      unfolding dinode_bytes_def using h12 get32_concat [of i "di_addrs d" ys] i assms by simp
    then show "map (\<lambda>i. get32 (dinode_bytes d @ ys) (12 + 4 * i)) [0..<NDIRECT + 1] ! i = di_addrs d ! i"
      using i by (simp add: add.assoc del: upt_Suc)
  qed (simp add: assms)
  moreover have "get32 (dinode_bytes d @ ys) 8 = di_size d" unfolding dinode_bytes_def using h [of _ _ _ _ _ 0] by simp
  moreover have "get16 (dinode_bytes d @ ys) 0 = di_type d" "get16 (dinode_bytes d @ ys) 2 = di_major d"
    "get16 (dinode_bytes d @ ys) 4 = di_minor d" "get16 (dinode_bytes d @ ys) 6 = di_nlink d"
    unfolding dinode_bytes_def by (simp_all add: s)
  ultimately show ?thesis by (simp add: dinode_at_def numeral_2_eq_2 del: upt_Suc)
qed

lemma dinode_roundtrip:
  assumes "length (di_addrs d) = NDIRECT + 1" "off + 64 \<le> length bs"
  shows "dinode_at (put_bytes bs off (dinode_bytes d)) off = d"
  using assms dinode_at_shift [of "take off bs" off] dinode_roundtrip0 by (simp add: put_bytes_def)

lemma dirent_roundtrip: "length (de_name e) = DIRSIZ \<Longrightarrow> dirent_of (dirent_bytes e) = e"
  using get_le_here(1) [of "de_inum e" "de_name e"]
  by (simp add: dirent_of_def dirent_bytes_def)

end
