(* ===== verification/Xv6_Sleeplock.thy ===== *)
theory Xv6_Sleeplock
  imports Xv6_Console Xv6_Bytes
begin

text \<open>
  \<^verbatim>\<open>kernel/sleeplock.c\<close>: locks a process may hold while it sleeps.  The store
  \<open>sleeplocks\<close> maps the name of a sleep lock to its fields; the spin lock inside it is
  \<open>SleepLk l\<close> of the store of spin locks.
\<close>

record sleeplock =
  slocked :: bool
  slname :: string
  slpid :: int

record ksleep = kcons +
  sleeplocks :: "sleepid \<Rightarrow> sleeplock"

definition upd_slock :: "sleepid \<Rightarrow> (sleeplock \<Rightarrow> sleeplock) \<Rightarrow> 'z ksleep_scheme \<Rightarrow> 'z ksleep_scheme" where
  "upd_slock l f s = s\<lparr>sleeplocks := (sleeplocks s)(l := f (sleeplocks s l))\<rparr>"

definition initsleeplock :: "sleepid \<Rightarrow> string \<Rightarrow> ('z ksleep_scheme, unit) op" where
  "initsleeplock l name =
     seq (initlock (SleepLk l) ''sleep lock'') (
     modify (upd_slock l (\<lambda>_. \<lparr>slocked = False, slname = name, slpid = 0\<rparr>)))"

definition acquiresleep :: "'z ksleep_scheme env \<Rightarrow> sleepid \<Rightarrow> ('z ksleep_scheme, unit) op" where
  "acquiresleep E l =
     seq (acquire (SleepLk l)) (
     seq (sleep_while E (\<lambda>s. slocked (sleeplocks s l)) (ChanSleepLock l) (SleepLk l)) (
     seq (modify (upd_slock l (\<lambda>k. k\<lparr>slocked := True\<rparr>))) (
     bind curproc (\<lambda>p.
     seq (modify (\<lambda>s. upd_slock l (\<lambda>k. k\<lparr>slpid := pid (procs s p)\<rparr>) s)) (
     release (SleepLk l))))))"

definition releasesleep :: "sleepid \<Rightarrow> ('z ksleep_scheme, unit) op" where
  "releasesleep l =
     seq (acquire (SleepLk l)) (
     seq (modify (upd_slock l (\<lambda>k. k\<lparr>slocked := False, slpid := 0\<rparr>))) (
     seq (wakeup (Some (ChanSleepLock l))) (
     release (SleepLk l))))"

definition holdingsleep :: "sleepid \<Rightarrow> ('z ksleep_scheme, bool) op" where
  "holdingsleep l =
     seq (acquire (SleepLk l)) (
     bind (gets (\<lambda>s. sleeplocks s l)) (\<lambda>k.
     bind (if slocked k
           then bind curproc (\<lambda>p. gets (\<lambda>s. slpid k = pid (procs s p)))
           else ret False) (\<lambda>r.
     seq (release (SleepLk l)) (
     ret r))))"

end
