(* ===== verification/Xv6_Virtio.thy ===== *)
theory Xv6_Virtio
  imports Xv6_Sleeplock
begin

text \<open>
  \<^verbatim>\<open>kernel/virtio_disk.c\<close>, \<^verbatim>\<open>kernel/virtio.h\<close> and \<^verbatim>\<open>kernel/buf.h\<close>: the
  driver of the disk.  The descriptor table and the two rings are typed fields; the buffers of
  the buffer cache are here because the driver hands them to the device.

  The device is not part of the sources.  Its registers are read and written through
  \<open>mmio_read\<close> and \<open>mmio_write\<close>; that the device carries out a request and raises an
  interrupt is part of what happens while the requesting process sleeps.
\<close>

section \<open>State\<close>

definition NUM :: nat where "NUM = 8"

record buf =
  bvalid :: bool
  bdisk :: bool
  bdev :: u32
  blockno :: u32
  refcnt :: u32
  bdata :: "u8 list"

text \<open>What the address of a descriptor can be: a request header, the data of a buffer, a status byte.\<close>

datatype daddr = DNull | DOp nat | DData nat | DStatus nat

record virtq_desc =
  d_addr :: daddr
  d_len :: u32
  d_flags :: u16
  d_next :: u16

record virtio_blk_req =
  rq_type :: u32
  rq_reserved :: u32
  rq_sector :: u64

record disk =
  desc_pa :: u64
  avail_pa :: u64
  used_pa :: u64
  desc :: "nat \<Rightarrow> virtq_desc"
  avail_idx :: u16
  avail_ring :: "nat \<Rightarrow> u16"
  used_ring_idx :: u16
  used_ring :: "nat \<Rightarrow> u32"
  dfree :: "nat \<Rightarrow> bool"
  used_idx :: u16
  info_b :: "nat \<Rightarrow> nat option"
  info_status :: "nat \<Rightarrow> u8"
  disk_ops :: "nat \<Rightarrow> virtio_blk_req"

record kdisk = ksleep +
  bufs :: "nat \<Rightarrow> buf"
  vdisk :: disk

definition upd_buf :: "nat \<Rightarrow> (buf \<Rightarrow> buf) \<Rightarrow> 'z kdisk_scheme \<Rightarrow> 'z kdisk_scheme" where
  "upd_buf b f s = s\<lparr>bufs := (bufs s)(b := f (bufs s b))\<rparr>"

definition upd_disk :: "(disk \<Rightarrow> disk) \<Rightarrow> 'z kdisk_scheme \<Rightarrow> 'z kdisk_scheme" where
  "upd_disk f s = s\<lparr>vdisk := f (vdisk s)\<rparr>"

section \<open>Device registers (virtio.h)\<close>

definition VIRTIO_MMIO_MAGIC_VALUE :: u64 where "VIRTIO_MMIO_MAGIC_VALUE = 0x000"
definition VIRTIO_MMIO_VERSION :: u64 where "VIRTIO_MMIO_VERSION = 0x004"
definition VIRTIO_MMIO_DEVICE_ID :: u64 where "VIRTIO_MMIO_DEVICE_ID = 0x008"
definition VIRTIO_MMIO_VENDOR_ID :: u64 where "VIRTIO_MMIO_VENDOR_ID = 0x00c"
definition VIRTIO_MMIO_DEVICE_FEATURES :: u64 where "VIRTIO_MMIO_DEVICE_FEATURES = 0x010"
definition VIRTIO_MMIO_DRIVER_FEATURES :: u64 where "VIRTIO_MMIO_DRIVER_FEATURES = 0x020"
definition VIRTIO_MMIO_QUEUE_SEL :: u64 where "VIRTIO_MMIO_QUEUE_SEL = 0x030"
definition VIRTIO_MMIO_QUEUE_NUM_MAX :: u64 where "VIRTIO_MMIO_QUEUE_NUM_MAX = 0x034"
definition VIRTIO_MMIO_QUEUE_NUM :: u64 where "VIRTIO_MMIO_QUEUE_NUM = 0x038"
definition VIRTIO_MMIO_QUEUE_READY :: u64 where "VIRTIO_MMIO_QUEUE_READY = 0x044"
definition VIRTIO_MMIO_QUEUE_NOTIFY :: u64 where "VIRTIO_MMIO_QUEUE_NOTIFY = 0x050"
definition VIRTIO_MMIO_INTERRUPT_STATUS :: u64 where "VIRTIO_MMIO_INTERRUPT_STATUS = 0x060"
definition VIRTIO_MMIO_INTERRUPT_ACK :: u64 where "VIRTIO_MMIO_INTERRUPT_ACK = 0x064"
definition VIRTIO_MMIO_STATUS :: u64 where "VIRTIO_MMIO_STATUS = 0x070"
definition VIRTIO_MMIO_QUEUE_DESC_LOW :: u64 where "VIRTIO_MMIO_QUEUE_DESC_LOW = 0x080"
definition VIRTIO_MMIO_QUEUE_DESC_HIGH :: u64 where "VIRTIO_MMIO_QUEUE_DESC_HIGH = 0x084"
definition VIRTIO_MMIO_DRIVER_DESC_LOW :: u64 where "VIRTIO_MMIO_DRIVER_DESC_LOW = 0x090"
definition VIRTIO_MMIO_DRIVER_DESC_HIGH :: u64 where "VIRTIO_MMIO_DRIVER_DESC_HIGH = 0x094"
definition VIRTIO_MMIO_DEVICE_DESC_LOW :: u64 where "VIRTIO_MMIO_DEVICE_DESC_LOW = 0x0a0"
definition VIRTIO_MMIO_DEVICE_DESC_HIGH :: u64 where "VIRTIO_MMIO_DEVICE_DESC_HIGH = 0x0a4"

definition VIRTIO_CONFIG_S_ACKNOWLEDGE :: u32 where "VIRTIO_CONFIG_S_ACKNOWLEDGE = 1"
definition VIRTIO_CONFIG_S_DRIVER :: u32 where "VIRTIO_CONFIG_S_DRIVER = 2"
definition VIRTIO_CONFIG_S_DRIVER_OK :: u32 where "VIRTIO_CONFIG_S_DRIVER_OK = 4"
definition VIRTIO_CONFIG_S_FEATURES_OK :: u32 where "VIRTIO_CONFIG_S_FEATURES_OK = 8"

definition VRING_DESC_F_NEXT :: u16 where "VRING_DESC_F_NEXT = 1"
definition VRING_DESC_F_WRITE :: u16 where "VRING_DESC_F_WRITE = 2"
definition VIRTIO_BLK_T_IN :: u32 where "VIRTIO_BLK_T_IN = 0"
definition VIRTIO_BLK_T_OUT :: u32 where "VIRTIO_BLK_T_OUT = 1"

definition read_reg :: "u64 \<Rightarrow> ('z kuart_scheme, u32) op" where
  "read_reg r = mmio_read (VIRTIO0 + r)"

definition write_reg :: "u64 \<Rightarrow> u32 \<Rightarrow> ('z kuart_scheme, unit) op" where
  "write_reg r v = mmio_write (VIRTIO0 + r) v"

section \<open>Initialisation\<close>

text \<open>The feature bits the driver declines: 5, 7, 11, 12, 27, 29, 28 of \<^verbatim>\<open>virtio.h\<close>.\<close>

definition declined_features :: u32 where
  "declined_features = push_bit 5 1 OR push_bit 7 1 OR push_bit 11 1 OR push_bit 12 1 OR push_bit 27 1
     OR push_bit 29 1 OR push_bit 28 1"

text \<open>One test of the disjunction that looks for the disk; a test that fails skips the rest.\<close>

definition expect_reg :: "u64 \<Rightarrow> u32 \<Rightarrow> ('z kuart_scheme, unit) op" where
  "expect_reg r v = bind (read_reg r) (\<lambda>x. do_if (x \<noteq> v) (panic ''could not find virtio disk''))"

definition virtio_disk_init :: "('z kdisk_scheme, unit) op" where
  "virtio_disk_init =
     seq (initlock VdiskLock ''virtio_disk'') (
     seq (expect_reg VIRTIO_MMIO_MAGIC_VALUE 0x74726976) (
     seq (expect_reg VIRTIO_MMIO_VERSION 2) (
     seq (expect_reg VIRTIO_MMIO_DEVICE_ID 2) (
     seq (expect_reg VIRTIO_MMIO_VENDOR_ID 0x554d4551) (
     seq (write_reg VIRTIO_MMIO_STATUS 0) (
     seq (write_reg VIRTIO_MMIO_STATUS VIRTIO_CONFIG_S_ACKNOWLEDGE) (
     seq (write_reg VIRTIO_MMIO_STATUS (VIRTIO_CONFIG_S_ACKNOWLEDGE OR VIRTIO_CONFIG_S_DRIVER)) (
     bind (read_reg VIRTIO_MMIO_DEVICE_FEATURES) (\<lambda>features.
     seq (write_reg VIRTIO_MMIO_DRIVER_FEATURES (features AND NOT declined_features)) (
     seq (write_reg VIRTIO_MMIO_STATUS
       (VIRTIO_CONFIG_S_ACKNOWLEDGE OR VIRTIO_CONFIG_S_DRIVER OR VIRTIO_CONFIG_S_FEATURES_OK)) (
     bind (read_reg VIRTIO_MMIO_STATUS) (\<lambda>status.
     seq (do_if (status AND VIRTIO_CONFIG_S_FEATURES_OK = 0) (panic ''virtio disk FEATURES_OK unset'')) (
     seq (write_reg VIRTIO_MMIO_QUEUE_SEL 0) (
     bind (read_reg VIRTIO_MMIO_QUEUE_READY) (\<lambda>ready.
     seq (do_if (ready \<noteq> 0) (panic ''virtio disk should not be ready'')) (
     bind (read_reg VIRTIO_MMIO_QUEUE_NUM_MAX) (\<lambda>mx.
     seq (do_if (mx = 0) (panic ''virtio disk has no queue 0'')) (
     seq (do_if (mx < of_nat NUM) (panic ''virtio disk max queue too short'')) (
     bind kalloc (\<lambda>d.
     bind kalloc (\<lambda>a.
     bind kalloc (\<lambda>u.
     seq (modify (upd_disk (\<lambda>k. k\<lparr>desc_pa := d, avail_pa := a, used_pa := u\<rparr>))) (
     seq (do_if (d = 0 \<or> a = 0 \<or> u = 0) (panic ''virtio disk kalloc'')) (
     seq (modify (\<lambda>s. s\<lparr>mem := memset (memset (memset (mem s) d 0 (unat PGSIZE)) a 0 (unat PGSIZE)) u 0 (unat PGSIZE)\<rparr>)) (
     seq (modify (upd_disk (\<lambda>k. k\<lparr>desc := (\<lambda>_. \<lparr>d_addr = DNull, d_len = 0, d_flags = 0, d_next = 0\<rparr>),
       avail_idx := 0, avail_ring := (\<lambda>_. 0), used_ring_idx := 0, used_ring := (\<lambda>_. 0)\<rparr>))) (
     seq (write_reg VIRTIO_MMIO_QUEUE_NUM (of_nat NUM)) (
     seq (write_reg VIRTIO_MMIO_QUEUE_DESC_LOW (ucast d)) (
     seq (write_reg VIRTIO_MMIO_QUEUE_DESC_HIGH (ucast (drop_bit 32 d))) (
     seq (write_reg VIRTIO_MMIO_DRIVER_DESC_LOW (ucast a)) (
     seq (write_reg VIRTIO_MMIO_DRIVER_DESC_HIGH (ucast (drop_bit 32 a))) (
     seq (write_reg VIRTIO_MMIO_DEVICE_DESC_LOW (ucast u)) (
     seq (write_reg VIRTIO_MMIO_DEVICE_DESC_HIGH (ucast (drop_bit 32 u))) (
     seq (write_reg VIRTIO_MMIO_QUEUE_READY 1) (
     seq (for_each [0..<NUM] (\<lambda>i. modify (upd_disk (\<lambda>k. k\<lparr>dfree := (dfree k)(i := True)\<rparr>)))) (
     write_reg VIRTIO_MMIO_STATUS (status OR VIRTIO_CONFIG_S_DRIVER_OK)
     )))))))))))))))))))))))))))))))))))"

section \<open>Descriptors\<close>

definition alloc_desc :: "('z kdisk_scheme, int) op" where
  "alloc_desc =
     bind (scan [0..<NUM] (\<lambda>i.
       bind (gets (\<lambda>s. dfree (vdisk s) i)) (\<lambda>f.
       if f then seq (modify (upd_disk (\<lambda>k. k\<lparr>dfree := (dfree k)(i := False)\<rparr>))) (ret (Some (int i)))
       else ret None))) (\<lambda>r.
     case r of Some i \<Rightarrow> ret i | None \<Rightarrow> ret (- 1))"

definition free_desc :: "int \<Rightarrow> ('z kdisk_scheme, unit) op" where
  "free_desc i =
     (if i \<ge> int NUM then panic ''free_desc 1''
      else if i < 0 then fault ''disk.free''
      else
        bind (gets (\<lambda>s. dfree (vdisk s) (nat i))) (\<lambda>f.
        seq (do_if f (panic ''free_desc 2'')) (
        seq (modify (upd_disk (\<lambda>k. k\<lparr>
          desc := (desc k)(nat i := \<lparr>d_addr = DNull, d_len = 0, d_flags = 0, d_next = 0\<rparr>),
          dfree := (dfree k)(nat i := True)\<rparr>))) (
        wakeup (Some ChanDiskFree)))))"

text \<open>
  A descriptor that was freed makes \<open>free_desc\<close> panic, so the loop of
  \<^verbatim>\<open>free_chain\<close> runs at most \<open>NUM + 1\<close> times.
\<close>

primrec free_chain_loop :: "nat \<Rightarrow> int \<Rightarrow> ('z kdisk_scheme, unit) op" where
  "free_chain_loop 0 i = halt Spin"
| "free_chain_loop (Suc n) i =
     bind (gets (\<lambda>s. desc (vdisk s) (nat i))) (\<lambda>d.
     seq (free_desc i) (
     if d_flags d AND VRING_DESC_F_NEXT \<noteq> 0 then free_chain_loop n (uint (d_next d)) else ret ()))"

definition free_chain :: "int \<Rightarrow> ('z kdisk_scheme, unit) op" where
  "free_chain i = free_chain_loop (NUM + 1) i"

text \<open>\<open>None\<close> is the return of -1; \<open>Some idx\<close> the three descriptors.\<close>

definition alloc3_desc :: "('z kdisk_scheme, int list option) op" where
  "alloc3_desc =
     bind (loop_op [0..<3] (\<lambda>i idx.
       bind alloc_desc (\<lambda>d.
       if d < 0 then seq (for_each idx free_desc) (ret (Inr ()))
       else ret (Inl (idx @ [d])))) []) (\<lambda>r.
     case r of Inl idx \<Rightarrow> ret (Some idx) | Inr _ \<Rightarrow> ret None)"

section \<open>Requests\<close>

primrec alloc3_loop :: "nat \<Rightarrow> 'z kdisk_scheme env \<Rightarrow> ('z kdisk_scheme, int list) op" where
  "alloc3_loop 0 E = halt Spin"
| "alloc3_loop (Suc n) E =
     bind alloc3_desc (\<lambda>r.
     case r of
       Some idx \<Rightarrow> ret idx
     | None \<Rightarrow> seq (sleep E ChanDiskFree VdiskLock) (alloc3_loop n E))"

definition format_request :: "nat \<Rightarrow> bool \<Rightarrow> u64 \<Rightarrow> nat \<Rightarrow> nat \<Rightarrow> nat \<Rightarrow> disk \<Rightarrow> disk" where
  "format_request b write sector i0 i1 i2 k = k\<lparr>
     disk_ops := (disk_ops k)(i0 :=
       \<lparr>rq_type = (if write then VIRTIO_BLK_T_OUT else VIRTIO_BLK_T_IN), rq_reserved = 0, rq_sector = sector\<rparr>),
     desc := (desc k)(
       i0 := \<lparr>d_addr = DOp i0, d_len = 16, d_flags = VRING_DESC_F_NEXT, d_next = of_nat i1\<rparr>,
       i1 := \<lparr>d_addr = DData b, d_len = of_nat BSIZE,
              d_flags = (if write then 0 else VRING_DESC_F_WRITE) OR VRING_DESC_F_NEXT, d_next = of_nat i2\<rparr>,
       i2 := \<lparr>d_addr = DStatus i0, d_len = 1, d_flags = VRING_DESC_F_WRITE, d_next = 0\<rparr>),
     info_status := (info_status k)(i0 := 0xff)\<rparr>"

definition virtio_disk_rw :: "'z kdisk_scheme env \<Rightarrow> nat \<Rightarrow> bool \<Rightarrow> ('z kdisk_scheme, unit) op" where
  "virtio_disk_rw E b write =
     bind (gets (\<lambda>s. ucast (blockno (bufs s b) * of_nat (BSIZE div 512)))) (\<lambda>sector.
     seq (acquire VdiskLock) (
     bind (alloc3_loop (Suc (wakeups E)) E) (\<lambda>idx.
     let i0 = nat (idx ! 0); i1 = nat (idx ! 1); i2 = nat (idx ! 2) in
     seq (modify (upd_disk (format_request b write sector i0 i1 i2))) (
     seq (modify (upd_buf b (\<lambda>k. k\<lparr>bdisk := True\<rparr>))) (
     seq (modify (upd_disk (\<lambda>k. k\<lparr>info_b := (info_b k)(i0 := Some b)\<rparr>))) (
     seq (modify (upd_disk (\<lambda>k. k\<lparr>avail_ring := (avail_ring k)(unat (avail_idx k) mod NUM := of_nat i0)\<rparr>))) (
     seq (modify (upd_disk (\<lambda>k. k\<lparr>avail_idx := avail_idx k + 1\<rparr>))) (
     seq (write_reg VIRTIO_MMIO_QUEUE_NOTIFY 0) (
     seq (sleep_while E (\<lambda>s. bdisk (bufs s b)) (ChanBuf b) VdiskLock) (
     seq (modify (upd_disk (\<lambda>k. k\<lparr>info_b := (info_b k)(i0 := None)\<rparr>))) (
     seq (free_chain (int i0)) (
     release VdiskLock))))))))))))"

text \<open>
  The interrupt handler takes the completions off the used ring; the 16-bit index difference
  bounds the number of rounds.
\<close>

primrec intr_loop :: "nat \<Rightarrow> ('z kdisk_scheme, unit) op" where
  "intr_loop 0 = ret ()"
| "intr_loop (Suc n) =
     bind (gets vdisk) (\<lambda>k.
     let i = unat (used_ring k (unat (used_idx k) mod NUM)) in
     seq (do_if (i \<ge> NUM) (fault ''disk.info'')) (
     seq (do_if (info_status k i \<noteq> 0) (panic ''virtio_disk_intr status'')) (
     case info_b k i of
       None \<Rightarrow> fault ''null buf''
     | Some b \<Rightarrow>
         seq (modify (upd_buf b (\<lambda>q. q\<lparr>bdisk := False\<rparr>))) (
         seq (wakeup (Some (ChanBuf b))) (
         seq (modify (upd_disk (\<lambda>k. k\<lparr>used_idx := used_idx k + 1\<rparr>))) (
         intr_loop n))))))"

definition virtio_disk_intr :: "('z kdisk_scheme, unit) op" where
  "virtio_disk_intr =
     seq (acquire VdiskLock) (
     bind (read_reg VIRTIO_MMIO_INTERRUPT_STATUS) (\<lambda>st.
     seq (write_reg VIRTIO_MMIO_INTERRUPT_ACK (st AND 0x3)) (
     bind (gets (\<lambda>s. unat (used_ring_idx (vdisk s) - used_idx (vdisk s)))) (\<lambda>n.
     seq (intr_loop n) (
     release VdiskLock)))))"

end
