(* ===== verification/Xv6_Bio.thy ===== *)
theory Xv6_Bio
  imports Xv6_Virtio
begin

text \<open>
  \<^verbatim>\<open>kernel/bio.c\<close>: the buffer cache.  The doubly linked list through the buffers and
  the list head is the pair of maps \<open>lnext\<close>, \<open>lprev\<close> on the names of its nodes.  A
  traversal of the list is bounded by \<open>NBUF + 1\<close> steps; a longer one would be a broken
  list, reported as endless.
\<close>

section \<open>State and operations\<close>

datatype bptr = Head | Buf nat

record kbio = kdisk +
  lnext :: "bptr \<Rightarrow> bptr"
  lprev :: "bptr \<Rightarrow> bptr"

definition set_next :: "bptr \<Rightarrow> bptr \<Rightarrow> 'z kbio_scheme \<Rightarrow> 'z kbio_scheme" where
  "set_next a b s = s\<lparr>lnext := (lnext s)(a := b)\<rparr>"

definition set_prev :: "bptr \<Rightarrow> bptr \<Rightarrow> 'z kbio_scheme \<Rightarrow> 'z kbio_scheme" where
  "set_prev a b s = s\<lparr>lprev := (lprev s)(a := b)\<rparr>"

text \<open>Insert \<open>b\<close> right after the head; the four stores in the order of the code.\<close>

definition link_front :: "nat \<Rightarrow> 'z kbio_scheme \<Rightarrow> 'z kbio_scheme" where
  "link_front b s =
     (let s = set_next (Buf b) (lnext s Head) s;
          s = set_prev (Buf b) Head s;
          s = set_prev (lnext s Head) (Buf b) s
      in set_next Head (Buf b) s)"

definition unlink :: "nat \<Rightarrow> 'z kbio_scheme \<Rightarrow> 'z kbio_scheme" where
  "unlink b s =
     (let s = set_prev (lnext s (Buf b)) (lprev s (Buf b)) s
      in set_next (lprev s (Buf b)) (lnext s (Buf b)) s)"

definition binit :: "('z kbio_scheme, unit) op" where
  "binit =
     seq (initlock BcacheLock ''bcache'') (
     seq (modify (set_prev Head Head)) (
     seq (modify (set_next Head Head)) (
     for_each [0..<NBUF] (\<lambda>b.
       seq (initsleeplock (BufLock b) ''buffer'') (
       modify (link_front b))))))"

text \<open>
  A search along the list: \<open>None\<close> is a list that does not come back to the head,
  \<open>Some None\<close> the end of the loop, \<open>Some (Some b)\<close> the first hit.
\<close>

primrec list_find :: "nat \<Rightarrow> (bptr \<Rightarrow> bptr) \<Rightarrow> (nat \<Rightarrow> bool) \<Rightarrow> bptr \<Rightarrow> nat option option" where
  "list_find 0 nx P b = None"
| "list_find (Suc n) nx P b =
     (case b of
        Head \<Rightarrow> Some None
      | Buf i \<Rightarrow> if P i then Some (Some i) else list_find n nx P (nx b))"

definition bget :: "'z kbio_scheme env \<Rightarrow> u32 \<Rightarrow> u32 \<Rightarrow> ('z kbio_scheme, nat) op" where
  "bget E dev bno =
     seq (acquire BcacheLock) (
     bind (gets (\<lambda>s. list_find (NBUF + 1) (lnext s)
       (\<lambda>b. bdev (bufs s b) = dev \<and> blockno (bufs s b) = bno) (lnext s Head))) (\<lambda>hit.
     case hit of
       None \<Rightarrow> halt Spin
     | Some (Some b) \<Rightarrow>
         seq (modify (upd_buf b (\<lambda>k. k\<lparr>refcnt := refcnt k + 1\<rparr>))) (
         seq (release BcacheLock) (
         seq (acquiresleep E (BufLock b)) (
         ret b)))
     | Some None \<Rightarrow>
         bind (gets (\<lambda>s. list_find (NBUF + 1) (lprev s) (\<lambda>b. refcnt (bufs s b) = 0) (lprev s Head))) (\<lambda>victim.
         case victim of
           None \<Rightarrow> halt Spin
         | Some None \<Rightarrow> panic ''bget: no buffers''
         | Some (Some b) \<Rightarrow>
             seq (modify (upd_buf b (\<lambda>k. k\<lparr>bdev := dev, blockno := bno, bvalid := False, refcnt := 1\<rparr>))) (
             seq (release BcacheLock) (
             seq (acquiresleep E (BufLock b)) (
             ret b))))))"

definition bread :: "'z kbio_scheme env \<Rightarrow> u32 \<Rightarrow> u32 \<Rightarrow> ('z kbio_scheme, nat) op" where
  "bread E dev bno =
     bind (bget E dev bno) (\<lambda>b.
     bind (gets (\<lambda>s. bvalid (bufs s b))) (\<lambda>v.
     seq (do_if (\<not> v) (
       seq (virtio_disk_rw E b False) (
       modify (upd_buf b (\<lambda>k. k\<lparr>bvalid := True\<rparr>))))) (
     ret b)))"

definition bwrite :: "'z kbio_scheme env \<Rightarrow> nat \<Rightarrow> ('z kbio_scheme, unit) op" where
  "bwrite E b =
     bind (holdingsleep (BufLock b)) (\<lambda>h.
     seq (do_if (\<not> h) (panic ''bwrite'')) (
     virtio_disk_rw E b True))"

definition brelse :: "nat \<Rightarrow> ('z kbio_scheme, unit) op" where
  "brelse b =
     bind (holdingsleep (BufLock b)) (\<lambda>h.
     seq (do_if (\<not> h) (panic ''brelse'')) (
     seq (releasesleep (BufLock b)) (
     seq (acquire BcacheLock) (
     seq (modify (upd_buf b (\<lambda>k. k\<lparr>refcnt := refcnt k - 1\<rparr>))) (
     seq (bind (gets (\<lambda>s. refcnt (bufs s b))) (\<lambda>r.
       do_if (r = 0) (modify (\<lambda>s. link_front b (unlink b s))))) (
     release BcacheLock))))))"

definition bpin :: "nat \<Rightarrow> ('z kbio_scheme, unit) op" where
  "bpin b =
     seq (acquire BcacheLock) (
     seq (modify (upd_buf b (\<lambda>k. k\<lparr>refcnt := refcnt k + 1\<rparr>))) (
     release BcacheLock))"

definition bunpin :: "nat \<Rightarrow> ('z kbio_scheme, unit) op" where
  "bunpin b =
     seq (acquire BcacheLock) (
     seq (modify (upd_buf b (\<lambda>k. k\<lparr>refcnt := refcnt k - 1\<rparr>))) (
     release BcacheLock))"

end
