(* ===== verification/Xv6_Log.thy ===== *)
theory Xv6_Log
  imports Xv6_Bio
begin

text \<open>
  \<^verbatim>\<open>kernel/log.c\<close>: the write-ahead log.  Buffers are accessed through the buffer
  cache; the header block is a 32-bit count followed by 32-bit block numbers.  An access to
  \<^verbatim>\<open>log.lh.block\<close> past its \<open>LOGSIZE\<close> entries is a fault.
\<close>

section \<open>State\<close>

record logheader =
  lh_n :: int
  lh_block :: "nat \<Rightarrow> int"

record klog = kbio +
  log_start :: int
  log_size :: int
  log_outstanding :: int
  log_committing :: bool
  log_dev :: int
  log_lh :: logheader

definition set_data :: "nat \<Rightarrow> u8 list \<Rightarrow> ('z kdisk_scheme, unit) op" where
  "set_data b d = modify (upd_buf b (\<lambda>k. k\<lparr>bdata := d\<rparr>))"

definition get_data :: "nat \<Rightarrow> ('z kdisk_scheme, u8 list) op" where
  "get_data b = gets (\<lambda>s. bdata (bufs s b))"

definition lh_get :: "nat \<Rightarrow> ('z klog_scheme, int) op" where
  "lh_get i = (if i < LOGSIZE then gets (\<lambda>s. lh_block (log_lh s) i) else fault ''log.lh.block'')"

definition lh_set :: "nat \<Rightarrow> int \<Rightarrow> ('z klog_scheme, unit) op" where
  "lh_set i v =
     (if i < LOGSIZE
      then modify (\<lambda>s. s\<lparr>log_lh := (log_lh s)\<lparr>lh_block := (lh_block (log_lh s))(i := v)\<rparr>\<rparr>)
      else fault ''log.lh.block'')"

definition set_lh_n :: "int \<Rightarrow> ('z klog_scheme, unit) op" where
  "set_lh_n n = modify (\<lambda>s. s\<lparr>log_lh := (log_lh s)\<lparr>lh_n := n\<rparr>\<rparr>)"

text \<open>Block \<open>start + k\<close> of the log device.\<close>

definition log_block :: "'z klog_scheme env \<Rightarrow> int \<Rightarrow> ('z klog_scheme, nat) op" where
  "log_block E k =
     bind (gets log_dev) (\<lambda>dev.
     bind (gets log_start) (\<lambda>start.
     bread E (word_of_int dev) (word_of_int (start + k))))"

definition home_block :: "'z klog_scheme env \<Rightarrow> nat \<Rightarrow> ('z klog_scheme, nat) op" where
  "home_block E tail =
     bind (lh_get tail) (\<lambda>bno.
     bind (gets log_dev) (\<lambda>dev.
     bread E (word_of_int dev) (word_of_int bno)))"

section \<open>Recovery\<close>

definition install_trans :: "'z klog_scheme env \<Rightarrow> bool \<Rightarrow> ('z klog_scheme, unit) op" where
  "install_trans E recovering =
     bind (gets (\<lambda>s. lh_n (log_lh s))) (\<lambda>n.
     for_each [0..<nat n] (\<lambda>tail.
       bind (log_block E (int tail + 1)) (\<lambda>lbuf.
       bind (home_block E tail) (\<lambda>dbuf.
       seq (bind (get_data lbuf) (set_data dbuf)) (
       seq (bwrite E dbuf) (
       seq (do_if (\<not> recovering) (bunpin dbuf)) (
       seq (brelse lbuf) (
       brelse dbuf))))))))"

definition read_head :: "'z klog_scheme env \<Rightarrow> ('z klog_scheme, unit) op" where
  "read_head E =
     bind (log_block E 0) (\<lambda>b.
     bind (get_data b) (\<lambda>d.
     seq (set_lh_n (sint (get32 d 0))) (
     seq (for_each [0..<nat (sint (get32 d 0))] (\<lambda>i. lh_set i (sint (get32 d (4 + 4 * i))))) (
     brelse b))))"

definition write_head :: "'z klog_scheme env \<Rightarrow> ('z klog_scheme, unit) op" where
  "write_head E =
     bind (log_block E 0) (\<lambda>b.
     bind (gets (\<lambda>s. lh_n (log_lh s))) (\<lambda>n.
     seq (bind (get_data b) (\<lambda>d. set_data b (put_bytes d 0 (le32 (word_of_int n))))) (
     seq (for_each [0..<nat n] (\<lambda>i.
       bind (lh_get i) (\<lambda>v.
       bind (get_data b) (\<lambda>d. set_data b (put_bytes d (4 + 4 * i) (le32 (word_of_int v))))))) (
     seq (bwrite E b) (
     brelse b)))))"

definition recover_from_log :: "'z klog_scheme env \<Rightarrow> ('z klog_scheme, unit) op" where
  "recover_from_log E =
     seq (read_head E) (
     seq (install_trans E True) (
     seq (set_lh_n 0) (
     write_head E)))"

definition initlog :: "'z klog_scheme env \<Rightarrow> int \<Rightarrow> superblock \<Rightarrow> ('z klog_scheme, unit) op" where
  "initlog E dev x =
     seq (do_if (4 + 4 * LOGSIZE \<ge> BSIZE) (panic ''initlog: too big logheader'')) (
     seq (initlock LogLock ''log'') (
     seq (modify (\<lambda>s. s\<lparr>log_start := sint (sb_logstart x), log_size := sint (sb_nlog x), log_dev := dev\<rparr>)) (
     recover_from_log E)))"

section \<open>Transactions\<close>

primrec begin_op_loop :: "nat \<Rightarrow> 'z klog_scheme env \<Rightarrow> ('z klog_scheme, unit) op" where
  "begin_op_loop 0 E = halt Spin"
| "begin_op_loop (Suc n) E =
     bind (gets (\<lambda>s. log_committing s)) (\<lambda>committing.
     if committing then seq (sleep E ChanLog LogLock) (begin_op_loop n E)
     else bind (gets (\<lambda>s. lh_n (log_lh s) + (log_outstanding s + 1) * int MAXOPBLOCKS > int LOGSIZE)) (\<lambda>full.
       if full then seq (sleep E ChanLog LogLock) (begin_op_loop n E)
       else seq (modify (\<lambda>s. s\<lparr>log_outstanding := log_outstanding s + 1\<rparr>)) (
            release LogLock)))"

definition begin_op :: "'z klog_scheme env \<Rightarrow> ('z klog_scheme, unit) op" where
  "begin_op E = seq (acquire LogLock) (begin_op_loop (Suc (wakeups E)) E)"

definition write_log :: "'z klog_scheme env \<Rightarrow> ('z klog_scheme, unit) op" where
  "write_log E =
     bind (gets (\<lambda>s. lh_n (log_lh s))) (\<lambda>n.
     for_each [0..<nat n] (\<lambda>tail.
       bind (log_block E (int tail + 1)) (\<lambda>to.
       bind (home_block E tail) (\<lambda>from.
       seq (bind (get_data from) (set_data to)) (
       seq (bwrite E to) (
       seq (brelse from) (
       brelse to)))))))"

definition commit :: "'z klog_scheme env \<Rightarrow> ('z klog_scheme, unit) op" where
  "commit E =
     bind (gets (\<lambda>s. lh_n (log_lh s))) (\<lambda>n.
     do_if (n > 0) (
       seq (write_log E) (
       seq (write_head E) (
       seq (install_trans E False) (
       seq (set_lh_n 0) (
       write_head E))))))"

definition end_op :: "'z klog_scheme env \<Rightarrow> ('z klog_scheme, unit) op" where
  "end_op E =
     seq (acquire LogLock) (
     seq (modify (\<lambda>s. s\<lparr>log_outstanding := log_outstanding s - 1\<rparr>)) (
     seq (bind (gets log_committing) (\<lambda>c. do_if c (panic ''log.committing''))) (
     bind (gets (\<lambda>s. log_outstanding s = 0)) (\<lambda>do_commit.
     seq (if do_commit then modify (\<lambda>s. s\<lparr>log_committing := True\<rparr>) else wakeup (Some ChanLog)) (
     seq (release LogLock) (
     do_if do_commit (
       seq (commit E) (
       seq (acquire LogLock) (
       seq (modify (\<lambda>s. s\<lparr>log_committing := False\<rparr>)) (
       seq (wakeup (Some ChanLog)) (
       release LogLock)))))))))))"

text \<open>
  The index at which \<^verbatim>\<open>log_write\<close> stores the block number: the first entry that
  has it, or the end.  \<^verbatim>\<open>log.lh.block[i] == b->blockno\<close> compares as unsigned.
\<close>

definition absorb_index :: "logheader \<Rightarrow> u32 \<Rightarrow> nat" where
  "absorb_index h bno =
     (case filter (\<lambda>i. word_of_int (lh_block h i) = bno) [0..<nat (lh_n h)] of
        [] \<Rightarrow> nat (lh_n h) | i # _ \<Rightarrow> i)"

definition log_write :: "nat \<Rightarrow> ('z klog_scheme, unit) op" where
  "log_write b =
     seq (acquire LogLock) (
     bind (gets log_lh) (\<lambda>h.
     bind (gets log_size) (\<lambda>sz.
     seq (do_if (lh_n h \<ge> int LOGSIZE \<or> lh_n h \<ge> sz - 1) (panic ''too big a transaction'')) (
     bind (gets log_outstanding) (\<lambda>out.
     seq (do_if (out < 1) (panic ''log_write outside of trans'')) (
     bind (gets (\<lambda>s. blockno (bufs s b))) (\<lambda>bno.
     let i = absorb_index h bno in
     seq (lh_set i (sint bno)) (
     seq (do_if (int i = lh_n h) (
       seq (bpin b) (
       set_lh_n (lh_n h + 1)))) (
     release LogLock)))))))))"

end
