(* ===== verification/Xv6_Fs.thy ===== *)
theory Xv6_Fs
  imports Xv6_Log
begin

text \<open>
  \<^verbatim>\<open>kernel/fs.c\<close>: block allocation, inodes, file contents, directories and path
  names.  A \<^verbatim>\<open>struct inode *\<close> is the index of the entry in the inode table.  Kernel
  buffers the routines fill are returned as byte lists; path names are byte strings.
\<close>

section \<open>State\<close>

record inode =
  i_dev :: u32
  i_inum :: u32
  i_ref :: int
  i_valid :: bool
  i_type :: u16
  i_major :: u16
  i_minor :: u16
  i_nlink :: u16
  i_size :: u32
  i_addrs :: "u32 list"

record kfs = klog +
  fsb :: superblock
  inodes :: "nat \<Rightarrow> inode"
  stat_pad :: "u8 list"

definition upd_inode :: "nat \<Rightarrow> (inode \<Rightarrow> inode) \<Rightarrow> 'z kfs_scheme \<Rightarrow> 'z kfs_scheme" where
  "upd_inode i f s = s\<lparr>inodes := (inodes s)(i := f (inodes s i))\<rparr>"

section \<open>Blocks\<close>

definition readsb :: "'z kfs_scheme env \<Rightarrow> int \<Rightarrow> ('z kfs_scheme, unit) op" where
  "readsb E dev =
     bind (bread E (word_of_int dev) 1) (\<lambda>bp.
     seq (bind (get_data bp) (\<lambda>d. modify (\<lambda>s. s\<lparr>fsb := superblock_at d\<rparr>))) (
     brelse bp))"

definition fsinit :: "'z kfs_scheme env \<Rightarrow> int \<Rightarrow> ('z kfs_scheme, unit) op" where
  "fsinit E dev =
     seq (readsb E dev) (
     bind (gets fsb) (\<lambda>x.
     seq (do_if (sb_magic x \<noteq> FSMAGIC) (panic ''invalid file system'')) (
     initlog E dev x)))"

definition bzero :: "'z kfs_scheme env \<Rightarrow> u32 \<Rightarrow> u32 \<Rightarrow> ('z kfs_scheme, unit) op" where
  "bzero E dev bno =
     bind (bread E dev bno) (\<lambda>bp.
     seq (set_data bp (replicate BSIZE 0)) (
     seq (log_write bp) (
     brelse bp)))"

text \<open>The values of a loop variable that goes from 0 in steps of \<open>k\<close> while it is below \<open>n\<close>.\<close>

definition steps :: "nat \<Rightarrow> nat \<Rightarrow> nat list" where
  "steps k n = map (\<lambda>i. i * k) [0..<(n + k - 1) div k]"

definition bitmask :: "nat \<Rightarrow> u8" where
  "bitmask bi = push_bit (bi mod 8) 1"

definition balloc :: "'z kfs_scheme env \<Rightarrow> u32 \<Rightarrow> ('z kfs_scheme, u32) op" where
  "balloc E dev =
     bind (gets fsb) (\<lambda>x.
     bind (scan (steps BPB (unat (sb_size x))) (\<lambda>b.
       bind (bread E dev (BBLOCK (of_nat b) x)) (\<lambda>bp.
       bind (scan [0..<min BPB (unat (sb_size x) - b)] (\<lambda>bi.
         bind (get_data bp) (\<lambda>d.
         if d ! (bi div 8) AND bitmask bi = 0 then
           seq (set_data bp (d[bi div 8 := d ! (bi div 8) OR bitmask bi])) (
           seq (log_write bp) (
           seq (brelse bp) (
           seq (bzero E dev (of_nat (b + bi))) (
           ret (Some (of_nat (b + bi)))))))
         else ret None))) (\<lambda>r.
       case r of
         Some a \<Rightarrow> ret (Some a)
       | None \<Rightarrow> seq (brelse bp) (ret None))))) (\<lambda>r.
     case r of
       Some a \<Rightarrow> ret a
     | None \<Rightarrow> seq (printf (''balloc: out of blocks'' @ [LF]) []) (ret 0)))"

definition bfree :: "'z kfs_scheme env \<Rightarrow> u32 \<Rightarrow> u32 \<Rightarrow> ('z kfs_scheme, unit) op" where
  "bfree E dev b =
     bind (gets fsb) (\<lambda>x.
     bind (bread E dev (BBLOCK b x)) (\<lambda>bp.
     bind (get_data bp) (\<lambda>d.
     let bi = unat b mod BPB in
     seq (do_if (d ! (bi div 8) AND bitmask bi = 0) (panic ''freeing free block'')) (
     seq (set_data bp (d[bi div 8 := d ! (bi div 8) AND NOT (bitmask bi)])) (
     seq (log_write bp) (
     brelse bp))))))"

section \<open>The inode table\<close>

definition iinit :: "('z kfs_scheme, unit) op" where
  "iinit =
     seq (initlock ItableLock ''itable'') (
     for_each [0..<NINODE] (\<lambda>i. initsleeplock (InodeLock i) ''inode''))"

definition iget :: "u32 \<Rightarrow> u32 \<Rightarrow> ('z kfs_scheme, nat) op" where
  "iget dev inum =
     seq (acquire ItableLock) (
     bind (loop_op [0..<NINODE] (\<lambda>ip empty.
       bind (gets (\<lambda>s. inodes s ip)) (\<lambda>q.
       if i_ref q > 0 \<and> i_dev q = dev \<and> i_inum q = inum then
         seq (modify (upd_inode ip (\<lambda>q. q\<lparr>i_ref := i32 (i_ref q + 1)\<rparr>))) (
         seq (release ItableLock) (
         ret (Inr ip)))
       else ret (Inl (if empty = None \<and> i_ref q = 0 then Some ip else empty)))) None) (\<lambda>r.
     case r of
       Inr ip \<Rightarrow> ret ip
     | Inl None \<Rightarrow> panic ''iget: no inodes''
     | Inl (Some ip) \<Rightarrow>
         seq (modify (upd_inode ip (\<lambda>q. q\<lparr>i_dev := dev, i_inum := inum, i_ref := 1, i_valid := False\<rparr>))) (
         seq (release ItableLock) (
         ret ip))))"

definition idup :: "nat \<Rightarrow> ('z kfs_scheme, nat) op" where
  "idup ip =
     seq (acquire ItableLock) (
     seq (modify (upd_inode ip (\<lambda>q. q\<lparr>i_ref := i32 (i_ref q + 1)\<rparr>))) (
     seq (release ItableLock) (
     ret ip)))"

text \<open>The byte offset of inode \<open>inum\<close> in its block.\<close>

definition dinode_off :: "u32 \<Rightarrow> nat" where
  "dinode_off inum = (unat inum mod IPB) * dinode_size"

definition ialloc :: "'z kfs_scheme env \<Rightarrow> u32 \<Rightarrow> u16 \<Rightarrow> ('z kfs_scheme, nat option) op" where
  "ialloc E dev type =
     bind (gets fsb) (\<lambda>x.
     bind (scan [1..<unat (sb_ninodes x)] (\<lambda>inum.
       bind (bread E dev (IBLOCK (of_nat inum) x)) (\<lambda>bp.
       bind (get_data bp) (\<lambda>d.
       if get16 d (dinode_off (of_nat inum)) = 0 then
         seq (set_data bp (put_bytes (put_bytes d (dinode_off (of_nat inum)) (replicate dinode_size 0))
           (dinode_off (of_nat inum)) (le16 type))) (
         seq (log_write bp) (
         seq (brelse bp) (
         bind (iget dev (of_nat inum)) (\<lambda>ip. ret (Some ip)))))
       else seq (brelse bp) (ret None))))) (\<lambda>r.
     case r of
       Some ip \<Rightarrow> ret (Some ip)
     | None \<Rightarrow> seq (printf (''ialloc: no inodes'' @ [LF]) []) (ret None)))"

definition dinode_of :: "inode \<Rightarrow> dinode" where
  "dinode_of q = \<lparr>di_type = i_type q, di_major = i_major q, di_minor = i_minor q, di_nlink = i_nlink q,
     di_size = i_size q, di_addrs = i_addrs q\<rparr>"

definition load_dinode :: "dinode \<Rightarrow> inode \<Rightarrow> inode" where
  "load_dinode d q = q\<lparr>i_type := di_type d, i_major := di_major d, i_minor := di_minor d,
     i_nlink := di_nlink d, i_size := di_size d, i_addrs := di_addrs d\<rparr>"

definition iupdate :: "'z kfs_scheme env \<Rightarrow> nat \<Rightarrow> ('z kfs_scheme, unit) op" where
  "iupdate E ip =
     bind (gets fsb) (\<lambda>x.
     bind (gets (\<lambda>s. inodes s ip)) (\<lambda>q.
     bind (bread E (i_dev q) (IBLOCK (i_inum q) x)) (\<lambda>bp.
     bind (gets (\<lambda>s. inodes s ip)) (\<lambda>q.
     seq (bind (get_data bp) (\<lambda>d.
       set_data bp (put_bytes d (dinode_off (i_inum q)) (dinode_bytes (dinode_of q))))) (
     seq (log_write bp) (
     brelse bp))))))"

definition ilock :: "'z kfs_scheme env \<Rightarrow> nat option \<Rightarrow> ('z kfs_scheme, unit) op" where
  "ilock E oip =
     (case oip of
        None \<Rightarrow> panic ''ilock''
      | Some ip \<Rightarrow>
          seq (bind (gets (\<lambda>s. i_ref (inodes s ip))) (\<lambda>r. do_if (r < 1) (panic ''ilock''))) (
          seq (acquiresleep E (InodeLock ip)) (
          bind (gets (\<lambda>s. i_valid (inodes s ip))) (\<lambda>v.
          do_if (\<not> v) (
            bind (gets fsb) (\<lambda>x.
            bind (gets (\<lambda>s. inodes s ip)) (\<lambda>q.
            bind (bread E (i_dev q) (IBLOCK (i_inum q) x)) (\<lambda>bp.
            seq (bind (get_data bp) (\<lambda>d.
              modify (upd_inode ip (load_dinode (dinode_at d (dinode_off (i_inum q))))))) (
            seq (brelse bp) (
            seq (modify (upd_inode ip (\<lambda>q. q\<lparr>i_valid := True\<rparr>))) (
            bind (gets (\<lambda>s. i_type (inodes s ip))) (\<lambda>t.
            do_if (t = 0) (panic ''ilock: no type'')))))))))))))"

definition iunlock :: "nat option \<Rightarrow> ('z kfs_scheme, unit) op" where
  "iunlock oip =
     (case oip of
        None \<Rightarrow> panic ''iunlock''
      | Some ip \<Rightarrow>
          bind (holdingsleep (InodeLock ip)) (\<lambda>h.
          bind (gets (\<lambda>s. i_ref (inodes s ip))) (\<lambda>r.
          seq (do_if (\<not> h \<or> r < 1) (panic ''iunlock'')) (
          releasesleep (InodeLock ip)))))"

section \<open>Contents of an inode\<close>

definition bmap :: "'z kfs_scheme env \<Rightarrow> nat \<Rightarrow> u32 \<Rightarrow> ('z kfs_scheme, u32) op" where
  "bmap E ip bn =
     bind (gets (\<lambda>s. i_dev (inodes s ip))) (\<lambda>dev.
     if unat bn < NDIRECT then
       bind (gets (\<lambda>s. i_addrs (inodes s ip) ! unat bn)) (\<lambda>addr.
       if addr \<noteq> 0 then ret addr
       else bind (balloc E dev) (\<lambda>addr.
         if addr = 0 then ret 0
         else seq (modify (upd_inode ip (\<lambda>q. q\<lparr>i_addrs := (i_addrs q)[unat bn := addr]\<rparr>))) (ret addr)))
     else if unat bn - NDIRECT < NINDIRECT then
       let bn = unat bn - NDIRECT in
       bind (gets (\<lambda>s. i_addrs (inodes s ip) ! NDIRECT)) (\<lambda>addr.
       bind (if addr \<noteq> 0 then ret addr
             else bind (balloc E dev) (\<lambda>addr.
               if addr = 0 then ret 0
               else seq (modify (upd_inode ip (\<lambda>q. q\<lparr>i_addrs := (i_addrs q)[NDIRECT := addr]\<rparr>))) (ret addr))) (\<lambda>addr.
       if addr = 0 then ret 0
       else
         bind (bread E dev addr) (\<lambda>bp.
         bind (get_data bp) (\<lambda>d.
         bind (if get32 d (4 * bn) \<noteq> 0 then ret (get32 d (4 * bn))
               else bind (balloc E dev) (\<lambda>addr.
                 seq (do_if (addr \<noteq> 0) (
                   seq (bind (get_data bp) (\<lambda>d. set_data bp (put_bytes d (4 * bn) (le32 addr)))) (
                   log_write bp))) (
                 ret addr))) (\<lambda>addr.
         seq (brelse bp) (
         ret addr))))))
     else panic ''bmap: out of range'')"

definition itrunc :: "'z kfs_scheme env \<Rightarrow> nat \<Rightarrow> ('z kfs_scheme, unit) op" where
  "itrunc E ip =
     bind (gets (\<lambda>s. i_dev (inodes s ip))) (\<lambda>dev.
     seq (for_each [0..<NDIRECT] (\<lambda>i.
       bind (gets (\<lambda>s. i_addrs (inodes s ip) ! i)) (\<lambda>a.
       do_if (a \<noteq> 0) (
         seq (bfree E dev a) (
         modify (upd_inode ip (\<lambda>q. q\<lparr>i_addrs := (i_addrs q)[i := 0]\<rparr>))))))) (
     seq (bind (gets (\<lambda>s. i_addrs (inodes s ip) ! NDIRECT)) (\<lambda>ind.
       do_if (ind \<noteq> 0) (
         bind (bread E dev ind) (\<lambda>bp.
         seq (for_each [0..<NINDIRECT] (\<lambda>j.
           bind (get_data bp) (\<lambda>d. do_if (get32 d (4 * j) \<noteq> 0) (bfree E dev (get32 d (4 * j)))))) (
         seq (brelse bp) (
         seq (bfree E dev ind) (
         modify (upd_inode ip (\<lambda>q. q\<lparr>i_addrs := (i_addrs q)[NDIRECT := 0]\<rparr>))))))))) (
     seq (modify (upd_inode ip (\<lambda>q. q\<lparr>i_size := 0\<rparr>))) (
     iupdate E ip))))"

definition iput :: "'z kfs_scheme env \<Rightarrow> nat \<Rightarrow> ('z kfs_scheme, unit) op" where
  "iput E ip =
     seq (acquire ItableLock) (
     seq (bind (gets (\<lambda>s. inodes s ip)) (\<lambda>q.
       do_if (i_ref q = 1 \<and> i_valid q \<and> i_nlink q = 0) (
         seq (acquiresleep E (InodeLock ip)) (
         seq (release ItableLock) (
         seq (itrunc E ip) (
         seq (modify (upd_inode ip (\<lambda>q. q\<lparr>i_type := 0\<rparr>))) (
         seq (iupdate E ip) (
         seq (modify (upd_inode ip (\<lambda>q. q\<lparr>i_valid := False\<rparr>))) (
         seq (releasesleep (InodeLock ip)) (
         acquire ItableLock)))))))))) (
     seq (modify (upd_inode ip (\<lambda>q. q\<lparr>i_ref := i32 (i_ref q - 1)\<rparr>))) (
     release ItableLock)))"

definition iunlockput :: "'z kfs_scheme env \<Rightarrow> nat \<Rightarrow> ('z kfs_scheme, unit) op" where
  "iunlockput E ip = seq (iunlock (Some ip)) (iput E ip)"

record stat =
  st_dev :: int
  st_ino :: u32
  st_type :: u16
  st_nlink :: u16
  st_size :: u64

definition stati :: "nat \<Rightarrow> ('z kfs_scheme, stat) op" where
  "stati ip = gets (\<lambda>s. let q = inodes s ip in
     \<lparr>st_dev = sint (i_dev q), st_ino = i_inum q, st_type = i_type q, st_nlink = i_nlink q,
      st_size = ucast (i_size q)\<rparr>)"

text \<open>
  The loop of \<^verbatim>\<open>readi\<close> with \<open>left\<close> bytes to go: the bytes for a kernel
  destination, and how many were read (\<open>None\<close> after a failed copy).
\<close>

function readi_loop ::
  "'z kfs_scheme env \<Rightarrow> nat \<Rightarrow> dest \<Rightarrow> nat \<Rightarrow> nat \<Rightarrow> ('z kfs_scheme, u8 list \<times> nat option) op" where
  "readi_loop E ip dst off left =
     (if left = 0 then ret ([], Some 0)
      else bind (bmap E ip (of_nat (off div BSIZE))) (\<lambda>addr.
        if addr = 0 then ret ([], Some 0)
        else bind (gets (\<lambda>s. i_dev (inodes s ip))) (\<lambda>dev.
          bind (bread E dev addr) (\<lambda>bp.
          bind (get_data bp) (\<lambda>d.
          let m = min left (BSIZE - off mod BSIZE) in
          bind (either_copyout dst (take m (drop (off mod BSIZE) d))) (\<lambda>(bs, r).
          if r = - 1 then seq (brelse bp) (ret ([], None))
          else seq (brelse bp) (
            bind (readi_loop E ip (dst_plus dst (of_nat m)) (off + m) (left - m)) (\<lambda>(rest, k).
            ret (bs @ rest, map_option (\<lambda>k. m + k) k)))))))))"
  by pat_completeness auto

termination
  by (relation "measure (\<lambda>(_, _, _, _, left). left)") (auto simp: BSIZE_def)

definition readi ::
  "'z kfs_scheme env \<Rightarrow> nat \<Rightarrow> dest \<Rightarrow> u32 \<Rightarrow> u32 \<Rightarrow> ('z kfs_scheme, u8 list \<times> int) op" where
  "readi E ip dst off n =
     bind (gets (\<lambda>s. i_size (inodes s ip))) (\<lambda>sz.
     if off > sz \<or> off + n < off then ret ([], 0)
     else
       bind (readi_loop E ip dst (unat off) (unat (if off + n > sz then sz - off else n))) (\<lambda>(bs, k).
       ret (bs, case k of None \<Rightarrow> - 1 | Some k \<Rightarrow> i32 (int k))))"

text \<open>
  The loop of \<^verbatim>\<open>writei\<close>: how many bytes it wrote.  A copy that fails has already
  changed the buffer, but the buffer is not logged then.
\<close>

function writei_loop ::
  "'z kfs_scheme env \<Rightarrow> nat \<Rightarrow> source \<Rightarrow> nat \<Rightarrow> nat \<Rightarrow> nat \<Rightarrow> ('z kfs_scheme, nat) op" where
  "writei_loop E ip src off tot left =
     (if left = 0 then ret 0
      else bind (bmap E ip (of_nat (off div BSIZE))) (\<lambda>addr.
        if addr = 0 then ret 0
        else bind (gets (\<lambda>s. i_dev (inodes s ip))) (\<lambda>dev.
          bind (bread E dev addr) (\<lambda>bp.
          let m = min left (BSIZE - off mod BSIZE) in
          bind (either_copyin src tot m) (\<lambda>(bs, r).
          seq (bind (get_data bp) (\<lambda>d. set_data bp (put_bytes d (off mod BSIZE) bs))) (
          if r = - 1 then seq (brelse bp) (ret 0)
          else seq (log_write bp) (
            seq (brelse bp) (
            bind (writei_loop E ip src (off + m) (tot + m) (left - m)) (\<lambda>k.
            ret (m + k)))))))))) "
  by pat_completeness auto

termination
  by (relation "measure (\<lambda>(_, _, _, _, _, left). left)") (auto simp: BSIZE_def)

declare readi_loop.simps [simp del] writei_loop.simps [simp del]

definition writei ::
  "'z kfs_scheme env \<Rightarrow> nat \<Rightarrow> source \<Rightarrow> u32 \<Rightarrow> u32 \<Rightarrow> ('z kfs_scheme, int) op" where
  "writei E ip src off n =
     bind (gets (\<lambda>s. i_size (inodes s ip))) (\<lambda>sz.
     if off > sz \<or> off + n < off then ret (- 1)
     else if unat (off + n) > MAXFILE * BSIZE then ret (- 1)
     else
       bind (writei_loop E ip src (unat off) 0 (unat n)) (\<lambda>tot.
       seq (modify (upd_inode ip (\<lambda>q.
         if off + of_nat tot > i_size q then q\<lparr>i_size := off + of_nat tot\<rparr> else q))) (
       seq (iupdate E ip) (
       ret (i32 (int tot))))))"

section \<open>Directories\<close>

definition namecmp :: "u8 list \<Rightarrow> u8 list \<Rightarrow> int" where
  "namecmp s t = strncmp_b s t DIRSIZ"

text \<open>Read the directory entry at \<open>off\<close>; \<open>msg\<close> is the panic of a short read.\<close>

definition read_dirent :: "'z kfs_scheme env \<Rightarrow> nat \<Rightarrow> nat \<Rightarrow> string \<Rightarrow> ('z kfs_scheme, dirent) op" where
  "read_dirent E dp off msg =
     bind (readi E dp KernDst (of_nat off) (of_nat dirent_size)) (\<lambda>(bs, r).
     if r \<noteq> int dirent_size then panic msg else ret (dirent_of bs))"

text \<open>The answer: the inode and the offset of its entry (which the C code stores in \<^verbatim>\<open>*poff\<close>).\<close>

definition dirlookup :: "'z kfs_scheme env \<Rightarrow> nat \<Rightarrow> u8 list \<Rightarrow> ('z kfs_scheme, (nat \<times> nat) option) op" where
  "dirlookup E dp name =
     bind (gets (\<lambda>s. inodes s dp)) (\<lambda>q.
     seq (do_if (i_type q \<noteq> T_DIR) (panic ''dirlookup not DIR'')) (
     scan (steps dirent_size (unat (i_size q))) (\<lambda>off.
       bind (read_dirent E dp off ''dirlookup read'') (\<lambda>de.
       if de_inum de = 0 then ret None
       else if namecmp name (de_name de) = 0 then
         bind (iget (i_dev q) (ucast (de_inum de))) (\<lambda>ip. ret (Some (ip, off)))
       else ret None))))"

definition dirlink :: "'z kfs_scheme env \<Rightarrow> nat \<Rightarrow> u8 list \<Rightarrow> u32 \<Rightarrow> ('z kfs_scheme, int) op" where
  "dirlink E dp name inum =
     bind (dirlookup E dp name) (\<lambda>found.
     case found of
       Some (ip, _) \<Rightarrow> seq (iput E ip) (ret (- 1))
     | None \<Rightarrow>
         bind (gets (\<lambda>s. unat (i_size (inodes s dp)))) (\<lambda>sz.
         bind (scan (steps dirent_size sz) (\<lambda>off.
           bind (read_dirent E dp off ''dirlink read'') (\<lambda>de.
           ret (if de_inum de = 0 then Some off else None)))) (\<lambda>r.
         let off = (case r of Some off \<Rightarrow> off | None \<Rightarrow> (sz + dirent_size - 1) div dirent_size * dirent_size) in
         bind (writei E dp (KernSrc (dirent_bytes \<lparr>de_inum = ucast inum, de_name = strncpy_b name DIRSIZ\<rparr>))
           (of_nat off) (of_nat dirent_size)) (\<lambda>r.
         ret (if r \<noteq> int dirent_size then - 1 else 0)))))"

section \<open>Paths\<close>

definition SLASH :: u8 where "SLASH = 47"

text \<open>
  \<^verbatim>\<open>skipelem\<close>: the rest of the path and the bytes put into \<^verbatim>\<open>name\<close>,
  which has a terminator only when the element is shorter than \<open>DIRSIZ\<close>.
\<close>

definition skipelem :: "u8 list \<Rightarrow> (u8 list \<times> u8 list) option" where
  "skipelem path =
     (let path = dropWhile (\<lambda>c. c = SLASH) path in
      if first_byte path = 0 then None
      else let elem = takeWhile (\<lambda>c. c \<noteq> SLASH \<and> c \<noteq> 0) path;
               path = dropWhile (\<lambda>c. c \<noteq> SLASH \<and> c \<noteq> 0) path;
               name = (if length elem \<ge> DIRSIZ then take DIRSIZ elem else elem @ [0])
           in Some (dropWhile (\<lambda>c. c = SLASH) path, name))"

lemma length_dropWhile_le': "length (dropWhile P xs) \<le> length xs"
  by (induction xs) auto

lemma skipelem_shorter: "skipelem path = Some (rest, name) \<Longrightarrow> length rest < length path"
proof -
  assume *: "skipelem path = Some (rest, name)"
  define p where "p = dropWhile (\<lambda>c. c = SLASH) path"
  define q where "q = dropWhile (\<lambda>c. c \<noteq> SLASH \<and> c \<noteq> 0) p"
  have r: "rest = dropWhile (\<lambda>c. c = SLASH) q" and p0: "first_byte p \<noteq> 0"
    using * by (auto simp: skipelem_def p_def q_def Let_def split: if_splits)
  then obtain c p' where p: "p = c # p'" by (cases p) (auto simp: first_byte_def)
  have "c \<noteq> 0" using p0 p by (simp add: first_byte_def)
  moreover have "c \<noteq> SLASH"
    using hd_dropWhile [of "\<lambda>c. c = SLASH" path] p unfolding p_def by (metis list.distinct(1) list.sel(1))
  ultimately have "length q \<le> length p'" using p length_dropWhile_le' by (simp add: q_def)
  moreover have "length p \<le> length path" by (simp add: p_def length_dropWhile_le')
  moreover have "length rest \<le> length q" using r length_dropWhile_le' by simp
  ultimately show ?thesis using p by simp
qed

text \<open>
  The loop of \<^verbatim>\<open>namex\<close> from directory \<open>ip\<close>; \<open>name\<close> is the buffer with the
  last element taken off.
\<close>

function namex_loop ::
  "'z kfs_scheme env \<Rightarrow> bool \<Rightarrow> u8 list \<Rightarrow> nat \<Rightarrow> u8 list \<Rightarrow> ('z kfs_scheme, (nat \<times> u8 list) option) op" where
  "namex_loop E par path ip name =
     (case skipelem path of
        None \<Rightarrow> if par then seq (iput E ip) (ret None) else ret (Some (ip, name))
      | Some (path', name') \<Rightarrow>
          seq (ilock E (Some ip)) (
          bind (gets (\<lambda>s. i_type (inodes s ip))) (\<lambda>t.
          if t \<noteq> T_DIR then seq (iunlockput E ip) (ret None)
          else if par \<and> first_byte path' = 0 then seq (iunlock (Some ip)) (ret (Some (ip, name')))
          else bind (dirlookup E ip name') (\<lambda>found.
            case found of
              None \<Rightarrow> seq (iunlockput E ip) (ret None)
            | Some (next, _) \<Rightarrow> seq (iunlockput E ip) (namex_loop E par path' next name')))))"
  by pat_completeness auto

termination
  by (relation "measure (\<lambda>(_, _, path, _, _). length path)") (auto dest: skipelem_shorter)

declare namex_loop.simps [simp del]

definition namex ::
  "'z kfs_scheme env \<Rightarrow> u8 list \<Rightarrow> bool \<Rightarrow> ('z kfs_scheme, (nat \<times> u8 list) option) op" where
  "namex E path par =
     bind (if first_byte path = SLASH then iget ROOTDEV ROOTINO
           else bind curproc (\<lambda>p. bind (gets (\<lambda>s. cwd (procs s p))) (\<lambda>d.
             case d of None \<Rightarrow> fault ''null cwd'' | Some i \<Rightarrow> idup i))) (\<lambda>ip.
     namex_loop E par path ip [])"

definition namei :: "'z kfs_scheme env \<Rightarrow> u8 list \<Rightarrow> ('z kfs_scheme, nat option) op" where
  "namei E path = bind (namex E path False) (\<lambda>r. ret (map_option fst r))"

definition nameiparent :: "'z kfs_scheme env \<Rightarrow> u8 list \<Rightarrow> ('z kfs_scheme, (nat \<times> u8 list) option) op" where
  "nameiparent E path = namex E path True"

end
