(* ===== verification/Xv6_Pipe.thy ===== *)
theory Xv6_Pipe
  imports Xv6_Fs
begin

text \<open>
  \<^verbatim>\<open>kernel/pipe.c\<close>: pipes.  A pipe lives in a page of its own, so its address names
  it; the store \<open>pipes\<close> gives the fields.  The data is a ring of 512 bytes with two
  32-bit counters that run freely and wrap around.
\<close>

record pipe =
  pdata :: "nat \<Rightarrow> u8"
  nread :: u32
  nwrite :: u32
  readopen :: bool
  writeopen :: bool

record kpipe = kfs +
  pipes :: "u64 \<Rightarrow> pipe"

definition PIPESIZE :: nat where "PIPESIZE = 512"

definition upd_pipe :: "u64 \<Rightarrow> (pipe \<Rightarrow> pipe) \<Rightarrow> 'z kpipe_scheme \<Rightarrow> 'z kpipe_scheme" where
  "upd_pipe pi f s = s\<lparr>pipes := (pipes s)(pi := f (pipes s pi))\<rparr>"

definition pipe_full :: "pipe \<Rightarrow> bool" where
  "pipe_full k \<longleftrightarrow> nwrite k = nread k + of_nat PIPESIZE"

definition pipe_put :: "u8 \<Rightarrow> pipe \<Rightarrow> pipe" where
  "pipe_put c k = k\<lparr>pdata := (pdata k)(unat (nwrite k mod of_nat PIPESIZE) := c), nwrite := nwrite k + 1\<rparr>"

definition pipe_peek :: "pipe \<Rightarrow> u8" where
  "pipe_peek k = pdata k (unat (nread k mod of_nat PIPESIZE))"

definition pipeclose :: "u64 \<Rightarrow> bool \<Rightarrow> ('z kpipe_scheme, unit) op" where
  "pipeclose pi writable =
     seq (acquire (PipeLock pi)) (
     seq (if writable
          then seq (modify (upd_pipe pi (\<lambda>k. k\<lparr>writeopen := False\<rparr>))) (wakeup (Some (ChanPipeNread pi)))
          else seq (modify (upd_pipe pi (\<lambda>k. k\<lparr>readopen := False\<rparr>))) (wakeup (Some (ChanPipeNwrite pi)))) (
     bind (gets (\<lambda>s. pipes s pi)) (\<lambda>k.
     if \<not> readopen k \<and> \<not> writeopen k
     then seq (release (PipeLock pi)) (kfree pi)
     else release (PipeLock pi))))"

text \<open>
  The loop of \<^verbatim>\<open>pipewrite\<close>.  Every round stores a byte or sleeps, so with at most
  \<open>wakeups\<close> sleeps there are at most \<open>n\<close> plus that many rounds.  \<open>Inr\<close> is the return
  of -1, \<open>Inl i\<close> the end of the loop after \<open>i\<close> bytes.
\<close>

primrec pipewrite_loop ::
  "nat \<Rightarrow> 'z kpipe_scheme env \<Rightarrow> nat \<Rightarrow> u64 \<Rightarrow> u64 \<Rightarrow> nat \<Rightarrow> nat \<Rightarrow> ('z kpipe_scheme, nat + unit) op" where
  "pipewrite_loop 0 E pr pi addr i n = (if i < n then halt Spin else ret (Inl i))"
| "pipewrite_loop (Suc fuel) E pr pi addr i n =
     (if \<not> i < n then ret (Inl i)
      else bind (gets (\<lambda>s. pipes s pi)) (\<lambda>k.
        bind (if readopen k then killed pr else ret 1) (\<lambda>quit.
        if quit \<noteq> 0 then seq (release (PipeLock pi)) (ret (Inr ()))
        else if pipe_full k then
          seq (wakeup (Some (ChanPipeNread pi))) (
          seq (sleep E (ChanPipeNwrite pi) (PipeLock pi)) (
          pipewrite_loop fuel E pr pi addr i n))
        else bind (gets (\<lambda>s. pagetable (procs s pr))) (\<lambda>pt.
          bind (copyin pt (addr + of_nat i) 1) (\<lambda>(bs, r).
          if r = - 1 then ret (Inl i)
          else seq (modify (upd_pipe pi (pipe_put (hd bs)))) (
               pipewrite_loop fuel E pr pi addr (Suc i) n))))))"

definition pipewrite :: "'z kpipe_scheme env \<Rightarrow> u64 \<Rightarrow> u64 \<Rightarrow> int \<Rightarrow> ('z kpipe_scheme, int) op" where
  "pipewrite E pi addr n =
     bind curproc (\<lambda>pr.
     seq (acquire (PipeLock pi)) (
     bind (pipewrite_loop (nat n + wakeups E) E pr pi addr 0 (nat n)) (\<lambda>r.
     case r of
       Inr _ \<Rightarrow> ret (- 1)
     | Inl i \<Rightarrow> seq (wakeup (Some (ChanPipeNread pi))) (seq (release (PipeLock pi)) (ret (int i))))))"

text \<open>The wait of \<^verbatim>\<open>piperead\<close>; \<open>False\<close> is the return of -1 of a killed process.\<close>

primrec piperead_wait :: "nat \<Rightarrow> 'z kpipe_scheme env \<Rightarrow> nat \<Rightarrow> u64 \<Rightarrow> ('z kpipe_scheme, bool) op" where
  "piperead_wait 0 E pr pi = halt Spin"
| "piperead_wait (Suc n) E pr pi =
     bind (gets (\<lambda>s. pipes s pi)) (\<lambda>k.
     if \<not> (nread k = nwrite k \<and> writeopen k) then ret True
     else bind (killed pr) (\<lambda>q.
       if q \<noteq> 0 then seq (release (PipeLock pi)) (ret False)
       else seq (sleep E (ChanPipeNread pi) (PipeLock pi)) (piperead_wait n E pr pi)))"

definition piperead_copy :: "nat \<Rightarrow> u64 \<Rightarrow> u64 \<Rightarrow> nat \<Rightarrow> ('z kpipe_scheme, int) op" where
  "piperead_copy pr pi addr n =
     bind (loop_op [0..<n] (\<lambda>i k.
       bind (gets (\<lambda>s. pipes s pi)) (\<lambda>q.
       if nread q = nwrite q then ret (Inr k)
       else
         seq (modify (upd_pipe pi (\<lambda>q. q\<lparr>nread := nread q + 1\<rparr>))) (
         bind (gets (\<lambda>s. pagetable (procs s pr))) (\<lambda>pt.
         bind (copyout pt (addr + of_nat i) [pipe_peek q]) (\<lambda>r.
         if r = - 1 then ret (Inr k) else ret (Inl (k + 1))))))) 0) (\<lambda>r.
     case r of Inl k \<Rightarrow> ret k | Inr k \<Rightarrow> ret k)"

definition piperead :: "'z kpipe_scheme env \<Rightarrow> u64 \<Rightarrow> u64 \<Rightarrow> int \<Rightarrow> ('z kpipe_scheme, int) op" where
  "piperead E pi addr n =
     bind curproc (\<lambda>pr.
     seq (acquire (PipeLock pi)) (
     bind (piperead_wait (Suc (wakeups E)) E pr pi) (\<lambda>avail.
     if \<not> avail then ret (- 1)
     else bind (piperead_copy pr pi addr (nat n)) (\<lambda>i.
       seq (wakeup (Some (ChanPipeNwrite pi))) (
       seq (release (PipeLock pi)) (
       ret i))))))"

end
