(* ===== verification/Xv6_File.thy ===== *)
theory Xv6_File
  imports Xv6_Pipe
begin

text \<open>
  \<^verbatim>\<open>kernel/file.c\<close> and \<^verbatim>\<open>pipealloc\<close> of \<^verbatim>\<open>kernel/pipe.c\<close>: the table
  of open files.  A \<^verbatim>\<open>struct file *\<close> is the index of the entry.
\<close>

datatype fdtype = FD_NONE | FD_PIPE | FD_INODE | FD_DEVICE

record "file" =
  f_type :: fdtype
  f_ref :: int
  f_readable :: bool
  f_writable :: bool
  f_pipe :: u64
  f_ip :: "nat option"
  f_off :: u32
  f_major :: u16

record kfile = kpipe +
  files :: "nat \<Rightarrow> file"

definition upd_file :: "nat \<Rightarrow> (file \<Rightarrow> file) \<Rightarrow> 'z kfile_scheme \<Rightarrow> 'z kfile_scheme" where
  "upd_file f g s = s\<lparr>files := (files s)(f := g (files s f))\<rparr>"

section \<open>References\<close>

definition fileinit :: "('z kfile_scheme, unit) op" where
  "fileinit = initlock FtableLock ''ftable''"

definition filealloc :: "('z kfile_scheme, nat option) op" where
  "filealloc =
     seq (acquire FtableLock) (
     bind (scan [0..<NFILE] (\<lambda>f.
       bind (gets (\<lambda>s. f_ref (files s f))) (\<lambda>r.
       if r = 0 then
         seq (modify (upd_file f (\<lambda>k. k\<lparr>f_ref := 1\<rparr>))) (
         seq (release FtableLock) (
         ret (Some f)))
       else ret None))) (\<lambda>r.
     case r of
       Some f \<Rightarrow> ret (Some f)
     | None \<Rightarrow> seq (release FtableLock) (ret None)))"

definition filedup :: "nat \<Rightarrow> ('z kfile_scheme, nat) op" where
  "filedup f =
     seq (acquire FtableLock) (
     seq (bind (gets (\<lambda>s. f_ref (files s f))) (\<lambda>r. do_if (r < 1) (panic ''filedup''))) (
     seq (modify (upd_file f (\<lambda>k. k\<lparr>f_ref := i32 (f_ref k + 1)\<rparr>))) (
     seq (release FtableLock) (
     ret f))))"

definition the_ip :: "nat option \<Rightarrow> ('s, nat) op" where
  "the_ip oip = (case oip of None \<Rightarrow> fault ''null inode'' | Some ip \<Rightarrow> ret ip)"

definition fileclose :: "'z kfile_scheme env \<Rightarrow> nat \<Rightarrow> ('z kfile_scheme, unit) op" where
  "fileclose E f =
     seq (acquire FtableLock) (
     seq (bind (gets (\<lambda>s. f_ref (files s f))) (\<lambda>r. do_if (r < 1) (panic ''fileclose''))) (
     seq (modify (upd_file f (\<lambda>k. k\<lparr>f_ref := f_ref k - 1\<rparr>))) (
     bind (gets (\<lambda>s. files s f)) (\<lambda>ff.
     if f_ref ff > 0 then release FtableLock
     else
       seq (modify (upd_file f (\<lambda>k. k\<lparr>f_ref := 0, f_type := FD_NONE\<rparr>))) (
       seq (release FtableLock) (
       if f_type ff = FD_PIPE then pipeclose (f_pipe ff) (f_writable ff)
       else if f_type ff = FD_INODE \<or> f_type ff = FD_DEVICE then
         seq (begin_op E) (
         seq (bind (the_ip (f_ip ff)) (iput E)) (
         end_op E))
       else ret ()))))))"

section \<open>Operations on an open file\<close>

text \<open>\<^verbatim>\<open>struct stat\<close> has four bytes of padding before the size.\<close>

definition stat_bytes :: "u8 list \<Rightarrow> stat \<Rightarrow> u8 list" where
  "stat_bytes pad st = le32 (word_of_int (st_dev st)) @ le32 (st_ino st) @ le16 (st_type st) @ le16 (st_nlink st)
     @ pad @ le32 (ucast (st_size st)) @ le32 (ucast (drop_bit 32 (st_size st)))"

definition filestat :: "'z kfile_scheme env \<Rightarrow> nat \<Rightarrow> u64 \<Rightarrow> ('z kfile_scheme, int) op" where
  "filestat E f addr =
     bind curproc (\<lambda>p.
     bind (gets (\<lambda>s. files s f)) (\<lambda>k.
     if f_type k = FD_INODE \<or> f_type k = FD_DEVICE then
       seq (ilock E (f_ip k)) (
       bind (the_ip (f_ip k)) (\<lambda>ip.
       bind (stati ip) (\<lambda>st.
       seq (iunlock (f_ip k)) (
       bind (gets stat_pad) (\<lambda>pad.
       bind (gets (\<lambda>s. pagetable (procs s p))) (\<lambda>pt.
       bind (copyout pt addr (stat_bytes pad st)) (\<lambda>r.
       ret (if r < 0 then - 1 else 0))))))))
     else ret (- 1)))"

definition dev_valid :: "u16 \<Rightarrow> bool" where
  "dev_valid m \<longleftrightarrow> \<not> (sint m < 0 \<or> sint m \<ge> NDEV)"

definition dev_read :: "'z kcons_scheme env \<Rightarrow> devfn \<Rightarrow> u64 \<Rightarrow> int \<Rightarrow> ('z kcons_scheme, int) op" where
  "dev_read E fn addr n =
     (case fn of
        Consoleread \<Rightarrow> bind (consoleread E (UserDst addr) n) (\<lambda>(_, r). ret r)
      | Consolewrite \<Rightarrow> consolewrite E (UserSrc addr) n)"

definition fileread :: "'z kfile_scheme env \<Rightarrow> nat \<Rightarrow> u64 \<Rightarrow> int \<Rightarrow> ('z kfile_scheme, int) op" where
  "fileread E f addr n =
     bind (gets (\<lambda>s. files s f)) (\<lambda>k.
     if \<not> f_readable k then ret (- 1)
     else case f_type k of
       FD_PIPE \<Rightarrow> piperead E (f_pipe k) addr n
     | FD_DEVICE \<Rightarrow>
         if \<not> dev_valid (f_major k) then ret (- 1)
         else bind (gets (\<lambda>s. dread (devsw s (unat (f_major k))))) (\<lambda>fn.
           case fn of None \<Rightarrow> ret (- 1) | Some fn \<Rightarrow> dev_read E fn addr n)
     | FD_INODE \<Rightarrow>
         seq (ilock E (f_ip k)) (
         bind (the_ip (f_ip k)) (\<lambda>ip.
         bind (gets (\<lambda>s. f_off (files s f))) (\<lambda>off.
         bind (readi E ip (UserDst addr) off (word_of_int n)) (\<lambda>(_, r).
         seq (do_if (r > 0) (modify (upd_file f (\<lambda>k. k\<lparr>f_off := f_off k + word_of_int r\<rparr>)))) (
         seq (iunlock (f_ip k)) (
         ret r))))))
     | FD_NONE \<Rightarrow> panic ''fileread'')"

definition write_max :: nat where
  "write_max = ((MAXOPBLOCKS - 1 - 1 - 2) div 2) * BSIZE"

text \<open>The loop that writes an inode in several transactions: the final \<open>i\<close>.\<close>

function filewrite_loop ::
  "'z kfile_scheme env \<Rightarrow> nat \<Rightarrow> nat option \<Rightarrow> u64 \<Rightarrow> nat \<Rightarrow> nat \<Rightarrow> ('z kfile_scheme, nat) op" where
  "filewrite_loop E f oip addr i n =
     (if \<not> i < n then ret i
      else let n1 = min (n - i) write_max in
        seq (begin_op E) (
        seq (ilock E oip) (
        bind (the_ip oip) (\<lambda>ip.
        bind (gets (\<lambda>s. f_off (files s f))) (\<lambda>off.
        bind (writei E ip (UserSrc (addr + of_nat i)) off (of_nat n1)) (\<lambda>r.
        seq (do_if (r > 0) (modify (upd_file f (\<lambda>k. k\<lparr>f_off := f_off k + word_of_int r\<rparr>)))) (
        seq (iunlock oip) (
        seq (end_op E) (
        if r \<noteq> int n1 then ret i else filewrite_loop E f oip addr (i + n1) n)))))))))"
  by pat_completeness auto

termination
  by (relation "measure (\<lambda>(_, _, _, _, i, n). n - i)") (auto simp: write_max_def MAXOPBLOCKS_def BSIZE_def)

declare filewrite_loop.simps [simp del]

definition dev_write :: "'z kcons_scheme env \<Rightarrow> devfn \<Rightarrow> u64 \<Rightarrow> int \<Rightarrow> ('z kcons_scheme, int) op" where
  "dev_write E fn addr n =
     (case fn of
        Consoleread \<Rightarrow> bind (consoleread E (UserDst addr) n) (\<lambda>(_, r). ret r)
      | Consolewrite \<Rightarrow> consolewrite E (UserSrc addr) n)"

definition filewrite :: "'z kfile_scheme env \<Rightarrow> nat \<Rightarrow> u64 \<Rightarrow> int \<Rightarrow> ('z kfile_scheme, int) op" where
  "filewrite E f addr n =
     bind (gets (\<lambda>s. files s f)) (\<lambda>k.
     if \<not> f_writable k then ret (- 1)
     else case f_type k of
       FD_PIPE \<Rightarrow> pipewrite E (f_pipe k) addr n
     | FD_DEVICE \<Rightarrow>
         if \<not> dev_valid (f_major k) then ret (- 1)
         else bind (gets (\<lambda>s. dwrite (devsw s (unat (f_major k))))) (\<lambda>fn.
           case fn of None \<Rightarrow> ret (- 1) | Some fn \<Rightarrow> dev_write E fn addr n)
     | FD_INODE \<Rightarrow>
         bind (filewrite_loop E f (f_ip k) addr 0 (nat n)) (\<lambda>i.
         ret (if int i = n then n else - 1))
     | FD_NONE \<Rightarrow> panic ''filewrite'')"

section \<open>Creating a pipe\<close>

definition close_opt :: "'z kfile_scheme env \<Rightarrow> nat option \<Rightarrow> ('z kfile_scheme, unit) op" where
  "close_opt E f = (case f of None \<Rightarrow> ret () | Some f \<Rightarrow> fileclose E f)"

text \<open>\<open>None\<close> is the return of -1, \<open>Some (f0, f1)\<close> the two ends.\<close>

definition pipealloc :: "'z kfile_scheme env \<Rightarrow> ('z kfile_scheme, (nat \<times> nat) option) op" where
  "pipealloc E =
     bind filealloc (\<lambda>f0.
     bind (case f0 of None \<Rightarrow> ret None | Some _ \<Rightarrow> filealloc) (\<lambda>f1.
     case (f0, f1) of
       (Some r, Some w) \<Rightarrow>
         bind kalloc (\<lambda>pi.
         if pi = 0 then seq (close_opt E f0) (seq (close_opt E f1) (ret None))
         else
           seq (modify (upd_pipe pi (\<lambda>k. k\<lparr>readopen := True, writeopen := True, nwrite := 0, nread := 0\<rparr>))) (
           seq (initlock (PipeLock pi) ''pipe'') (
           seq (modify (upd_file r (\<lambda>k. k\<lparr>f_type := FD_PIPE, f_readable := True, f_writable := False, f_pipe := pi\<rparr>))) (
           seq (modify (upd_file w (\<lambda>k. k\<lparr>f_type := FD_PIPE, f_readable := False, f_writable := True, f_pipe := pi\<rparr>))) (
           ret (Some (r, w)))))))
     | _ \<Rightarrow> seq (close_opt E f0) (seq (close_opt E f1) (ret None))))"

end
