(* ===== verification/Xv6_Fork.thy ===== *)
theory Xv6_Fork
  imports Xv6_File
begin

text \<open>
  The part of \<^verbatim>\<open>kernel/proc.c\<close> that needs the file system: the first process,
  \<^verbatim>\<open>fork\<close> and \<^verbatim>\<open>exit\<close>.
\<close>

section \<open>Trapframes\<close>

definition get_tf :: "nat \<Rightarrow> ('z kproc_scheme, trapframe) op" where
  "get_tf p = gets (\<lambda>s. tframes s (trapframe_pa (procs s p)))"

definition upd_tf :: "nat \<Rightarrow> (trapframe \<Rightarrow> trapframe) \<Rightarrow> 'z kproc_scheme \<Rightarrow> 'z kproc_scheme" where
  "upd_tf p f s = s\<lparr>tframes := (tframes s)(trapframe_pa (procs s p) := f (tframes s (trapframe_pa (procs s p))))\<rparr>"

definition set_reg :: "reg \<Rightarrow> u64 \<Rightarrow> trapframe \<Rightarrow> trapframe" where
  "set_reg r v t = t\<lparr>regs := (regs t)(r := v)\<rparr>"

section \<open>The first process\<close>

definition initcode :: "u8 list" where
  "initcode = [
     0x17, 0x05, 0x00, 0x00, 0x13, 0x05, 0x45, 0x02,
     0x97, 0x05, 0x00, 0x00, 0x93, 0x85, 0x35, 0x02,
     0x93, 0x08, 0x70, 0x00, 0x73, 0x00, 0x00, 0x00,
     0x93, 0x08, 0x20, 0x00, 0x73, 0x00, 0x00, 0x00,
     0xef, 0xf0, 0x9f, 0xff, 0x2f, 0x69, 0x6e, 0x69,
     0x74, 0x00, 0x00, 0x24, 0x00, 0x00, 0x00, 0x00,
     0x00, 0x00, 0x00, 0x00]"

text \<open>\<^verbatim>\<open>safestrcpy\<close> into a field of \<open>n\<close> bytes, on the characters of the string.\<close>

definition safestr :: "nat \<Rightarrow> string \<Rightarrow> string" where
  "safestr n cs = take (n - 1) cs"

definition userinit :: "'z kfs_scheme env \<Rightarrow> ('z kfs_scheme, unit) op" where
  "userinit E =
     bind allocproc (\<lambda>op.
     seq (modify (\<lambda>s. s\<lparr>initproc := op\<rparr>)) (
     case op of
       None \<Rightarrow> fault ''null proc''
     | Some p \<Rightarrow>
         seq (bind (gets (\<lambda>s. pagetable (procs s p))) (\<lambda>pt. uvmfirst pt initcode)) (
         seq (modify (upd_proc p (\<lambda>q. q\<lparr>psz := PGSIZE\<rparr>))) (
         seq (modify (upd_tf p (\<lambda>t. t\<lparr>epc := 0\<rparr>))) (
         seq (modify (upd_tf p (set_reg Rsp PGSIZE))) (
         seq (modify (upd_proc p (\<lambda>q. q\<lparr>pname := safestr 16 ''initcode''\<rparr>))) (
         bind (namei E [SLASH]) (\<lambda>d.
         seq (modify (upd_proc p (\<lambda>q. q\<lparr>cwd := d\<rparr>))) (
         seq (modify (upd_proc p (\<lambda>q. q\<lparr>state := RUNNABLE\<rparr>))) (
         release (ProcLock p)))))))))))"

section \<open>fork\<close>

definition dup_files :: "nat \<Rightarrow> nat \<Rightarrow> ('z kfile_scheme, unit) op" where
  "dup_files p np =
     for_each [0..<NOFILE] (\<lambda>i.
       bind (gets (\<lambda>s. ofile (procs s p) i)) (\<lambda>f.
       case f of
         None \<Rightarrow> ret ()
       | Some f \<Rightarrow> bind (filedup f) (\<lambda>g. modify (upd_proc np (\<lambda>q. q\<lparr>ofile := (ofile q)(i := Some g)\<rparr>)))))"

definition fork :: "('z kfile_scheme, int) op" where
  "fork =
     bind curproc (\<lambda>p.
     bind allocproc (\<lambda>r.
     case r of
       None \<Rightarrow> ret (- 1)
     | Some np \<Rightarrow>
         bind (gets (\<lambda>s. procs s p)) (\<lambda>q.
         bind (gets (\<lambda>s. pagetable (procs s np))) (\<lambda>npt.
         bind (uvmcopy (pagetable q) npt (psz q)) (\<lambda>r.
         if r < 0 then seq (freeproc np) (seq (release (ProcLock np)) (ret (- 1)))
         else
           seq (modify (upd_proc np (\<lambda>k. k\<lparr>psz := psz q\<rparr>))) (
           seq (modify (upd_proc np (\<lambda>k. k\<lparr>initial_tickets := initial_tickets q,
             current_tickets := initial_tickets q\<rparr>))) (
           seq (bind (get_tf p) (\<lambda>t. modify (upd_tf np (\<lambda>_. t)))) (
           seq (modify (upd_tf np (set_reg Ra0 0))) (
           seq (dup_files p np) (
           bind (bind (the_ip (cwd q)) idup) (\<lambda>d.
           seq (modify (upd_proc np (\<lambda>k. k\<lparr>cwd := Some d\<rparr>))) (
           seq (modify (upd_proc np (\<lambda>k. k\<lparr>pname := safestr 16 (pname q)\<rparr>))) (
           bind (gets (\<lambda>s. pid (procs s np))) (\<lambda>i.
           seq (release (ProcLock np)) (
           seq (acquire WaitLock) (
           seq (modify (upd_proc np (\<lambda>k. k\<lparr>parent := Some p\<rparr>))) (
           seq (release WaitLock) (
           seq (acquire (ProcLock np)) (
           seq (modify (upd_proc np (\<lambda>k. k\<lparr>state := RUNNABLE\<rparr>))) (
           seq (release (ProcLock np)) (
           ret i)))))))))))))))))))))"

section \<open>exit\<close>

definition close_files :: "'z kfile_scheme env \<Rightarrow> nat \<Rightarrow> ('z kfile_scheme, unit) op" where
  "close_files E p =
     for_each [0..<NOFILE] (\<lambda>fd.
       bind (gets (\<lambda>s. ofile (procs s p) fd)) (\<lambda>f.
       case f of
         None \<Rightarrow> ret ()
       | Some f \<Rightarrow> seq (fileclose E f) (modify (upd_proc p (\<lambda>q. q\<lparr>ofile := (ofile q)(fd := None)\<rparr>)))))"

text \<open>\<^verbatim>\<open>exit\<close> does not return: if \<open>sched\<close> came back, it would panic.\<close>

definition exit :: "'z kfile_scheme env \<Rightarrow> int \<Rightarrow> ('z kfile_scheme, unit) op" where
  "exit E status =
     bind curproc (\<lambda>p.
     seq (bind (gets initproc) (\<lambda>ip. do_if (Some p = ip) (panic ''init exiting''))) (
     seq (close_files E p) (
     seq (begin_op E) (
     seq (bind (gets (\<lambda>s. cwd (procs s p))) (\<lambda>d. bind (the_ip d) (iput E))) (
     seq (end_op E) (
     seq (modify (upd_proc p (\<lambda>q. q\<lparr>cwd := None\<rparr>))) (
     seq (acquire WaitLock) (
     seq (reparent p) (
     seq (bind (gets (\<lambda>s. parent (procs s p))) (\<lambda>pp. wakeup (map_option ChanProc pp))) (
     seq (acquire (ProcLock p)) (
     seq (modify (upd_proc p (\<lambda>q. q\<lparr>xstate := status\<rparr>))) (
     seq (modify (upd_proc p (\<lambda>q. q\<lparr>state := ZOMBIE\<rparr>))) (
     seq (release WaitLock) (
     seq (sched E) (
     panic ''zombie exit'')))))))))))))))"

end
