(* ===== verification/Xv6_Syscall.thy ===== *)
theory Xv6_Syscall
  imports Xv6_Fork
begin

text \<open>
  The argument fetching of \<^verbatim>\<open>kernel/syscall.c\<close>.  Strings are returned as the bytes
  before the terminator, with the C return value.
\<close>

text \<open>The eight bytes of a \<^verbatim>\<open>uint64\<close>.\<close>

definition get64 :: "u8 list \<Rightarrow> nat \<Rightarrow> u64" where
  "get64 bs off = ucast (get32 bs off) OR push_bit 32 (ucast (get32 bs (off + 4)))"

definition le64 :: "u64 \<Rightarrow> u8 list" where
  "le64 v = le32 (ucast v) @ le32 (ucast (drop_bit 32 v))"

definition fetchaddr :: "u64 \<Rightarrow> ('z kproc_scheme, u64 \<times> int) op" where
  "fetchaddr addr =
     bind curproc (\<lambda>p.
     bind (gets (\<lambda>s. procs s p)) (\<lambda>q.
     if addr \<ge> psz q \<or> addr + 8 > psz q then ret (0, - 1)
     else bind (copyin (pagetable q) addr 8) (\<lambda>(bs, r).
       if r \<noteq> 0 then ret (0, - 1) else ret (get64 bs 0, 0))))"

definition fetchstr :: "u64 \<Rightarrow> nat \<Rightarrow> ('z kproc_scheme, u8 list \<times> int) op" where
  "fetchstr addr mx =
     bind curproc (\<lambda>p.
     bind (gets (\<lambda>s. pagetable (procs s p))) (\<lambda>pt.
     bind (copyinstr pt addr mx) (\<lambda>(bs, r).
     if r < 0 then ret (bs, - 1) else ret (cstring bs, int (length (cstring bs))))))"

definition argraw :: "nat \<Rightarrow> ('z kproc_scheme, u64) op" where
  "argraw n =
     bind curproc (\<lambda>p.
     bind (get_tf p) (\<lambda>t.
     if n = 0 then ret (regs t Ra0)
     else if n = 1 then ret (regs t Ra1)
     else if n = 2 then ret (regs t Ra2)
     else if n = 3 then ret (regs t Ra3)
     else if n = 4 then ret (regs t Ra4)
     else if n = 5 then ret (regs t Ra5)
     else panic ''argraw''))"

definition argint :: "nat \<Rightarrow> ('z kproc_scheme, int) op" where
  "argint n = bind (argraw n) (\<lambda>v. ret (sint (ucast v :: u32)))"

definition argaddr :: "nat \<Rightarrow> ('z kproc_scheme, u64) op" where
  "argaddr n = argraw n"

definition argstr :: "nat \<Rightarrow> nat \<Rightarrow> ('z kproc_scheme, u8 list \<times> int) op" where
  "argstr n mx = bind (argaddr n) (\<lambda>addr. fetchstr addr mx)"

end
