(* ===== verification/Xv6_Exec.thy ===== *)
theory Xv6_Exec
  imports Xv6_Syscall
begin

text \<open>
  \<^verbatim>\<open>kernel/exec.c\<close> and \<^verbatim>\<open>kernel/elf.h\<close>: replacing the image of a process.
  The arguments are kernel strings, given by their addresses in memory.  A jump to the label
  \<^verbatim>\<open>bad\<close> is the value \<open>None\<close> of the part that makes it.
\<close>

section \<open>ELF headers\<close>

definition ELF_MAGIC :: u32 where "ELF_MAGIC = 0x464C457F"
definition ELF_PROG_LOAD :: u32 where "ELF_PROG_LOAD = 1"

record elfhdr =
  e_magic :: u32
  e_entry :: u64
  e_phoff :: u64
  e_phnum :: u16

definition elfhdr_size :: nat where "elfhdr_size = 64"

definition elfhdr_of :: "u8 list \<Rightarrow> elfhdr" where
  "elfhdr_of bs = \<lparr>e_magic = get32 bs 0, e_entry = get64 bs 24, e_phoff = get64 bs 32, e_phnum = get16 bs 56\<rparr>"

record proghdr =
  ph_type :: u32
  ph_flags :: u32
  ph_off :: u64
  ph_vaddr :: u64
  ph_paddr :: u64
  ph_filesz :: u64
  ph_memsz :: u64
  ph_align :: u64

definition proghdr_size :: nat where "proghdr_size = 56"

definition proghdr_of :: "u8 list \<Rightarrow> proghdr" where
  "proghdr_of bs = \<lparr>ph_type = get32 bs 0, ph_flags = get32 bs 4, ph_off = get64 bs 8, ph_vaddr = get64 bs 16,
     ph_paddr = get64 bs 24, ph_filesz = get64 bs 32, ph_memsz = get64 bs 40, ph_align = get64 bs 48\<rparr>"

section \<open>Loading\<close>

definition flags2perm :: "u32 \<Rightarrow> u64" where
  "flags2perm flags =
     (let perm = (if flags AND 0x1 \<noteq> 0 then PTE_X else 0)
      in if flags AND 0x2 \<noteq> 0 then perm OR PTE_W else perm)"

text \<open>
  A page of the segment is read to the physical address of its user page.
\<close>

definition loadseg ::
  "'z kfs_scheme env \<Rightarrow> u64 \<Rightarrow> u64 \<Rightarrow> nat \<Rightarrow> u32 \<Rightarrow> u32 \<Rightarrow> ('z kfs_scheme, int) op" where
  "loadseg E pt va ip offset sz =
     bind (scan (steps (unat PGSIZE) (unat sz)) (\<lambda>i.
       bind (walkaddr pt (va + of_nat i)) (\<lambda>pa.
       seq (do_if (pa = 0) (panic ''loadseg: address should exist'')) (
       let n = (if unat sz - i < unat PGSIZE then unat sz - i else unat PGSIZE) in
       bind (readi E ip KernDst (offset + of_nat i) (of_nat n)) (\<lambda>(bs, r).
       seq (modify (\<lambda>s. s\<lparr>mem := store_bytes (mem s) pa bs\<rparr>)) (
       ret (if r \<noteq> int n then Some () else None))))))) (\<lambda>r.
     case r of Some _ \<Rightarrow> ret (- 1) | None \<Rightarrow> ret 0)"

text \<open>
  One program header; the size of the image so far goes in and out.  \<open>Inr sz\<close> is the jump
  to \<^verbatim>\<open>bad\<close> with the size at that point.
\<close>

definition load_header ::
  "'z kfs_scheme env \<Rightarrow> u64 \<Rightarrow> nat \<Rightarrow> u32 \<Rightarrow> u64 \<Rightarrow> ('z kfs_scheme, u64 + u64) op" where
  "load_header E pt ip off sz =
     bind (readi E ip KernDst off (of_nat proghdr_size)) (\<lambda>(bs, r).
     if r \<noteq> int proghdr_size then ret (Inr sz)
     else let ph = proghdr_of bs in
       if ph_type ph \<noteq> ELF_PROG_LOAD then ret (Inl sz)
       else if ph_memsz ph < ph_filesz ph then ret (Inr sz)
       else if ph_vaddr ph + ph_memsz ph < ph_vaddr ph then ret (Inr sz)
       else if ph_vaddr ph mod PGSIZE \<noteq> 0 then ret (Inr sz)
       else bind (uvmalloc pt sz (ph_vaddr ph + ph_memsz ph) (flags2perm (ph_flags ph))) (\<lambda>sz1.
         if sz1 = 0 then ret (Inr sz)
         else bind (loadseg E pt (ph_vaddr ph) ip (ucast (ph_off ph)) (ucast (ph_filesz ph))) (\<lambda>r.
           if r < 0 then ret (Inr sz1) else ret (Inl sz1))))"

definition load_image ::
  "'z kfs_scheme env \<Rightarrow> u64 \<Rightarrow> nat \<Rightarrow> elfhdr \<Rightarrow> ('z kfs_scheme, u64 + u64) op" where
  "load_image E pt ip elf =
     loop_op [0..<unat (e_phnum elf)] (\<lambda>i sz.
       load_header E pt ip (ucast (e_phoff elf) + of_nat (i * proghdr_size)) sz) 0"

section \<open>The stack\<close>

text \<open>
  Push the argument strings: the new stack pointer and the values of \<^verbatim>\<open>ustack\<close>.
\<close>

definition push_string :: "u64 \<Rightarrow> u64 \<Rightarrow> u64 \<Rightarrow> u64 \<Rightarrow> ('z kmem_scheme, u64 option) op" where
  "push_string pt stackbase a sp0 =
     bind (gets (\<lambda>s. strlen (mem s) a)) (\<lambda>l.
     case l of
       None \<Rightarrow> halt Spin
     | Some len \<Rightarrow>
         let sp1 = sp0 - of_nat (len + 1); sp2 = sp1 - sp1 mod 16 in
         if sp2 < stackbase then ret None
         else bind (gets (\<lambda>s. load_bytes (mem s) a (len + 1))) (\<lambda>bs.
           bind (copyout pt sp2 bs) (\<lambda>r.
           if r < 0 then ret None else ret (Some sp2))))"

definition push_args :: "u64 \<Rightarrow> u64 \<Rightarrow> u64 list \<Rightarrow> u64 \<Rightarrow> ('z kmem_scheme, (u64 \<times> u64 list) option) op" where
  "push_args pt stackbase argv sp0 =
     bind (loop_op argv (\<lambda>a (sp1, ustack).
       if length ustack \<ge> MAXARG then ret (Inr ())
       else bind (push_string pt stackbase a sp1) (\<lambda>r.
         case r of None \<Rightarrow> ret (Inr ()) | Some sp2 \<Rightarrow> ret (Inl (sp2, ustack @ [sp2])))) (sp0, [])) (\<lambda>r.
     case r of
       Inr _ \<Rightarrow> ret None
     | Inl (sp1, ustack) \<Rightarrow>
         if length ustack \<ge> MAXARG then fault ''ustack''
         else ret (Some (sp1, ustack @ [0])))"

definition push_ustack :: "u64 \<Rightarrow> u64 \<Rightarrow> u64 list \<Rightarrow> u64 \<Rightarrow> ('z kmem_scheme, u64 option) op" where
  "push_ustack pt stackbase ustack sp0 =
     (let sp1 = sp0 - of_nat (length ustack * 8); sp2 = sp1 - sp1 mod 16 in
      if sp2 < stackbase then ret None
      else bind (copyout pt sp2 (concat (map le64 ustack))) (\<lambda>r.
        if r < 0 then ret None else ret (Some sp2)))"

section \<open>exec\<close>

text \<open>The last element of a path: what follows the last slash.\<close>

definition last_elem :: "u8 list \<Rightarrow> u8 list" where
  "last_elem path = rev (takeWhile (\<lambda>c. c \<noteq> SLASH) (rev path))"

definition bytes_string :: "u8 list \<Rightarrow> string" where
  "bytes_string bs = map (\<lambda>b. char_of (unat b)) bs"

definition bad_image :: "u64 \<Rightarrow> u64 \<Rightarrow> ('z kmem_scheme, unit) op" where
  "bad_image pt sz = do_if (pt \<noteq> 0) (proc_freepagetable pt sz)"

definition exec_read :: "'z kfs_scheme env \<Rightarrow> nat \<Rightarrow> nat \<Rightarrow> ('z kfs_scheme, (u64 \<times> u64) + (u64 \<times> u64 \<times> u64)) op" where
  "exec_read E p ip =
     bind (readi E ip KernDst 0 (of_nat elfhdr_size)) (\<lambda>(bs, r).
     if r \<noteq> int elfhdr_size then ret (Inl (0, 0))
     else let elf = elfhdr_of bs in
       if e_magic elf \<noteq> ELF_MAGIC then ret (Inl (0, 0))
       else bind (proc_pagetable p) (\<lambda>pt.
         if pt = 0 then ret (Inl (0, 0))
         else bind (load_image E pt ip elf) (\<lambda>r.
           case r of
             Inr sz \<Rightarrow> ret (Inl (pt, sz))
           | Inl sz \<Rightarrow> ret (Inr (pt, sz, e_entry elf)))))"

definition exec_stack :: "u64 \<Rightarrow> u64 \<Rightarrow> u64 list \<Rightarrow> ('z kmem_scheme, u64 + (u64 \<times> u64 \<times> nat)) op" where
  "exec_stack pt sz0 argv =
     (let sz = PGROUNDUP sz0 in
      bind (uvmalloc pt sz (sz + 2 * PGSIZE) PTE_W) (\<lambda>sz1.
      if sz1 = 0 then ret (Inl sz)
      else
        seq (uvmclear pt (sz1 - 2 * PGSIZE)) (
        let stackbase = sz1 - PGSIZE in
        bind (push_args pt stackbase argv sz1) (\<lambda>r.
        case r of
          None \<Rightarrow> ret (Inl sz1)
        | Some (sp1, ustack) \<Rightarrow>
            bind (push_ustack pt stackbase ustack sp1) (\<lambda>r.
            case r of
              None \<Rightarrow> ret (Inl sz1)
            | Some sp2 \<Rightarrow> ret (Inr (sz1, sp2, length ustack - 1)))))))"

definition exec_commit :: "nat \<Rightarrow> u8 list \<Rightarrow> u64 \<Rightarrow> u64 \<Rightarrow> u64 \<Rightarrow> u64 \<Rightarrow> u64 \<Rightarrow> ('z kproc_scheme, unit) op" where
  "exec_commit p path pt sz entry sp2 oldsz =
     seq (modify (upd_tf p (set_reg Ra1 sp2))) (
     seq (modify (upd_proc p (\<lambda>q. q\<lparr>pname := safestr 16 (bytes_string (last_elem path))\<rparr>))) (
     bind (gets (\<lambda>s. pagetable (procs s p))) (\<lambda>oldpt.
     seq (modify (upd_proc p (\<lambda>q. q\<lparr>pagetable := pt\<rparr>))) (
     seq (modify (upd_proc p (\<lambda>q. q\<lparr>psz := sz\<rparr>))) (
     seq (modify (upd_tf p (\<lambda>t. t\<lparr>epc := entry\<rparr>))) (
     seq (modify (upd_tf p (set_reg Rsp sp2))) (
     proc_freepagetable oldpt oldsz)))))))"

definition exec :: "'z kfs_scheme env \<Rightarrow> u8 list \<Rightarrow> u64 list \<Rightarrow> ('z kfs_scheme, int) op" where
  "exec E path argv =
     bind curproc (\<lambda>p.
     seq (begin_op E) (
     bind (namei E path) (\<lambda>oip.
     case oip of
       None \<Rightarrow> seq (end_op E) (ret (- 1))
     | Some ip \<Rightarrow>
         seq (ilock E (Some ip)) (
         bind (exec_read E p ip) (\<lambda>r.
         case r of
           Inl (pt, sz) \<Rightarrow>
             seq (bad_image pt sz) (seq (iunlockput E ip) (seq (end_op E) (ret (- 1))))
         | Inr (pt, sz, entry) \<Rightarrow>
             seq (iunlockput E ip) (
             seq (end_op E) (
             bind curproc (\<lambda>p.
             bind (gets (\<lambda>s. psz (procs s p))) (\<lambda>oldsz.
             bind (exec_stack pt sz argv) (\<lambda>r.
             case r of
               Inl sz \<Rightarrow> seq (bad_image pt sz) (ret (- 1))
             | Inr (sz, sp2, argc) \<Rightarrow>
                 seq (exec_commit p path pt sz entry sp2 oldsz) (
                 ret (int argc))))))))))))"

end
