(* ===== verification/Xv6_Sysfile.thy ===== *)
theory Xv6_Sysfile
  imports Xv6_Exec
begin

text \<open>
  \<^verbatim>\<open>kernel/sysfile.c\<close>: the system calls on files.  A system call returns the
  64-bit word that goes to register \<^verbatim>\<open>a0\<close>.
\<close>

definition O_RDONLY :: u32 where "O_RDONLY = 0x000"
definition O_WRONLY :: u32 where "O_WRONLY = 0x001"
definition O_RDWR :: u32 where "O_RDWR = 0x002"
definition O_CREATE :: u32 where "O_CREATE = 0x200"
definition O_TRUNC :: u32 where "O_TRUNC = 0x400"

section \<open>File descriptors\<close>

text \<open>\<open>None\<close> is the return of -1, \<open>Some (fd, f)\<close> the descriptor and its file.\<close>

definition argfd :: "nat \<Rightarrow> ('z kfile_scheme, (nat \<times> nat) option) op" where
  "argfd n =
     bind (argint n) (\<lambda>fd.
     if fd < 0 \<or> fd \<ge> int NOFILE then ret None
     else bind curproc (\<lambda>p.
       bind (gets (\<lambda>s. ofile (procs s p) (nat fd))) (\<lambda>f.
       ret (map_option (\<lambda>f. (nat fd, f)) f))))"

definition set_ofile :: "nat \<Rightarrow> nat \<Rightarrow> nat option \<Rightarrow> ('z kproc_scheme, unit) op" where
  "set_ofile p fd f = modify (upd_proc p (\<lambda>q. q\<lparr>ofile := (ofile q)(fd := f)\<rparr>))"

definition fdalloc :: "nat \<Rightarrow> ('z kfile_scheme, int) op" where
  "fdalloc f =
     bind curproc (\<lambda>p.
     bind (scan [0..<NOFILE] (\<lambda>fd.
       bind (gets (\<lambda>s. ofile (procs s p) fd)) (\<lambda>g.
       if g = None then seq (set_ofile p fd (Some f)) (ret (Some (int fd)))
       else ret None))) (\<lambda>r.
     case r of Some fd \<Rightarrow> ret fd | None \<Rightarrow> ret (- 1)))"

definition sys_dup :: "('z kfile_scheme, u64) op" where
  "sys_dup =
     bind (argfd 0) (\<lambda>r.
     case r of
       None \<Rightarrow> ret (- 1)
     | Some (_, f) \<Rightarrow>
         bind (fdalloc f) (\<lambda>fd.
         if fd < 0 then ret (- 1)
         else bind (filedup f) (\<lambda>_. ret (word_of_int fd))))"

definition sys_read :: "'z kfile_scheme env \<Rightarrow> ('z kfile_scheme, u64) op" where
  "sys_read E =
     bind (argaddr 1) (\<lambda>p.
     bind (argint 2) (\<lambda>n.
     bind (argfd 0) (\<lambda>r.
     case r of
       None \<Rightarrow> ret (- 1)
     | Some (_, f) \<Rightarrow> bind (fileread E f p n) (\<lambda>k. ret (word_of_int k)))))"

definition sys_write :: "'z kfile_scheme env \<Rightarrow> ('z kfile_scheme, u64) op" where
  "sys_write E =
     bind (argaddr 1) (\<lambda>p.
     bind (argint 2) (\<lambda>n.
     bind (argfd 0) (\<lambda>r.
     case r of
       None \<Rightarrow> ret (- 1)
     | Some (_, f) \<Rightarrow> bind (filewrite E f p n) (\<lambda>k. ret (word_of_int k)))))"

definition sys_close :: "'z kfile_scheme env \<Rightarrow> ('z kfile_scheme, u64) op" where
  "sys_close E =
     bind (argfd 0) (\<lambda>r.
     case r of
       None \<Rightarrow> ret (- 1)
     | Some (fd, f) \<Rightarrow>
         seq (bind curproc (\<lambda>p. set_ofile p fd None)) (
         seq (fileclose E f) (
         ret 0)))"

definition sys_fstat :: "'z kfile_scheme env \<Rightarrow> ('z kfile_scheme, u64) op" where
  "sys_fstat E =
     bind (argaddr 1) (\<lambda>st.
     bind (argfd 0) (\<lambda>r.
     case r of
       None \<Rightarrow> ret (- 1)
     | Some (_, f) \<Rightarrow> bind (filestat E f st) (\<lambda>k. ret (word_of_int k))))"

section \<open>Links\<close>

definition add_nlink :: "nat \<Rightarrow> u16 \<Rightarrow> ('z kfs_scheme, unit) op" where
  "add_nlink ip k = modify (upd_inode ip (\<lambda>q. q\<lparr>i_nlink := i_nlink q + k\<rparr>))"

definition link_bad :: "'z kfs_scheme env \<Rightarrow> nat \<Rightarrow> ('z kfs_scheme, u64) op" where
  "link_bad E ip =
     seq (ilock E (Some ip)) (
     seq (add_nlink ip (- 1)) (
     seq (iupdate E ip) (
     seq (iunlockput E ip) (
     seq (end_op E) (
     ret (- 1))))))"

definition sys_link :: "'z kfs_scheme env \<Rightarrow> ('z kfs_scheme, u64) op" where
  "sys_link E =
     bind (argstr 0 MAXPATH) (\<lambda>(old, r).
     if r < 0 then ret (- 1)
     else bind (argstr 1 MAXPATH) (\<lambda>(new, r).
       if r < 0 then ret (- 1)
       else
         seq (begin_op E) (
         bind (namei E old) (\<lambda>oip.
         case oip of
           None \<Rightarrow> seq (end_op E) (ret (- 1))
         | Some ip \<Rightarrow>
             seq (ilock E (Some ip)) (
             bind (gets (\<lambda>s. i_type (inodes s ip))) (\<lambda>t.
             if t = T_DIR then seq (iunlockput E ip) (seq (end_op E) (ret (- 1)))
             else
               seq (add_nlink ip 1) (
               seq (iupdate E ip) (
               seq (iunlock (Some ip)) (
               bind (nameiparent E new) (\<lambda>r.
               case r of
                 None \<Rightarrow> link_bad E ip
               | Some (dp, name) \<Rightarrow>
                   seq (ilock E (Some dp)) (
                   bind (gets (\<lambda>s. i_dev (inodes s dp) \<noteq> i_dev (inodes s ip))) (\<lambda>otherdev.
                   bind (if otherdev then ret (- 1)
                         else bind (gets (\<lambda>s. i_inum (inodes s ip))) (\<lambda>inum. dirlink E dp name inum)) (\<lambda>r.
                   if r < 0 then seq (iunlockput E dp) (link_bad E ip)
                   else
                     seq (iunlockput E dp) (
                     seq (iput E ip) (
                     seq (end_op E) (
                     ret 0))))))))))))))))"

definition isdirempty :: "'z kfs_scheme env \<Rightarrow> nat \<Rightarrow> ('z kfs_scheme, bool) op" where
  "isdirempty E dp =
     bind (gets (\<lambda>s. unat (i_size (inodes s dp)))) (\<lambda>sz.
     bind (scan (drop 2 (steps dirent_size sz)) (\<lambda>off.
       bind (read_dirent E dp off ''isdirempty: readi'') (\<lambda>de.
       ret (if de_inum de \<noteq> 0 then Some () else None)))) (\<lambda>r.
     ret (r = None)))"

definition unlink_bad :: "'z kfs_scheme env \<Rightarrow> nat \<Rightarrow> ('z kfs_scheme, u64) op" where
  "unlink_bad E dp = seq (iunlockput E dp) (seq (end_op E) (ret (- 1)))"

definition DOT :: u8 where "DOT = 46"

definition sys_unlink :: "'z kfs_scheme env \<Rightarrow> ('z kfs_scheme, u64) op" where
  "sys_unlink E =
     bind (argstr 0 MAXPATH) (\<lambda>(path, r).
     if r < 0 then ret (- 1)
     else
       seq (begin_op E) (
       bind (nameiparent E path) (\<lambda>r.
       case r of
         None \<Rightarrow> seq (end_op E) (ret (- 1))
       | Some (dp, name) \<Rightarrow>
           seq (ilock E (Some dp)) (
           if namecmp name [DOT] = 0 \<or> namecmp name [DOT, DOT] = 0 then unlink_bad E dp
           else bind (dirlookup E dp name) (\<lambda>r.
             case r of
               None \<Rightarrow> unlink_bad E dp
             | Some (ip, off) \<Rightarrow>
                 seq (ilock E (Some ip)) (
                 bind (gets (\<lambda>s. inodes s ip)) (\<lambda>q.
                 seq (do_if (sint (i_nlink q) < 1) (panic ''unlink: nlink < 1'')) (
                 bind (if i_type q = T_DIR then isdirempty E ip else ret True) (\<lambda>empty.
                 if \<not> empty then seq (iunlockput E ip) (unlink_bad E dp)
                 else
                   bind (writei E dp (KernSrc (replicate dirent_size 0)) (of_nat off) (of_nat dirent_size)) (\<lambda>r.
                   seq (do_if (r \<noteq> int dirent_size) (panic ''unlink: writei'')) (
                   seq (do_if (i_type q = T_DIR) (
                     seq (add_nlink dp (- 1)) (
                     iupdate E dp))) (
                   seq (iunlockput E dp) (
                   seq (add_nlink ip (- 1)) (
                   seq (iupdate E ip) (
                   seq (iunlockput E ip) (
                   seq (end_op E) (
                   ret 0)))))))))))))))))"

section \<open>Creating and opening\<close>

definition create_fail :: "'z kfs_scheme env \<Rightarrow> nat \<Rightarrow> nat \<Rightarrow> ('z kfs_scheme, nat option) op" where
  "create_fail E ip dp =
     seq (modify (upd_inode ip (\<lambda>q. q\<lparr>i_nlink := 0\<rparr>))) (
     seq (iupdate E ip) (
     seq (iunlockput E ip) (
     seq (iunlockput E dp) (
     ret None))))"

text \<open>The entries a new directory starts with; negative when one cannot be made.\<close>

definition link_dots :: "'z kfs_scheme env \<Rightarrow> nat \<Rightarrow> nat \<Rightarrow> ('z kfs_scheme, int) op" where
  "link_dots E ip dp =
     bind (gets (\<lambda>s. i_inum (inodes s ip))) (\<lambda>inum.
     bind (dirlink E ip [DOT] inum) (\<lambda>r.
     if r < 0 then ret (- 1)
     else bind (gets (\<lambda>s. i_inum (inodes s dp))) (\<lambda>inum. dirlink E ip [DOT, DOT] inum)))"

definition create :: "'z kfs_scheme env \<Rightarrow> u8 list \<Rightarrow> u16 \<Rightarrow> u16 \<Rightarrow> u16 \<Rightarrow> ('z kfs_scheme, nat option) op" where
  "create E path type major minor =
     bind (nameiparent E path) (\<lambda>r.
     case r of
       None \<Rightarrow> ret None
     | Some (dp, name) \<Rightarrow>
         seq (ilock E (Some dp)) (
         bind (dirlookup E dp name) (\<lambda>r.
         case r of
           Some (ip, _) \<Rightarrow>
             seq (iunlockput E dp) (
             seq (ilock E (Some ip)) (
             bind (gets (\<lambda>s. i_type (inodes s ip))) (\<lambda>t.
             if type = T_FILE \<and> (t = T_FILE \<or> t = T_DEVICE) then ret (Some ip)
             else seq (iunlockput E ip) (ret None))))
         | None \<Rightarrow>
             bind (bind (gets (\<lambda>s. i_dev (inodes s dp))) (\<lambda>dev. ialloc E dev type)) (\<lambda>r.
             case r of
               None \<Rightarrow> seq (iunlockput E dp) (ret None)
             | Some ip \<Rightarrow>
                 seq (ilock E (Some ip)) (
                 seq (modify (upd_inode ip (\<lambda>q. q\<lparr>i_major := major, i_minor := minor, i_nlink := 1\<rparr>))) (
                 seq (iupdate E ip) (
                 bind (if type = T_DIR then link_dots E ip dp else ret 0) (\<lambda>r.
                 if r < 0 then create_fail E ip dp
                 else
                   bind (bind (gets (\<lambda>s. i_inum (inodes s ip))) (\<lambda>inum. dirlink E dp name inum)) (\<lambda>r.
                   if r < 0 then create_fail E ip dp
                   else
                     seq (do_if (type = T_DIR) (
                       seq (add_nlink dp 1) (
                       iupdate E dp))) (
                     seq (iunlockput E dp) (
                     ret (Some ip))))))))))))"

definition flag_set :: "int \<Rightarrow> u32 \<Rightarrow> bool" where
  "flag_set omode f \<longleftrightarrow> (word_of_int omode :: u32) AND f \<noteq> 0"

text \<open>The locked inode \<^verbatim>\<open>sys_open\<close> works on; \<open>None\<close> after an error.\<close>

definition open_inode :: "'z kfs_scheme env \<Rightarrow> u8 list \<Rightarrow> int \<Rightarrow> ('z kfs_scheme, nat option) op" where
  "open_inode E path omode =
     (if flag_set omode O_CREATE then create E path T_FILE 0 0
      else bind (namei E path) (\<lambda>r.
        case r of
          None \<Rightarrow> ret None
        | Some ip \<Rightarrow>
            seq (ilock E (Some ip)) (
            bind (gets (\<lambda>s. i_type (inodes s ip))) (\<lambda>t.
            if t = T_DIR \<and> word_of_int omode \<noteq> O_RDONLY then seq (iunlockput E ip) (ret None)
            else ret (Some ip)))))"

definition setup_file :: "nat \<Rightarrow> nat \<Rightarrow> inode \<Rightarrow> int \<Rightarrow> ('z kfile_scheme, unit) op" where
  "setup_file f ip q omode =
     seq (if i_type q = T_DEVICE
          then modify (upd_file f (\<lambda>k. k\<lparr>f_type := FD_DEVICE, f_major := i_major q\<rparr>))
          else modify (upd_file f (\<lambda>k. k\<lparr>f_type := FD_INODE, f_off := 0\<rparr>))) (
     modify (upd_file f (\<lambda>k. k\<lparr>f_ip := Some ip, f_readable := \<not> flag_set omode O_WRONLY,
       f_writable := flag_set omode O_WRONLY \<or> flag_set omode O_RDWR\<rparr>)))"

definition sys_open :: "'z kfile_scheme env \<Rightarrow> ('z kfile_scheme, u64) op" where
  "sys_open E =
     bind (argint 1) (\<lambda>omode.
     bind (argstr 0 MAXPATH) (\<lambda>(path, n).
     if n < 0 then ret (- 1)
     else
       seq (begin_op E) (
       bind (open_inode E path omode) (\<lambda>r.
       case r of
         None \<Rightarrow> seq (end_op E) (ret (- 1))
       | Some ip \<Rightarrow>
           bind (gets (\<lambda>s. inodes s ip)) (\<lambda>q.
           if i_type q = T_DEVICE \<and> \<not> dev_valid (i_major q)
           then seq (iunlockput E ip) (seq (end_op E) (ret (- 1)))
           else
             bind filealloc (\<lambda>ofl.
             bind (case ofl of None \<Rightarrow> ret (- 1) | Some f \<Rightarrow> fdalloc f) (\<lambda>fd.
             case ofl of
               None \<Rightarrow> seq (iunlockput E ip) (seq (end_op E) (ret (- 1)))
             | Some f \<Rightarrow>
                 if fd < 0
                 then seq (fileclose E f) (seq (iunlockput E ip) (seq (end_op E) (ret (- 1))))
                 else
                   seq (setup_file f ip q omode) (
                   seq (do_if (flag_set omode O_TRUNC \<and> i_type q = T_FILE) (itrunc E ip)) (
                   seq (iunlock (Some ip)) (
                   seq (end_op E) (
                   ret (word_of_int fd))))))))))))"

definition sys_mkdir :: "'z kfs_scheme env \<Rightarrow> ('z kfs_scheme, u64) op" where
  "sys_mkdir E =
     seq (begin_op E) (
     bind (argstr 0 MAXPATH) (\<lambda>(path, r).
     bind (if r < 0 then ret None else create E path T_DIR 0 0) (\<lambda>oip.
     case oip of
       None \<Rightarrow> seq (end_op E) (ret (- 1))
     | Some ip \<Rightarrow> seq (iunlockput E ip) (seq (end_op E) (ret 0)))))"

definition sys_mknod :: "'z kfs_scheme env \<Rightarrow> ('z kfs_scheme, u64) op" where
  "sys_mknod E =
     seq (begin_op E) (
     bind (argint 1) (\<lambda>major.
     bind (argint 2) (\<lambda>minor.
     bind (argstr 0 MAXPATH) (\<lambda>(path, r).
     bind (if r < 0 then ret None
           else create E path T_DEVICE (word_of_int major) (word_of_int minor)) (\<lambda>oip.
     case oip of
       None \<Rightarrow> seq (end_op E) (ret (- 1))
     | Some ip \<Rightarrow> seq (iunlockput E ip) (seq (end_op E) (ret 0)))))))"

definition sys_chdir :: "'z kfs_scheme env \<Rightarrow> ('z kfs_scheme, u64) op" where
  "sys_chdir E =
     bind curproc (\<lambda>p.
     seq (begin_op E) (
     bind (argstr 0 MAXPATH) (\<lambda>(path, r).
     bind (if r < 0 then ret None else namei E path) (\<lambda>oip.
     case oip of
       None \<Rightarrow> seq (end_op E) (ret (- 1))
     | Some ip \<Rightarrow>
         seq (ilock E (Some ip)) (
         bind (gets (\<lambda>s. i_type (inodes s ip))) (\<lambda>t.
         if t \<noteq> T_DIR then seq (iunlockput E ip) (seq (end_op E) (ret (- 1)))
         else
           seq (iunlock (Some ip)) (
           seq (bind (gets (\<lambda>s. cwd (procs s p))) (\<lambda>d. bind (the_ip d) (iput E))) (
           seq (end_op E) (
           seq (modify (upd_proc p (\<lambda>q. q\<lparr>cwd := Some ip\<rparr>))) (
           ret 0))))))))))"

section \<open>exec and pipe\<close>

text \<open>
  The argument vector: \<open>Inr\<close> after a \<^verbatim>\<open>break\<close>, with the pages; \<open>Inl\<close> when all
  slots are used, and \<open>Inr (pages, False)\<close> for the other jumps to \<^verbatim>\<open>bad\<close>.
\<close>

definition fetch_args :: "u64 \<Rightarrow> ('z kproc_scheme, u64 list + (u64 list \<times> bool)) op" where
  "fetch_args uargv =
     loop_op [0..<MAXARG] (\<lambda>i pages.
       bind (fetchaddr (uargv + 8 * of_nat i)) (\<lambda>(uarg, r).
       if r < 0 then ret (Inr (pages, False))
       else if uarg = 0 then ret (Inr (pages, True))
       else bind kalloc (\<lambda>pg.
         if pg = 0 then ret (Inr (pages, False))
         else bind (fetchstr uarg (unat PGSIZE)) (\<lambda>(bs, r).
           if r < 0
           then seq (modify (\<lambda>s. s\<lparr>mem := store_bytes (mem s) pg bs\<rparr>)) (ret (Inr (pages @ [pg], False)))
           else seq (modify (\<lambda>s. s\<lparr>mem := store_bytes (mem s) pg (bs @ [0])\<rparr>)) (ret (Inl (pages @ [pg]))))))) []"

definition sys_exec :: "'z kfs_scheme env \<Rightarrow> ('z kfs_scheme, u64) op" where
  "sys_exec E =
     bind (argaddr 1) (\<lambda>uargv.
     bind (argstr 0 MAXPATH) (\<lambda>(path, r).
     if r < 0 then ret (- 1)
     else bind (fetch_args uargv) (\<lambda>r.
       case r of
         Inr (pages, True) \<Rightarrow>
           bind (exec E path pages) (\<lambda>k.
           seq (for_each pages kfree) (
           ret (word_of_int k)))
       | Inr (pages, False) \<Rightarrow> seq (for_each pages kfree) (ret (- 1))
       | Inl pages \<Rightarrow> seq (for_each pages kfree) (ret (- 1)))))"

definition sys_pipe :: "'z kfile_scheme env \<Rightarrow> ('z kfile_scheme, u64) op" where
  "sys_pipe E =
     bind curproc (\<lambda>p.
     bind (argaddr 0) (\<lambda>fdarray.
     bind (pipealloc E) (\<lambda>r.
     case r of
       None \<Rightarrow> ret (- 1)
     | Some (rfl, wfl) \<Rightarrow>
         bind (fdalloc rfl) (\<lambda>fd0.
         bind (if fd0 < 0 then ret (- 1) else fdalloc wfl) (\<lambda>fd1.
         if fd0 < 0 \<or> fd1 < 0 then
           seq (do_if (fd0 \<ge> 0) (set_ofile p (nat fd0) None)) (
           seq (fileclose E rfl) (
           seq (fileclose E wfl) (
           ret (- 1))))
         else
           bind (gets (\<lambda>s. pagetable (procs s p))) (\<lambda>pt.
           bind (copyout pt fdarray (int_bytes fd0)) (\<lambda>r.
           bind (if r < 0 then ret (- 1) else copyout pt (fdarray + 4) (int_bytes fd1)) (\<lambda>r.
           if r < 0 then
             seq (set_ofile p (nat fd0) None) (
             seq (set_ofile p (nat fd1) None) (
             seq (fileclose E rfl) (
             seq (fileclose E wfl) (
             ret (- 1)))))
           else ret 0))))))))"

end
