(* ===== verification/Xv6_Sched.thy ===== *)
theory Xv6_Sched
  imports Xv6_Proc
begin

text \<open>
  The lottery scheduler of \<^verbatim>\<open>kernel/proc.c\<close> and the two system calls that belong to
  it, \<^verbatim>\<open>settickets\<close> and \<^verbatim>\<open>getpinfo\<close>.  The endless loop of
  \<^verbatim>\<open>scheduler()\<close> is given by its round; \<open>run p\<close> is the parameter for
  \<^verbatim>\<open>swtch(&c->context, &p->context)\<close>, the execution of process \<open>p\<close> until it
  switches back.
\<close>

section \<open>Definitions\<close>

definition get_total_runnable_tickets :: "('z kproc_scheme, int) op" where
  "get_total_runnable_tickets =
     fold_op [0..<NPROC] (\<lambda>p total.
       seq (acquire (ProcLock p)) (
       bind (gets (\<lambda>s. procs s p)) (\<lambda>q.
       let total = (if state q = RUNNABLE then i32 (total + current_tickets q) else total) in
       seq (release (ProcLock p)) (
       ret total)))) 0"

definition reset_tickets :: "('z kproc_scheme, unit) op" where
  "reset_tickets =
     for_each [0..<NPROC] (\<lambda>p.
       seq (acquire (ProcLock p)) (
       seq (modify (upd_proc p (\<lambda>q.
         if state q = RUNNABLE then q\<lparr>current_tickets := initial_tickets q\<rparr> else q))) (
       release (ProcLock p))))"

definition draw :: "int \<Rightarrow> int \<Rightarrow> ('z kproc_scheme, int) op" where
  "draw lo hi s = (let (r, g) = randomrange lo hi (rng_state s) in Ok r (s\<lparr>rng_state := g\<rparr>))"

text \<open>
  The search for the winner.  The loop variable \<^verbatim>\<open>p\<close> is used after the loop: when no
  process wins it is one past the end of the table.
\<close>

definition find_winner :: "int \<Rightarrow> ('z kproc_scheme, nat) op" where
  "find_winner random_number =
     bind (loop_op [0..<NPROC] (\<lambda>p count.
       seq (acquire (ProcLock p)) (
       bind (gets (\<lambda>s. procs s p)) (\<lambda>q.
       if state q = RUNNABLE then
         let count = i32 (count + current_tickets q) in
         if count > random_number then seq (release (ProcLock p)) (ret (Inr p))
         else seq (release (ProcLock p)) (ret (Inl count))
       else seq (release (ProcLock p)) (ret (Inl count))))) 0) (\<lambda>r.
     case r of Inr p \<Rightarrow> ret p | Inl _ \<Rightarrow> ret NPROC)"

definition run_winner :: "(nat \<Rightarrow> ('z kproc_scheme, unit) op) \<Rightarrow> nat \<Rightarrow> ('z kproc_scheme, unit) op" where
  "run_winner run p =
     (if p \<ge> NPROC then fault ''proc[NPROC]''
      else
        seq (acquire (ProcLock p)) (
        bind (gets (\<lambda>s. state (procs s p))) (\<lambda>st.
        seq (do_if (st = RUNNABLE) (
          seq (modify (upd_proc p (\<lambda>q. q\<lparr>current_tickets := i32 (current_tickets q - 1)\<rparr>))) (
          seq (modify (upd_proc p (\<lambda>q. q\<lparr>ticks_used := i32 (ticks_used q + 1)\<rparr>))) (
          seq (modify (upd_proc p (\<lambda>q. q\<lparr>state := RUNNING\<rparr>))) (
          seq (modify (upd_mycpu (\<lambda>c. c\<lparr>cproc := Some p\<rparr>))) (
          seq (run p) (
          modify (upd_mycpu (\<lambda>c. c\<lparr>cproc := None\<rparr>))))))))) (
        release (ProcLock p)))))"

definition scheduler_init :: "('z kproc_scheme, unit) op" where
  "scheduler_init =
     seq (acquire (ProcLock 0)) (
     seq (modify (upd_proc 0 (\<lambda>q. q\<lparr>initial_tickets := 1, current_tickets := 1, ticks_used := 0\<rparr>))) (
     seq (release (ProcLock 0)) (
     modify (upd_mycpu (\<lambda>c. c\<lparr>cproc := None\<rparr>)))))"

definition scheduler_round :: "(nat \<Rightarrow> ('z kproc_scheme, unit) op) \<Rightarrow> ('z kproc_scheme, unit) op" where
  "scheduler_round run =
     seq intr_on (
     bind get_total_runnable_tickets (\<lambda>total.
     seq (do_if (total = 0) reset_tickets) (
     bind get_total_runnable_tickets (\<lambda>total.
     bind (draw 0 total) (\<lambda>random_number.
     bind (find_winner random_number) (run_winner run))))))"

text \<open>The first \<open>n\<close> rounds of \<^verbatim>\<open>scheduler()\<close>.\<close>

definition scheduler :: "nat \<Rightarrow> (nat \<Rightarrow> ('z kproc_scheme, unit) op) \<Rightarrow> ('z kproc_scheme, unit) op" where
  "scheduler n run = seq scheduler_init (repeat_op n (scheduler_round run))"

definition settickets :: "int \<Rightarrow> ('z kproc_scheme, int) op" where
  "settickets tickets =
     (if tickets < 1 then ret (- 1)
      else
        bind curproc (\<lambda>me.
        bind (gets (\<lambda>s. pid (procs s me))) (\<lambda>i.
        seq (acquire (ProcLock me)) (
        bind (scan [0..<NPROC] (\<lambda>p.
          bind (gets (\<lambda>s. pid (procs s p))) (\<lambda>k.
          if k = i then
            seq (modify (upd_proc p (\<lambda>q. q\<lparr>initial_tickets := tickets\<rparr>))) (
            seq (release (ProcLock p)) (
            ret (Some 0)))
          else ret None))) (\<lambda>r.
        case r of Some v \<Rightarrow> ret v | None \<Rightarrow> fault ''proc[NPROC]'')))))"

record pstat =
  ps_pid :: "int list"
  ps_inuse :: "int list"
  ps_tickets_original :: "int list"
  ps_tickets_current :: "int list"
  ps_time_slices :: "int list"

definition pstat_bytes :: "pstat \<Rightarrow> u8 list" where
  "pstat_bytes t = concat (map int_bytes
     (ps_pid t @ ps_inuse t @ ps_tickets_original t @ ps_tickets_current t @ ps_time_slices t))"

definition getpinfo :: "u64 \<Rightarrow> ('z kproc_scheme, int) op" where
  "getpinfo pst =
     bind (fold_op [0..<NPROC] (\<lambda>p temp.
       seq (acquire (ProcLock p)) (
       bind (gets (\<lambda>s. procs s p)) (\<lambda>q.
       let temp = temp\<lparr>ps_inuse := ps_inuse temp @ [if state q = UNUSED then 0 else 1],
             ps_pid := ps_pid temp @ [pid q],
             ps_tickets_original := ps_tickets_original temp @ [initial_tickets q],
             ps_tickets_current := ps_tickets_current temp @ [current_tickets q],
             ps_time_slices := ps_time_slices temp @ [ticks_used q]\<rparr> in
       seq (release (ProcLock p)) (
       ret temp))))
       \<lparr>ps_pid = [], ps_inuse = [], ps_tickets_original = [], ps_tickets_current = [], ps_time_slices = []\<rparr>) (\<lambda>temp.
     bind curproc (\<lambda>me.
     bind (gets (\<lambda>s. pagetable (procs s me))) (\<lambda>pt.
     copyout pt pst (pstat_bytes temp))))"

section \<open>The lottery\<close>

definition tickets_of :: "proc \<Rightarrow> int" where
  "tickets_of q = (if state q = RUNNABLE then current_tickets q else 0)"

definition upto_sum :: "(nat \<Rightarrow> proc) \<Rightarrow> nat \<Rightarrow> int" where
  "upto_sum ps n = (\<Sum>p < n. tickets_of (ps p))"

definition total_tickets :: "(nat \<Rightarrow> proc) \<Rightarrow> int" where
  "total_tickets ps = upto_sum ps NPROC"

text \<open>No negative ticket count, and the total fits an \<^verbatim>\<open>int\<close>.\<close>

definition tickets_ok :: "(nat \<Rightarrow> proc) \<Rightarrow> bool" where
  "tickets_ok ps \<longleftrightarrow> (\<forall>p < NPROC. 0 \<le> tickets_of (ps p)) \<and> total_tickets ps < 2 ^ 31"

lemma upto_sum_Suc: "upto_sum ps (Suc n) = upto_sum ps n + tickets_of (ps n)"
  by (simp add: upto_sum_def)

lemma upto_sum_mono:
  assumes "tickets_ok ps" "m \<le> n" "n \<le> NPROC"
  shows "upto_sum ps m \<le> upto_sum ps n"
  unfolding upto_sum_def by (rule sum_mono2) (use assms in \<open>auto simp: tickets_ok_def\<close>)

lemma upto_sum_range:
  assumes "tickets_ok ps" "n \<le> NPROC"
  shows "0 \<le> upto_sum ps n" "upto_sum ps n \<le> total_tickets ps" "upto_sum ps n < 2 ^ 31"
proof -
  show "0 \<le> upto_sum ps n" unfolding upto_sum_def
    by (rule sum_nonneg) (use assms in \<open>auto simp: tickets_ok_def\<close>)
  show le: "upto_sum ps n \<le> total_tickets ps"
    unfolding total_tickets_def using upto_sum_mono [OF assms(1) assms(2)] by simp
  then show "upto_sum ps n < 2 ^ 31" using assms(1) by (simp add: tickets_ok_def)
qed

lemma total_eq:
  assumes "plocks_ok s" "tickets_ok (procs s)"
  shows "get_total_runnable_tickets s = Ok (total_tickets (procs s)) s"
proof -
  let ?f = "\<lambda>p total. if state (procs s p) = RUNNABLE then i32 (total + current_tickets (procs s p)) else total"
  have "get_total_runnable_tickets s = Ok (fold ?f [0..<NPROC] 0) s"
    unfolding get_total_runnable_tickets_def
    by (rule fold_op_pure) (use locked_read [OF assms(1)] in \<open>simp add: op_simps Let_def\<close>)
  moreover have "fold ?f [0..<n] 0 = upto_sum (procs s) n" if "n \<le> NPROC" for n
    using that
  proof (induction n)
    case (Suc n)
    have "i32 (upto_sum (procs s) (Suc n)) = upto_sum (procs s) (Suc n)"
      using upto_sum_range [OF assms(2) Suc.prems] by simp
    then show ?case using Suc by (auto simp: upto_sum_Suc tickets_of_def)
  qed (simp add: upto_sum_def)
  ultimately show ?thesis by (simp add: total_tickets_def)
qed

text \<open>The loop stops at the first process whose cumulative count exceeds the draw.\<close>

primrec winner_from :: "(nat \<Rightarrow> proc) \<Rightarrow> int \<Rightarrow> nat list \<Rightarrow> nat" where
  "winner_from ps r [] = NPROC"
| "winner_from ps r (p # is) =
     (if state (ps p) = RUNNABLE \<and> r < upto_sum ps (Suc p) then p else winner_from ps r is)"

lemma find_winner_eq:
  assumes "plocks_ok s" "tickets_ok (procs s)"
  shows "find_winner r s = Ok (winner_from (procs s) r [0..<NPROC]) s"
proof -
  let ?body = "\<lambda>p count. seq (acquire (ProcLock p)) (
       bind (gets (\<lambda>s. procs s p)) (\<lambda>q.
       if state q = RUNNABLE then
         let count = i32 (count + current_tickets q) in
         if count > r then seq (release (ProcLock p)) (ret (Inr p))
         else seq (release (ProcLock p)) (ret (Inl count))
       else seq (release (ProcLock p)) (ret (Inl count))))"
  have "\<exists>c. loop_op [k..<NPROC] ?body (upto_sum (procs s) k) s =
      Ok (let w = winner_from (procs s) r [k..<NPROC] in if w = NPROC then Inl c else Inr w) s"
    if "k \<le> NPROC" for k
    using that
  proof (induction "NPROC - k" arbitrary: k)
    case 0
    then show ?case by simp
  next
    case (Suc n)
    then have k: "k < NPROC" by simp
    have IH: "\<exists>c. loop_op [Suc k..<NPROC] ?body (upto_sum (procs s) (Suc k)) s =
      Ok (let w = winner_from (procs s) r [Suc k..<NPROC] in if w = NPROC then Inl c else Inr w) s"
      using Suc by simp
    have i: "i32 (upto_sum (procs s) k + current_tickets (procs s k)) = upto_sum (procs s) (Suc k)"
      if "state (procs s k) = RUNNABLE"
      using upto_sum_range [OF assms(2), of "Suc k"] k that by (simp add: upto_sum_Suc tickets_of_def)
    have same: "upto_sum (procs s) (Suc k) = upto_sum (procs s) k" if "state (procs s k) \<noteq> RUNNABLE"
      using that by (simp add: upto_sum_Suc tickets_of_def)
    show ?case
    proof (cases "state (procs s k) = RUNNABLE \<and> r < upto_sum (procs s) (Suc k)")
      case True
      then show ?thesis using k i locked_read [OF assms(1) k]
        by (simp add: upt_conv_Cons op_simps Let_def)
    next
      case False
      then have w: "winner_from (procs s) r [k..<NPROC] = winner_from (procs s) r [Suc k..<NPROC]"
        using k by (auto simp: upt_conv_Cons)
      have "loop_op [k..<NPROC] ?body (upto_sum (procs s) k) s =
          loop_op [Suc k..<NPROC] ?body (upto_sum (procs s) (Suc k)) s"
        using False k i same locked_read [OF assms(1) k]
        by (auto simp: upt_conv_Cons op_simps Let_def)
      then show ?thesis using IH w by simp
    qed
  qed
  from this [of 0] obtain c where "loop_op [0..<NPROC] ?body 0 s =
      Ok (let w = winner_from (procs s) r [0..<NPROC] in if w = NPROC then Inl c else Inr w) s"
    by (auto simp: upto_sum_def)
  then show ?thesis unfolding find_winner_def by (simp add: op_simps Let_def)
qed

text \<open>Process \<open>p\<close> wins exactly on the draws of its own segment.\<close>

lemma winner_from_cases:
  assumes "tickets_ok ps" "upto_sum ps k \<le> r" "k \<le> NPROC"
  shows "(winner_from ps r [k..<NPROC] = NPROC \<and> total_tickets ps \<le> r)
    \<or> (\<exists>w < NPROC. winner_from ps r [k..<NPROC] = w \<and> upto_sum ps w \<le> r \<and> r < upto_sum ps (Suc w))"
  using assms(2,3)
proof (induction "NPROC - k" arbitrary: k)
  case 0
  then show ?case by (simp add: total_tickets_def)
next
  case (Suc n)
  then have k: "k < NPROC" by simp
  show ?case
  proof (cases "r < upto_sum ps (Suc k)")
    case True
    then have "state (ps k) = RUNNABLE"
      using Suc.prems(1) by (auto simp: upto_sum_Suc tickets_of_def split: if_splits)
    then show ?thesis using True k Suc.prems(1) by (simp add: upt_conv_Cons)
  next
    case False
    then show ?thesis using Suc.hyps(1) [of "Suc k"] Suc.hyps(2) k by (simp add: upt_conv_Cons)
  qed
qed

lemma segment_unique:
  assumes "tickets_ok ps" "p < NPROC" "q < NPROC"
    and "upto_sum ps p \<le> r" "r < upto_sum ps (Suc p)" "upto_sum ps q \<le> r" "r < upto_sum ps (Suc q)"
  shows "p = q"
proof (rule ccontr)
  assume "p \<noteq> q"
  then consider "Suc p \<le> q" | "Suc q \<le> p" by linarith
  then show False
    using upto_sum_mono [OF assms(1), of "Suc p" q] upto_sum_mono [OF assms(1), of "Suc q" p] assms
    by cases linarith+
qed

lemma winner_segment:
  assumes "tickets_ok ps" "0 \<le> r" "p < NPROC"
  shows "winner_from ps r [0..<NPROC] = p \<longleftrightarrow> upto_sum ps p \<le> r \<and> r < upto_sum ps (Suc p)"
proof -
  have "upto_sum ps 0 \<le> r" using assms(2) by (simp add: upto_sum_def)
  from winner_from_cases [OF assms(1) this le0] show ?thesis
  proof (elim disjE)
    assume "winner_from ps r [0..<NPROC] = NPROC \<and> total_tickets ps \<le> r"
    then show ?thesis using assms upto_sum_range(2) [OF assms(1), of "Suc p"] by auto
  next
    assume "\<exists>w < NPROC. winner_from ps r [0..<NPROC] = w \<and> upto_sum ps w \<le> r \<and> r < upto_sum ps (Suc w)"
    then show ?thesis using assms(3) segment_unique [OF assms(1)] by blast
  qed
qed

lemma winner_none:
  assumes "tickets_ok ps" "0 \<le> r" "total_tickets ps \<le> r"
  shows "winner_from ps r [0..<NPROC] = NPROC"
proof -
  have "upto_sum ps 0 \<le> r" using assms(2) by (simp add: upto_sum_def)
  moreover have "\<not> r < upto_sum ps (Suc w)" if "w < NPROC" for w
    using upto_sum_range(2) [OF assms(1), of "Suc w"] that assms(3) by simp
  ultimately show ?thesis using winner_from_cases [OF assms(1), of 0 r] by auto
qed

section \<open>One round\<close>

text \<open>
  With no lock held, the first \<^verbatim>\<open>push_off\<close> overwrites \<^verbatim>\<open>intena\<close>; so its
  old value does not matter to code that starts by taking a lock.
\<close>

definition norm_intena :: "'z machine_scheme \<Rightarrow> 'z machine_scheme" where
  "norm_intena s = upd_mycpu (\<lambda>c. c\<lparr>intena := intr_get s\<rparr>) s"

lemma acquire_norm: "noff (mycpu s) = 0 \<Longrightarrow> acquire lk (norm_intena s) = acquire lk s"
proof -
  assume "noff (mycpu s) = 0"
  then have "push_off (norm_intena s) = push_off s"
    by (simp add: push_off_def norm_intena_def machine_defs op_simps)
  then show ?thesis by (simp add: acquire_def seq_apply)
qed

definition sched_ready :: "'z kproc_scheme \<Rightarrow> bool" where
  "sched_ready s \<longleftrightarrow> noff (mycpu s) = 0 \<and> (\<forall>p < NPROC. lock_free (ProcLock p) s)"

definition sched_start :: "'z kproc_scheme \<Rightarrow> 'z kproc_scheme" where
  "sched_start s = norm_intena (s\<lparr>sie := (sie s)(tp s := True)\<rparr>)"

lemma sched_start_ok:
  assumes "sched_ready s"
  shows "plocks_ok (sched_start s)" "procs (sched_start s) = procs s" "rng_state (sched_start s) = rng_state s"
  using assms by (auto simp: sched_ready_def plocks_ok_def sched_start_def norm_intena_def machine_defs
      cpu_ok_def lock_free_def)

definition renewed :: "proc \<Rightarrow> proc" where
  "renewed q = (if state q = RUNNABLE then q\<lparr>current_tickets := initial_tickets q\<rparr> else q)"

definition after_reset :: "(nat \<Rightarrow> proc) \<Rightarrow> nat \<Rightarrow> proc" where
  "after_reset ps = (if total_tickets ps = 0 then (\<lambda>p. if p < NPROC then renewed (ps p) else ps p) else ps)"

lemma reset_tickets_eq:
  assumes "plocks_ok s"
  shows "reset_tickets s = Ok () (map_procs (\<lambda>_. renewed) s)"
  unfolding reset_tickets_def
proof (rule for_each_upd_proc [OF assms refl])
  fix p and t :: "'a kproc_scheme"
  assume p: "p < NPROC" and t: "plocks_ok t"
  have "(\<lambda>q. if state q = RUNNABLE then q\<lparr>current_tickets := initial_tickets q\<rparr> else q) = renewed"
    by (simp add: renewed_def fun_eq_iff)
  then show "seq (acquire (ProcLock p)) (seq (modify (upd_proc p (\<lambda>q.
         if state q = RUNNABLE then q\<lparr>current_tickets := initial_tickets q\<rparr> else q))) (
       release (ProcLock p))) t = Ok () (upd_proc p renewed t)"
    using locked_update [OF t p] by simp
qed

text \<open>The round as a function: reset if nobody has a ticket, draw, find, run.\<close>

definition drawn :: "'z kproc_scheme \<Rightarrow> int" where
  "drawn s = fst (randomrange 0 (total_tickets (after_reset (procs s))) (rng_state s))"

definition before_run :: "'z kproc_scheme \<Rightarrow> 'z kproc_scheme" where
  "before_run s = (sched_start s)\<lparr>procs := after_reset (procs s), rng_state := snd (random (rng_state s))\<rparr>"

lemma total_acquire_norm:
  assumes "noff (mycpu s) = 0"
  shows "get_total_runnable_tickets (norm_intena s) = get_total_runnable_tickets s"
proof -
  have "[0..<NPROC] = 0 # [1..<NPROC]" by (simp add: NPROC_def upt_conv_Cons)
  then show ?thesis
    by (simp add: get_total_runnable_tickets_def bind_apply seq_apply acquire_norm [OF assms])
qed

lemma plocks_upd [simp]:
  "plocks_ok (s\<lparr>procs := ps\<rparr>) = plocks_ok s" "plocks_ok (s\<lparr>rng_state := g\<rparr>) = plocks_ok s"
  by (simp_all add: plocks_ok_def cpu_ok_def lock_free_def mycpu_def)

lemma round_eq:
  assumes r: "sched_ready s" and t: "tickets_ok (procs s)" "tickets_ok (after_reset (procs s))"
  shows "scheduler_round run s =
    run_winner run (winner_from (after_reset (procs s)) (drawn s) [0..<NPROC]) (before_run s)"
proof -
  let ?s0 = "s\<lparr>sie := (sie s)(tp s := True)\<rparr>" and ?s1 = "sched_start s"
  let ?s2 = "?s1\<lparr>procs := after_reset (procs s)\<rparr>"
  note ok = sched_start_ok [OF r]
  have n0: "noff (mycpu ?s0) = 0" using r by (simp add: sched_ready_def mycpu_def)
  have s0: "get_total_runnable_tickets ?s0 = Ok (total_tickets (procs s)) ?s1"
    using total_acquire_norm [OF n0] total_eq [OF ok(1)] t(1) ok(2) by (simp add: sched_start_def)
  have s2: "do_if (total_tickets (procs s) = 0) reset_tickets ?s1 = Ok () ?s2"
  proof (cases "total_tickets (procs s) = 0")
    case True
    then show ?thesis using reset_tickets_eq [OF ok(1)] by (simp add: after_reset_def map_procs_def ok(2) cong: if_cong)
  next
    case False
    then have "?s2 = ?s1\<lparr>procs := procs ?s1\<rparr>" by (simp only: after_reset_def ok(2) if_False)
    then show ?thesis using False by simp
  qed
  have "plocks_ok ?s2" using ok(1) by simp
  then have s3: "get_total_runnable_tickets ?s2 = Ok (total_tickets (after_reset (procs s))) ?s2"
    using total_eq [of ?s2] t(2) by simp
  have s4: "draw 0 (total_tickets (after_reset (procs s))) ?s2 = Ok (drawn s) (before_run s)"
    by (simp add: draw_def drawn_def before_run_def ok(3) randomrange_snd split: prod.split)
       (metis randomrange_snd snd_conv)
  have "plocks_ok (before_run s)" "procs (before_run s) = after_reset (procs s)"
    using ok(1) by (simp_all add: before_run_def)
  then have s5: "find_winner (drawn s) (before_run s) =
      Ok (winner_from (after_reset (procs s)) (drawn s) [0..<NPROC]) (before_run s)"
    using find_winner_eq [of "before_run s"] t(2) by simp
  show ?thesis unfolding scheduler_round_def
    by (simp add: seq_apply bind_apply intr_on_def s0 s2 s3 s4 s5)
qed

section \<open>Bounds of the draw, and the winner's accounting\<close>

lemma drawn_range:
  assumes "tickets_ok (after_reset (procs s))"
  shows "0 \<le> drawn s" "drawn s \<le> total_tickets (after_reset (procs s))"
  using randomrange_in [of 0 "total_tickets (after_reset (procs s))" "rng_state s"]
    upto_sum_range [OF assms, of NPROC]
  by (auto simp: drawn_def total_tickets_def)

definition charged :: "proc \<Rightarrow> proc" where
  "charged q = q\<lparr>current_tickets := i32 (current_tickets q - 1), ticks_used := i32 (ticks_used q + 1),
     state := RUNNING\<rparr>"

lemma run_winner_switch:
  assumes "plocks_ok s" "p < NPROC" "state (procs s p) = RUNNABLE"
  shows "run_winner (\<lambda>_. halt Swtch) p s =
    Stop Swtch (upd_mycpu (\<lambda>c. c\<lparr>cproc := Some p\<rparr>) (held (ProcLock p) (upd_proc p charged s)))"
proof -
  have "upd_proc p (\<lambda>q. q\<lparr>state := RUNNING\<rparr>) (upd_proc p (\<lambda>q. q\<lparr>ticks_used := i32 (ticks_used q + 1)\<rparr>)
      (upd_proc p (\<lambda>q. q\<lparr>current_tickets := i32 (current_tickets q - 1)\<rparr>) s)) = upd_proc p charged s"
    by (simp add: upd_proc_def charged_def)
  then show ?thesis using assms locked_read [OF assms(1,2)] by (simp add: run_winner_def op_simps)
qed

section \<open>settickets\<close>

lemma settickets_eq:
  assumes "plocks_ok s" "cproc (mycpu s) = Some p" "p < NPROC" "1 \<le> n"
    and "\<And>q. q < NPROC \<Longrightarrow> pid (procs s q) = pid (procs s p) \<Longrightarrow> q = p"
  shows "settickets n s = Ok 0 (upd_proc p (\<lambda>q. q\<lparr>initial_tickets := n\<rparr>) s)"
proof -
  let ?h = "held (ProcLock p) s"
  let ?body = "\<lambda>q. bind (gets (\<lambda>s. pid (procs s q))) (\<lambda>k.
          if k = pid (procs s p) then
            seq (modify (upd_proc q (\<lambda>q. q\<lparr>initial_tickets := n\<rparr>))) (
            seq (release (ProcLock q)) (
            ret (Some (0 :: int))))
          else ret None)"
  have rel: "release (ProcLock p) (held (ProcLock p) (upd_proc p f s)) = Ok () (upd_proc p f s)" for f
    using plocks_okD [OF assms(1)] assms(3) by (simp add: release_ok)
  have "scan [k..<NPROC] ?body ?h = Ok (Some 0) (upd_proc p (\<lambda>q. q\<lparr>initial_tickets := n\<rparr>) s)" if "k \<le> p" for k
    using that
  proof (induction "p - k" arbitrary: k)
    case 0
    then show ?case using assms(3) rel by (simp add: upt_conv_Cons op_simps)
  next
    case (Suc j)
    then have k: "k < p" "k < NPROC" using assms(3) by simp_all
    then have "pid (procs s k) \<noteq> pid (procs s p)" using assms(5) [of k] by auto
    then show ?case using Suc k by (simp add: upt_conv_Cons op_simps)
  qed
  from this [of 0] show ?thesis
    using assms(1,3,4) curproc_ok [OF plocks_okD(1) [OF assms(1)] assms(2)] locked_read(1) [OF assms(1,3)]
    by (simp add: settickets_def op_simps)
qed

section \<open>Properties\<close>

text \<open>
  C7. The lottery is proportional: for every process slot, the number of draws in
  \<open>[0, total)\<close> on which the search loop of \<^verbatim>\<open>scheduler()\<close> picks it is the number
  of tickets it holds (0 if it is not \<^verbatim>\<open>RUNNABLE\<close>).
\<close>

theorem lottery_proportional:
  assumes "plocks_ok s" "tickets_ok (procs s)" "p < NPROC"
  shows "card {r. 0 \<le> r \<and> r < total_tickets (procs s) \<and> find_winner r s = Ok p s} = nat (tickets_of (procs s p))"
proof -
  have "find_winner r s = Ok p s \<longleftrightarrow> upto_sum (procs s) p \<le> r \<and> r < upto_sum (procs s) (Suc p)" if "0 \<le> r" for r
    using winner_segment [OF assms(2) that assms(3)] by (simp add: find_winner_eq [OF assms(1,2)])
  then have "{r. 0 \<le> r \<and> r < total_tickets (procs s) \<and> find_winner r s = Ok p s} =
      {upto_sum (procs s) p ..< upto_sum (procs s) (Suc p)}"
    using upto_sum_range [OF assms(2), of p] upto_sum_range [OF assms(2), of "Suc p"] assms(3) by auto
  then show ?thesis by (simp add: upto_sum_Suc)
qed

definition demo_proc :: proc where
  "demo_proc = \<lparr>state = UNUSED, pchan = None, pkilled = 0, xstate = 0, pid = 0, initial_tickets = 0,
     current_tickets = 0, ticks_used = 0, parent = None, kstack = 0, psz = 0, pagetable = 0, trapframe_pa = 0,
     pcontext = \<lparr>ra = 0, sp = 0, sregs = []\<rparr>, ofile = (\<lambda>_. None), cwd = None, pname = []\<rparr>"

definition demo_kproc :: "(nat \<Rightarrow> proc) \<Rightarrow> kproc" where
  "demo_kproc ps = \<lparr>tp = 0, sie = (\<lambda>_. True),
     cpus = (\<lambda>_. \<lparr>cproc = None, ccontext = \<lparr>ra = 0, sp = 0, sregs = []\<rparr>, noff = 0, intena = True\<rparr>),
     locks = (\<lambda>_. \<lparr>locked = False, lname = [], lcpu = None\<rparr>),
     mem = (\<lambda>_. 0), sym_end = 0x80021000, sym_etext = 0x80008000, sym_trampoline = 0x80007000, freelist = 0,
     kernel_pagetable = 0, satp = (\<lambda>_. 0), procs = ps, initproc = Some 0, nextpid = 3,
     tframes = (\<lambda>_. \<lparr>kernel_satp = 0, kernel_sp = 0, kernel_trap = 0, epc = 0, kernel_hartid = 0, regs = (\<lambda>_. 0)\<rparr>),
     rng_state = rng_init, ticks = 0, sym_forkret = 0x80001000\<rparr>"

text \<open>Two runnable processes with 1 and 2 tickets; and the single process there is after boot.\<close>

definition demo_two :: "nat \<Rightarrow> proc" where
  "demo_two = (\<lambda>_. demo_proc)(
     0 := demo_proc\<lparr>state := RUNNABLE, pid := 1, initial_tickets := 1, current_tickets := 1\<rparr>,
     1 := demo_proc\<lparr>state := RUNNABLE, pid := 2, initial_tickets := 2, current_tickets := 2\<rparr>)"

definition demo_one :: "nat \<Rightarrow> proc" where
  "demo_one = (\<lambda>_. demo_proc)(
     0 := demo_proc\<lparr>state := RUNNABLE, pid := 1, initial_tickets := 1, current_tickets := 1\<rparr>)"

lemma demo_kproc_ok: "plocks_ok (demo_kproc ps)" "sched_ready (demo_kproc ps)" "procs (demo_kproc ps) = ps"
  by (simp_all add: demo_kproc_def plocks_ok_def sched_ready_def cpu_ok_def mycpu_def lock_free_def)

lemma NPROC_split: "{..<NPROC} = insert 0 (insert 1 {2..<NPROC})"
  by (auto simp: NPROC_def)

lemma demo_totals: "total_tickets demo_two = 3" "total_tickets demo_one = 1"
  unfolding total_tickets_def upto_sum_def NPROC_split
  by (simp_all add: demo_two_def demo_one_def demo_proc_def tickets_of_def)

lemma demo_tickets_ok: "tickets_ok demo_two" "tickets_ok demo_one"
  by (simp_all add: tickets_ok_def demo_totals) (simp_all add: demo_two_def demo_one_def demo_proc_def tickets_of_def)

lemma demo_reset: "after_reset demo_two = demo_two" "after_reset demo_one = demo_one"
  by (simp_all add: after_reset_def demo_totals)

lemma demo_drawn: "drawn (demo_kproc demo_two) = 1" "drawn (demo_kproc demo_one) = 1"
  by (simp_all add: drawn_def demo_kproc_ok demo_reset demo_totals)
     (simp_all add: demo_kproc_def rng_init_def randomrange_def random_def)

theorem lottery_proportional_witness:
  "card {r. 0 \<le> r \<and> r < total_tickets demo_two \<and> find_winner r (demo_kproc demo_two) = Ok 1 (demo_kproc demo_two)} = 2"
proof -
  have "nat (tickets_of (demo_two 1)) = 2" by (simp add: demo_two_def tickets_of_def)
  moreover have "1 < NPROC" by (simp add: NPROC_def)
  ultimately show ?thesis
    using lottery_proportional [OF demo_kproc_ok(1), of demo_two 1] by (simp add: demo_kproc_ok(3) demo_tickets_ok)
qed

text \<open>
  C8. A round of the scheduler runs the winner of its draw: if the draw is below the number of
  tickets, there is exactly one process whose ticket segment contains it; that process is made
  \<^verbatim>\<open>RUNNING\<close> on this CPU with its lock held, is charged one ticket (its count stays
  non-negative) and one time slice, and every other process is as it was after the reset of
  exhausted tickets.
\<close>

theorem scheduler_round_runs_winner:
  assumes "sched_ready s" "tickets_ok (procs s)" "tickets_ok (after_reset (procs s))"
    and "drawn s < total_tickets (after_reset (procs s))"
  shows "\<exists>!p. p < NPROC \<and> upto_sum (after_reset (procs s)) p \<le> drawn s
      \<and> drawn s < upto_sum (after_reset (procs s)) (Suc p)
      \<and> (\<exists>u. scheduler_round (\<lambda>_. halt Swtch) s = Stop Swtch u
          \<and> cproc (mycpu u) = Some p \<and> holding (ProcLock p) u
          \<and> procs u = (after_reset (procs s))(p := (after_reset (procs s) p)\<lparr>
              current_tickets := current_tickets (after_reset (procs s) p) - 1,
              ticks_used := i32 (ticks_used (after_reset (procs s) p) + 1), state := RUNNING\<rparr>)
          \<and> 0 \<le> current_tickets (procs u p))"
proof -
  let ?ps = "after_reset (procs s)"
  have "upto_sum ?ps 0 \<le> drawn s" using drawn_range(1) [OF assms(3)] by (simp add: upto_sum_def)
  from winner_from_cases [OF assms(3) this le0] assms(4) obtain p where
    p: "p < NPROC" "winner_from ?ps (drawn s) [0..<NPROC] = p" "upto_sum ?ps p \<le> drawn s"
      "drawn s < upto_sum ?ps (Suc p)" by force
  have run: "state (?ps p) = RUNNABLE" "0 < current_tickets (?ps p)"
    using p(3,4) by (auto simp: upto_sum_Suc tickets_of_def split: if_splits)
  have "current_tickets (?ps p) \<le> upto_sum ?ps (Suc p)"
    using run(1) upto_sum_range(1) [OF assms(3), of p] p(1) by (simp add: upto_sum_Suc tickets_of_def)
  then have "current_tickets (?ps p) < 2 ^ 31" using upto_sum_range(3) [OF assms(3), of "Suc p"] p(1) by simp
  then have i: "i32 (current_tickets (?ps p) - 1) = current_tickets (?ps p) - 1" using run(2) by simp
  have b: "plocks_ok (before_run s)" "procs (before_run s) = ?ps"
    using sched_start_ok(1) [OF assms(1)] by (simp_all add: before_run_def)
  let ?u = "upd_mycpu (\<lambda>c. c\<lparr>cproc := Some p\<rparr>) (held (ProcLock p) (upd_proc p charged (before_run s)))"
  have pu: "procs ?u = ?ps(p := (?ps p)\<lparr>current_tickets := current_tickets (?ps p) - 1,
      ticks_used := i32 (ticks_used (?ps p) + 1), state := RUNNING\<rparr>)"
    using i b(2) by (simp add: upd_mycpu_def charged_def)
  show ?thesis
  proof (rule ex1I [of _ p], intro conjI exI [of _ ?u])
    show "scheduler_round (\<lambda>_. halt Swtch) s = Stop Swtch ?u"
      using round_eq [OF assms(1-3)] p(2) run_winner_switch [OF b(1) p(1)] run(1) b(2) by simp
    show "cproc (mycpu ?u) = Some p" "holding (ProcLock p) ?u"
      by (simp_all add: machine_defs holding_def held_def entered_def upd_proc_def)
    show "0 \<le> current_tickets (procs ?u p)" unfolding pu using run(2) by simp
  qed (use p pu segment_unique [OF assms(3) p(1) _ p(3,4)] in blast)+
qed

theorem scheduler_round_runs_winner_witness:
  "\<exists>u. scheduler_round (\<lambda>_. halt Swtch) (demo_kproc demo_two) = Stop Swtch u \<and> 0 \<le> current_tickets (procs u 1)"
proof -
  have seg: "upto_sum demo_two 1 \<le> 1" "1 < upto_sum demo_two (Suc 1)" "1 < NPROC"
    by (simp_all add: upto_sum_def demo_two_def tickets_of_def lessThan_Suc NPROC_def)
  from scheduler_round_runs_winner [of "demo_kproc demo_two"] obtain p u where
    p: "p < NPROC" "upto_sum demo_two p \<le> 1" "1 < upto_sum demo_two (Suc p)"
      "scheduler_round (\<lambda>_. halt Swtch) (demo_kproc demo_two) = Stop Swtch u" "0 \<le> current_tickets (procs u p)"
    by (auto simp: demo_kproc_ok demo_reset demo_tickets_ok demo_drawn demo_totals)
  have "p = 1" using segment_unique [OF demo_tickets_ok(1) p(1) seg(3) p(2,3) seg(1,2)] .
  then show ?thesis using p(4,5) by blast
qed

text \<open>
  C9. When a round reads past the process table.  The draw \<^verbatim>\<open>randomrange(0, total)\<close>
  includes its upper end, so it can equal the number of tickets; then, and only then, no
  process is found, and the code after the loop uses \<^verbatim>\<open>proc[NPROC]\<close>.  In particular
  this happens in every round in which no process is \<^verbatim>\<open>RUNNABLE\<close>.
\<close>

theorem scheduler_round_out_of_table:
  assumes "sched_ready s" "tickets_ok (procs s)" "tickets_ok (after_reset (procs s))"
  shows "((\<exists>u. scheduler_round (\<lambda>_. halt Swtch) s = Stop (Fault ''proc[NPROC]'') u)
      \<longleftrightarrow> drawn s = total_tickets (after_reset (procs s)))
    \<and> ((\<forall>p < NPROC. state (procs s p) \<noteq> RUNNABLE) \<longrightarrow> drawn s = total_tickets (after_reset (procs s)))"
proof -
  let ?ps = "after_reset (procs s)"
  note rng = drawn_range [OF assms(3)]
  have b: "plocks_ok (before_run s)" "procs (before_run s) = ?ps"
    using sched_start_ok(1) [OF assms(1)] by (simp_all add: before_run_def)
  have "(\<exists>u. scheduler_round (\<lambda>_. halt Swtch) s = Stop (Fault ''proc[NPROC]'') u) \<longleftrightarrow> drawn s = total_tickets ?ps"
  proof (cases "drawn s = total_tickets ?ps")
    case True
    then have "winner_from ?ps (drawn s) [0..<NPROC] = NPROC" using winner_none [OF assms(3) rng(1)] by simp
    then show ?thesis using round_eq [OF assms, of "\<lambda>_. halt Swtch"] True by (simp add: run_winner_def)
  next
    case False
    have "upto_sum ?ps 0 \<le> drawn s" using rng(1) by (simp add: upto_sum_def)
    from winner_from_cases [OF assms(3) this le0] rng(2) False obtain p where
      p: "p < NPROC" "winner_from ?ps (drawn s) [0..<NPROC] = p" "upto_sum ?ps p \<le> drawn s"
        "drawn s < upto_sum ?ps (Suc p)" by force
    then have "state (?ps p) = RUNNABLE" by (auto simp: upto_sum_Suc tickets_of_def split: if_splits)
    then show ?thesis using round_eq [OF assms] run_winner_switch [OF b(1) p(1)] p(2) b(2) False by simp
  qed
  moreover have "total_tickets ?ps = 0" if "\<forall>p < NPROC. state (procs s p) \<noteq> RUNNABLE"
    using that by (auto simp: total_tickets_def upto_sum_def tickets_of_def after_reset_def renewed_def intro!: sum.neutral)
  ultimately show ?thesis using rng by auto
qed

text \<open>The first draw after boot, with the one ticket of the first process, is such a round.\<close>

theorem scheduler_round_out_of_table_witness:
  "\<exists>u. scheduler_round (\<lambda>_. halt Swtch) (demo_kproc demo_one) = Stop (Fault ''proc[NPROC]'') u"
  using scheduler_round_out_of_table [of "demo_kproc demo_one"]
  by (simp add: demo_kproc_ok demo_reset demo_tickets_ok demo_drawn demo_totals)

text \<open>
  \<^verbatim>\<open>settickets(n)\<close> with \<open>n \<ge> 1\<close> returns 0 and changes the initial ticket count
  of the calling process and nothing else, in particular not the tickets it holds now; with
  \<open>n < 1\<close> it returns -1 and changes nothing.
\<close>

theorem settickets_sets_initial:
  assumes "plocks_ok s" "cproc (mycpu s) = Some p" "p < NPROC"
    and "\<And>q. q < NPROC \<Longrightarrow> pid (procs s q) = pid (procs s p) \<Longrightarrow> q = p"
  shows "settickets n s = (if n < 1 then Ok (- 1) s
    else Ok 0 (s\<lparr>procs := (procs s)(p := (procs s p)\<lparr>initial_tickets := n\<rparr>)\<rparr>))"
proof (cases "n < 1")
  case True
  then show ?thesis by (simp add: settickets_def)
next
  case False
  then have n: "1 \<le> n" by simp
  have "settickets n s = Ok 0 (upd_proc p (\<lambda>q. q\<lparr>initial_tickets := n\<rparr>) s)"
    by (rule settickets_eq [OF assms(1-3) n assms(4)])
  with False show ?thesis by (simp add: upd_proc_def)
qed

definition demo_running :: kproc where
  "demo_running = upd_mycpu (\<lambda>c. c\<lparr>cproc := Some 1\<rparr>) (demo_kproc demo_two)"

lemma demo_running_ok: "plocks_ok demo_running" "cproc (mycpu demo_running) = Some 1" "procs demo_running = demo_two"
  by (simp_all add: demo_running_def demo_kproc_def plocks_ok_def cpu_ok_def machine_defs lock_free_def)

theorem settickets_sets_initial_witness:
  "settickets 20 demo_running = Ok 0 (demo_running\<lparr>procs := demo_two(1 := (demo_two 1)\<lparr>initial_tickets := 20\<rparr>)\<rparr>)
   \<and> settickets 0 demo_running = Ok (- 1) demo_running"
proof -
  have u: "q = 1" if "pid (demo_two q) = pid (demo_two 1)" for q
    using that by (auto simp: demo_two_def demo_proc_def split: if_splits)
  have "settickets n demo_running = (if n < 1 then Ok (- 1) demo_running
      else Ok 0 (demo_running\<lparr>procs := (procs demo_running)(1 := (procs demo_running 1)\<lparr>initial_tickets := n\<rparr>)\<rparr>))" for n
    by (rule settickets_sets_initial [OF demo_running_ok(1,2)])
       (simp add: NPROC_def, rule u, simp add: demo_running_ok(3))
  then show ?thesis by (simp add: demo_running_ok(3))
qed

end
