(* ===== verification/Xv6_Trap.thy ===== *)
theory Xv6_Trap
  imports Xv6_Sysfile Xv6_Sched
begin

text \<open>
  \<^verbatim>\<open>kernel/sysproc.c\<close>, the dispatcher of \<^verbatim>\<open>kernel/syscall.c\<close>,
  \<^verbatim>\<open>kernel/trap.c\<close>, \<^verbatim>\<open>forkret\<close> of \<^verbatim>\<open>kernel/proc.c\<close> and
  \<^verbatim>\<open>kernel/main.c\<close>.

  The supervisor control registers of a hart are a record; the interrupt-enable bit of
  \<^verbatim>\<open>sstatus\<close> is the field \<open>sie\<close> of the machine.  The addresses of assembly and
  C entry points are symbols.  The jump into the trampoline at the end of
  \<^verbatim>\<open>usertrapret\<close> is the pair of its target and its argument.
\<close>

section \<open>System calls on processes\<close>

definition sys_exit :: "'z kfile_scheme env \<Rightarrow> ('z kfile_scheme, u64) op" where
  "sys_exit E = bind (argint 0) (\<lambda>n. seq (exit E n) (ret 0))"

definition sys_getpid :: "('z kproc_scheme, u64) op" where
  "sys_getpid = bind curproc (\<lambda>p. gets (\<lambda>s. word_of_int (pid (procs s p))))"

definition sys_fork :: "('z kfile_scheme, u64) op" where
  "sys_fork = bind fork (\<lambda>r. ret (word_of_int r))"

definition sys_wait :: "'z kproc_scheme env \<Rightarrow> ('z kproc_scheme, u64) op" where
  "sys_wait E = bind (argaddr 0) (\<lambda>p. bind (wait E p) (\<lambda>r. ret (word_of_int r)))"

definition sys_sbrk :: "('z kproc_scheme, u64) op" where
  "sys_sbrk =
     bind (argint 0) (\<lambda>n.
     bind curproc (\<lambda>p.
     bind (gets (\<lambda>s. psz (procs s p))) (\<lambda>addr.
     bind (growproc n) (\<lambda>r.
     if r < 0 then ret (- 1) else ret addr))))"

text \<open>The loop of \<^verbatim>\<open>sys_sleep\<close>; the comparison of \<^verbatim>\<open>uint\<close> and
  \<^verbatim>\<open>int\<close> is unsigned.\<close>

primrec sys_sleep_loop :: "nat \<Rightarrow> 'z kproc_scheme env \<Rightarrow> u32 \<Rightarrow> int \<Rightarrow> ('z kproc_scheme, u64) op" where
  "sys_sleep_loop 0 E ticks0 n = halt Spin"
| "sys_sleep_loop (Suc fuel) E ticks0 n =
     bind (gets (\<lambda>s. ticks s - ticks0 < word_of_int n)) (\<lambda>early.
     if \<not> early then seq (release TicksLock) (ret 0)
     else bind curproc (\<lambda>p.
       bind (killed p) (\<lambda>k.
       if k \<noteq> 0 then seq (release TicksLock) (ret (- 1))
       else seq (sleep E ChanTicks TicksLock) (sys_sleep_loop fuel E ticks0 n))))"

definition sys_sleep :: "'z kproc_scheme env \<Rightarrow> ('z kproc_scheme, u64) op" where
  "sys_sleep E =
     bind (argint 0) (\<lambda>n.
     seq (acquire TicksLock) (
     bind (gets ticks) (\<lambda>ticks0.
     sys_sleep_loop (Suc (wakeups E)) E ticks0 n)))"

definition sys_kill :: "('z kproc_scheme, u64) op" where
  "sys_kill = bind (argint 0) (\<lambda>i. bind (kill i) (\<lambda>r. ret (word_of_int r)))"

definition sys_uptime :: "('z kproc_scheme, u64) op" where
  "sys_uptime =
     seq (acquire TicksLock) (
     bind (gets ticks) (\<lambda>xticks.
     seq (release TicksLock) (
     ret (ucast xticks))))"

definition sys_settickets :: "('z kproc_scheme, u64) op" where
  "sys_settickets = bind (argint 0) (\<lambda>n. bind (settickets n) (\<lambda>r. ret (word_of_int r)))"

definition sys_getpinfo :: "('z kproc_scheme, u64) op" where
  "sys_getpinfo = bind (argaddr 0) (\<lambda>a. bind (getpinfo a) (\<lambda>r. ret (word_of_int r)))"

section \<open>Dispatch\<close>

definition SYS_fork :: int where "SYS_fork = 1"
definition SYS_exit :: int where "SYS_exit = 2"
definition SYS_wait :: int where "SYS_wait = 3"
definition SYS_pipe :: int where "SYS_pipe = 4"
definition SYS_read :: int where "SYS_read = 5"
definition SYS_kill :: int where "SYS_kill = 6"
definition SYS_exec :: int where "SYS_exec = 7"
definition SYS_fstat :: int where "SYS_fstat = 8"
definition SYS_chdir :: int where "SYS_chdir = 9"
definition SYS_dup :: int where "SYS_dup = 10"
definition SYS_getpid :: int where "SYS_getpid = 11"
definition SYS_sbrk :: int where "SYS_sbrk = 12"
definition SYS_sleep :: int where "SYS_sleep = 13"
definition SYS_uptime :: int where "SYS_uptime = 14"
definition SYS_open :: int where "SYS_open = 15"
definition SYS_write :: int where "SYS_write = 16"
definition SYS_mknod :: int where "SYS_mknod = 17"
definition SYS_unlink :: int where "SYS_unlink = 18"
definition SYS_link :: int where "SYS_link = 19"
definition SYS_mkdir :: int where "SYS_mkdir = 20"
definition SYS_close :: int where "SYS_close = 21"
definition SYS_settickets :: int where "SYS_settickets = 22"
definition SYS_getpinfo :: int where "SYS_getpinfo = 23"

lemmas SYS_defs = SYS_fork_def SYS_exit_def SYS_wait_def SYS_pipe_def SYS_read_def SYS_kill_def SYS_exec_def
  SYS_fstat_def SYS_chdir_def SYS_dup_def SYS_getpid_def SYS_sbrk_def SYS_sleep_def SYS_uptime_def
  SYS_open_def SYS_write_def SYS_mknod_def SYS_unlink_def SYS_link_def SYS_mkdir_def SYS_close_def
  SYS_settickets_def SYS_getpinfo_def

text \<open>The table \<^verbatim>\<open>syscalls[]\<close>: a number without an entry has a null pointer.\<close>

definition syscalls :: "'z kfile_scheme env \<Rightarrow> int \<Rightarrow> ('z kfile_scheme, u64) op option" where
  "syscalls E num =
     map_of [(SYS_fork, sys_fork), (SYS_exit, sys_exit E), (SYS_wait, sys_wait E), (SYS_pipe, sys_pipe E),
       (SYS_read, sys_read E), (SYS_kill, sys_kill), (SYS_exec, sys_exec E), (SYS_fstat, sys_fstat E),
       (SYS_chdir, sys_chdir E), (SYS_dup, sys_dup), (SYS_getpid, sys_getpid), (SYS_sbrk, sys_sbrk),
       (SYS_sleep, sys_sleep E), (SYS_uptime, sys_uptime), (SYS_open, sys_open E), (SYS_write, sys_write E),
       (SYS_mknod, sys_mknod E), (SYS_unlink, sys_unlink E), (SYS_link, sys_link E), (SYS_mkdir, sys_mkdir E),
       (SYS_close, sys_close E), (SYS_settickets, sys_settickets), (SYS_getpinfo, sys_getpinfo)] num"

definition syscall :: "'z kfile_scheme env \<Rightarrow> ('z kfile_scheme, unit) op" where
  "syscall E =
     bind curproc (\<lambda>p.
     bind (get_tf p) (\<lambda>t.
     let num = sint (ucast (regs t Ra7) :: u32) in
     case syscalls E num of
       Some f \<Rightarrow> bind f (\<lambda>v. modify (upd_tf p (set_reg Ra0 v)))
     | None \<Rightarrow>
         bind (gets (\<lambda>s. procs s p)) (\<lambda>q.
         seq (printf (''%d %s: unknown sys call %d'' @ [LF]) [PInt (pid q), PStr (Some (pname q)), PInt num]) (
         modify (upd_tf p (set_reg Ra0 (- 1)))))))"

section \<open>Traps\<close>

record csrs =
  c_sstatus :: u64
  c_sepc :: u64
  c_scause :: u64
  c_stval :: u64
  c_sip :: u64
  c_stvec :: u64

record ktrap = kfile +
  csr :: "nat \<Rightarrow> csrs"
  sym_kernelvec :: u64
  sym_uservec :: u64
  sym_userret :: u64
  sym_usertrap :: u64
  forkret_first :: bool
  started :: bool

definition SSTATUS_SPP :: u64 where "SSTATUS_SPP = push_bit 8 1"
definition SSTATUS_SPIE :: u64 where "SSTATUS_SPIE = push_bit 5 1"
definition SSTATUS_SIE :: u64 where "SSTATUS_SIE = push_bit 1 1"

definition upd_csr :: "(csrs \<Rightarrow> csrs) \<Rightarrow> ('z ktrap_scheme, unit) op" where
  "upd_csr f = modify (\<lambda>s. s\<lparr>csr := (csr s)(tp s := f (csr s (tp s)))\<rparr>)"

definition r_sstatus :: "('z ktrap_scheme, u64) op" where
  "r_sstatus = gets (\<lambda>s. (c_sstatus (csr s (tp s)) AND NOT SSTATUS_SIE) OR (if sie s (tp s) then SSTATUS_SIE else 0))"

definition w_sstatus :: "u64 \<Rightarrow> ('z ktrap_scheme, unit) op" where
  "w_sstatus x =
     seq (upd_csr (\<lambda>c. c\<lparr>c_sstatus := x\<rparr>)) (
     modify (\<lambda>s. s\<lparr>sie := (sie s)(tp s := (x AND SSTATUS_SIE \<noteq> 0))\<rparr>))"

definition r_sepc :: "('z ktrap_scheme, u64) op" where "r_sepc = gets (\<lambda>s. c_sepc (csr s (tp s)))"
definition w_sepc :: "u64 \<Rightarrow> ('z ktrap_scheme, unit) op" where "w_sepc x = upd_csr (\<lambda>c. c\<lparr>c_sepc := x\<rparr>)"
definition r_scause :: "('z ktrap_scheme, u64) op" where "r_scause = gets (\<lambda>s. c_scause (csr s (tp s)))"
definition r_stval :: "('z ktrap_scheme, u64) op" where "r_stval = gets (\<lambda>s. c_stval (csr s (tp s)))"
definition r_sip :: "('z ktrap_scheme, u64) op" where "r_sip = gets (\<lambda>s. c_sip (csr s (tp s)))"
definition w_sip :: "u64 \<Rightarrow> ('z ktrap_scheme, unit) op" where "w_sip x = upd_csr (\<lambda>c. c\<lparr>c_sip := x\<rparr>)"
definition w_stvec :: "u64 \<Rightarrow> ('z ktrap_scheme, unit) op" where "w_stvec x = upd_csr (\<lambda>c. c\<lparr>c_stvec := x\<rparr>)"

definition trapinit :: "('z ktrap_scheme, unit) op" where
  "trapinit = initlock TicksLock ''time''"

definition trapinithart :: "('z ktrap_scheme, unit) op" where
  "trapinithart = bind (gets sym_kernelvec) w_stvec"

definition clockintr :: "('z kproc_scheme, unit) op" where
  "clockintr =
     seq (acquire TicksLock) (
     seq (modify (\<lambda>s. s\<lparr>ticks := ticks s + 1\<rparr>)) (
     seq (wakeup (Some ChanTicks)) (
     release TicksLock)))"

definition extintr :: "('z ktrap_scheme, unit) op" where
  "extintr =
     bind plic_claim (\<lambda>irq.
     seq (if irq = int UART0_IRQ then uartintr
          else if irq = int VIRTIO0_IRQ then virtio_disk_intr
          else do_if (irq \<noteq> 0) (printf (''unexpected interrupt irq=%d'' @ [LF]) [PInt irq])) (
     do_if (irq \<noteq> 0) (plic_complete irq)))"

definition devintr :: "('z ktrap_scheme, int) op" where
  "devintr =
     bind r_scause (\<lambda>scause.
     if scause AND 0x8000000000000000 \<noteq> 0 \<and> scause AND 0xff = 9 then seq extintr (ret 1)
     else if scause = 0x8000000000000001 then
       seq (bind cpuid (\<lambda>h. do_if (h = 0) clockintr)) (
       seq (bind r_sip (\<lambda>x. w_sip (x AND NOT 2))) (
       ret 2))
     else ret 0)"

definition usertrapret :: "('z ktrap_scheme, u64 \<times> u64) op" where
  "usertrapret =
     bind curproc (\<lambda>p.
     seq intr_off (
     bind (gets (\<lambda>s. TRAMPOLINE + (sym_uservec s - sym_trampoline s))) (\<lambda>vec.
     seq (w_stvec vec) (
     seq (modify (\<lambda>s. upd_tf p (\<lambda>t. t\<lparr>kernel_satp := satp s (tp s)\<rparr>) s)) (
     seq (modify (\<lambda>s. upd_tf p (\<lambda>t. t\<lparr>kernel_sp := kstack (procs s p) + PGSIZE\<rparr>) s)) (
     seq (modify (\<lambda>s. upd_tf p (\<lambda>t. t\<lparr>kernel_trap := sym_usertrap s\<rparr>) s)) (
     seq (modify (\<lambda>s. upd_tf p (\<lambda>t. t\<lparr>kernel_hartid := of_nat (tp s)\<rparr>) s)) (
     bind r_sstatus (\<lambda>x.
     seq (w_sstatus ((x AND NOT SSTATUS_SPP) OR SSTATUS_SPIE)) (
     seq (bind (get_tf p) (\<lambda>t. w_sepc (epc t))) (
     bind (gets (\<lambda>s. MAKE_SATP (pagetable (procs s p)))) (\<lambda>satp'.
     bind (gets (\<lambda>s. TRAMPOLINE + (sym_userret s - sym_trampoline s))) (\<lambda>target.
     ret (target, satp'))))))))))))))"

definition usertrap :: "'z ktrap_scheme env \<Rightarrow> ('z ktrap_scheme, u64 \<times> u64) op" where
  "usertrap E =
     seq (bind r_sstatus (\<lambda>x. do_if (x AND SSTATUS_SPP \<noteq> 0) (panic ''usertrap: not from user mode''))) (
     seq (bind (gets sym_kernelvec) w_stvec) (
     bind curproc (\<lambda>p.
     seq (bind r_sepc (\<lambda>x. modify (upd_tf p (\<lambda>t. t\<lparr>epc := x\<rparr>)))) (
     bind r_scause (\<lambda>scause.
     bind (if scause = 8 then
             seq (bind (killed p) (\<lambda>k. do_if (k \<noteq> 0) (exit E (- 1)))) (
             seq (modify (upd_tf p (\<lambda>t. t\<lparr>epc := epc t + 4\<rparr>))) (
             seq intr_on (
             seq (syscall E) (
             ret 0))))
           else bind devintr (\<lambda>which_dev.
             if which_dev \<noteq> 0 then ret which_dev
             else
               bind r_scause (\<lambda>c.
               bind (gets (\<lambda>s. pid (procs s p))) (\<lambda>i.
               seq (printf (''usertrap(): unexpected scause %p pid=%d'' @ [LF]) [PPtr c, PInt i]) (
               bind r_sepc (\<lambda>pc.
               bind r_stval (\<lambda>v.
               seq (printf (''            sepc=%p stval=%p'' @ [LF]) [PPtr pc, PPtr v]) (
               seq (setkilled p) (
               ret 0))))))))) (\<lambda>which_dev.
     seq (bind (killed p) (\<lambda>k. do_if (k \<noteq> 0) (exit E (- 1)))) (
     seq (do_if (which_dev = 2) (yield E)) (
     usertrapret))))))))"

definition kerneltrap :: "'z ktrap_scheme env \<Rightarrow> ('z ktrap_scheme, unit) op" where
  "kerneltrap E =
     bind r_sepc (\<lambda>sepc.
     bind r_sstatus (\<lambda>sstatus.
     bind r_scause (\<lambda>scause.
     seq (do_if (sstatus AND SSTATUS_SPP = 0) (panic ''kerneltrap: not from supervisor mode'')) (
     seq (bind (gets intr_get) (\<lambda>on. do_if on (panic ''kerneltrap: interrupts enabled''))) (
     bind devintr (\<lambda>which_dev.
     seq (do_if (which_dev = 0) (
       seq (printf (''scause %p'' @ [LF]) [PPtr scause]) (
       bind r_sepc (\<lambda>pc.
       bind r_stval (\<lambda>v.
       seq (printf (''sepc=%p stval=%p'' @ [LF]) [PPtr pc, PPtr v]) (
       panic ''kerneltrap'')))))) (
     seq (do_if (which_dev = 2) (
       bind myproc (\<lambda>me.
       case me of
         None \<Rightarrow> ret ()
       | Some p \<Rightarrow> bind (gets (\<lambda>s. state (procs s p))) (\<lambda>st. do_if (st = RUNNING) (yield E))))) (
     seq (w_sepc sepc) (
     w_sstatus sstatus)))))))))"

definition forkret :: "'z ktrap_scheme env \<Rightarrow> ('z ktrap_scheme, u64 \<times> u64) op" where
  "forkret E =
     seq (bind curproc (\<lambda>p. release (ProcLock p))) (
     seq (bind (gets forkret_first) (\<lambda>b. do_if b (
       seq (modify (\<lambda>s. s\<lparr>forkret_first := False\<rparr>)) (
       fsinit E (uint ROOTDEV))))) (
     usertrapret))"

section \<open>Booting\<close>

text \<open>The initialisation part of \<^verbatim>\<open>main()\<close>, before the call of \<^verbatim>\<open>scheduler()\<close>.\<close>

definition main_init :: "'z ktrap_scheme env \<Rightarrow> ('z ktrap_scheme, unit) op" where
  "main_init E =
     bind cpuid (\<lambda>h.
     if h = 0 then
       seq consoleinit (
       seq printfinit (
       seq (printf [LF] []) (
       seq (printf (''xv6 kernel is booting'' @ [LF]) []) (
       seq (printf [LF] []) (
       seq kinit (
       seq kvminit (
       seq kvminithart (
       seq procinit (
       seq trapinit (
       seq trapinithart (
       seq plicinit (
       seq plicinithart (
       seq binit (
       seq iinit (
       seq fileinit (
       seq virtio_disk_init (
       seq (userinit E) (
       modify (\<lambda>s. s\<lparr>started := True\<rparr>)))))))))))))))))))
     else
       seq (bind (gets started) (\<lambda>b. do_if (\<not> b) (halt Spin))) (
       seq (bind cpuid (\<lambda>h. printf (''hart %d starting'' @ [LF]) [PInt (int h)])) (
       seq kvminithart (
       seq trapinithart (
       plicinithart)))))"

definition main :: "'z ktrap_scheme env \<Rightarrow> nat \<Rightarrow> (nat \<Rightarrow> ('z ktrap_scheme, unit) op) \<Rightarrow> ('z ktrap_scheme, unit) op" where
  "main E n run = seq (main_init E) (scheduler n run)"

end
