(* ===== verification/Xv6_Frame.thy ===== *)
theory Xv6_Frame
  imports Xv6_Trap
begin

text \<open>
  Frame lemmas of the layered state.  A lock held around a body (\<open>held\<close>) touches only the
  base record, so it commutes with every update of a later field, and those updates leave
  the lock and interrupt conditions alone.  With these as simplification rules a critical
  section computes as if it took no lock.
\<close>

section \<open>Held locks\<close>

lemma cpu_ok_held: "cpu_ok s \<Longrightarrow> cpu_ok (held lk s)"
  by (simp add: cpu_ok_def held_def entered_def upd_lock_def mycpu_def)

lemma lock_free_held [simp]: "lock_free lk (held lk' s) \<longleftrightarrow> lk \<noteq> lk' \<and> lock_free lk s"
  by (auto simp: lock_free_def held_def entered_def upd_lock_def)

lemma cproc_held [simp]: "cproc (mycpu (held lk s)) = cproc (mycpu s)"
  by (simp add: held_def entered_def upd_lock_def mycpu_def)

lemma tp_held [simp]: "tp (held lk s) = tp s"
  by (simp add: held_def entered_def upd_lock_def)

lemma plocks_ok_held: "plocks_ok s \<Longrightarrow> (\<And>p. lk \<noteq> ProcLock p) \<Longrightarrow> plocks_ok (held lk s)"
  by (auto simp: plocks_ok_def cpu_ok_held)

lemma held_commute: "held a (held b s) = held b (held a s)"
  by (cases "a = b") (simp_all add: held_def entered_def upd_lock_def mycpu_def fun_upd_twist)

lemma acquire_held: "cpu_ok s \<Longrightarrow> lock_free lk s \<Longrightarrow> lk \<noteq> lk' \<Longrightarrow> acquire lk (held lk' s) = Ok () (held lk (held lk' s))"
  by (rule acquire_ok) (simp_all add: cpu_ok_held)

lemma release_held:
  "cpu_ok s \<Longrightarrow> lock_free lk s \<Longrightarrow> lk \<noteq> lk' \<Longrightarrow> release lk (held lk (held lk' s)) = Ok () (held lk' s)"
  by (rule release_ok) (simp_all add: cpu_ok_held)

section \<open>Fields of the later records\<close>

lemma held_kproc_fields [simp]:
  "procs (held lk s) = procs s"
  "initproc (held lk s) = initproc s"
  "nextpid (held lk s) = nextpid s"
  "tframes (held lk s) = tframes s"
  "rng_state (held lk s) = rng_state s"
  "ticks (held lk s) = ticks s"
  by (simp_all add: held_def entered_def upd_lock_def)

lemma held_kproc_upd [simp]:
  "procs_update g1 (held lk s) = held lk (procs_update g1 s)"
  "initproc_update g2 (held lk s) = held lk (initproc_update g2 s)"
  "nextpid_update g3 (held lk s) = held lk (nextpid_update g3 s)"
  "tframes_update g4 (held lk s) = held lk (tframes_update g4 s)"
  "rng_state_update g5 (held lk s) = held lk (rng_state_update g5 s)"
  "ticks_update g6 (held lk s) = held lk (ticks_update g6 s)"
  by (cases s, simp add: held_def entered_def upd_lock_def mycpu_def)+

lemma kproc_upd_machine [simp]:
  "cpu_ok (procs_update g1 s) = cpu_ok s" "lock_free lk (procs_update g1 s) = lock_free lk s"
  "mycpu (procs_update g1 s) = mycpu s" "plocks_ok (procs_update g1 s) = plocks_ok s"
  "cpu_ok (initproc_update g2 s) = cpu_ok s" "lock_free lk (initproc_update g2 s) = lock_free lk s"
  "mycpu (initproc_update g2 s) = mycpu s" "plocks_ok (initproc_update g2 s) = plocks_ok s"
  "cpu_ok (nextpid_update g3 s) = cpu_ok s" "lock_free lk (nextpid_update g3 s) = lock_free lk s"
  "mycpu (nextpid_update g3 s) = mycpu s" "plocks_ok (nextpid_update g3 s) = plocks_ok s"
  "cpu_ok (tframes_update g4 s) = cpu_ok s" "lock_free lk (tframes_update g4 s) = lock_free lk s"
  "mycpu (tframes_update g4 s) = mycpu s" "plocks_ok (tframes_update g4 s) = plocks_ok s"
  "cpu_ok (rng_state_update g5 s) = cpu_ok s" "lock_free lk (rng_state_update g5 s) = lock_free lk s"
  "mycpu (rng_state_update g5 s) = mycpu s" "plocks_ok (rng_state_update g5 s) = plocks_ok s"
  "cpu_ok (ticks_update g6 s) = cpu_ok s" "lock_free lk (ticks_update g6 s) = lock_free lk s"
  "mycpu (ticks_update g6 s) = mycpu s" "plocks_ok (ticks_update g6 s) = plocks_ok s"
  by (simp_all add: cpu_ok_def lock_free_def mycpu_def plocks_ok_def)

lemma held_kuart_fields [simp]:
  "device (held lk s) = device s"
  "mmio_log (held lk s) = mmio_log s"
  "polls (held lk s) = polls s"
  "uart_tx_buf (held lk s) = uart_tx_buf s"
  "uart_tx_w (held lk s) = uart_tx_w s"
  "uart_tx_r (held lk s) = uart_tx_r s"
  "panicked (held lk s) = panicked s"
  by (simp_all add: held_def entered_def upd_lock_def)

lemma held_kuart_upd [simp]:
  "device_update g1 (held lk s) = held lk (device_update g1 s)"
  "mmio_log_update g2 (held lk s) = held lk (mmio_log_update g2 s)"
  "polls_update g3 (held lk s) = held lk (polls_update g3 s)"
  "uart_tx_buf_update g4 (held lk s) = held lk (uart_tx_buf_update g4 s)"
  "uart_tx_w_update g5 (held lk s) = held lk (uart_tx_w_update g5 s)"
  "uart_tx_r_update g6 (held lk s) = held lk (uart_tx_r_update g6 s)"
  "panicked_update g7 (held lk s) = held lk (panicked_update g7 s)"
  by (cases s, simp add: held_def entered_def upd_lock_def mycpu_def)+

lemma kuart_upd_machine [simp]:
  "cpu_ok (device_update g1 s) = cpu_ok s" "lock_free lk (device_update g1 s) = lock_free lk s"
  "mycpu (device_update g1 s) = mycpu s" "plocks_ok (device_update g1 s) = plocks_ok s"
  "cpu_ok (mmio_log_update g2 s) = cpu_ok s" "lock_free lk (mmio_log_update g2 s) = lock_free lk s"
  "mycpu (mmio_log_update g2 s) = mycpu s" "plocks_ok (mmio_log_update g2 s) = plocks_ok s"
  "cpu_ok (polls_update g3 s) = cpu_ok s" "lock_free lk (polls_update g3 s) = lock_free lk s"
  "mycpu (polls_update g3 s) = mycpu s" "plocks_ok (polls_update g3 s) = plocks_ok s"
  "cpu_ok (uart_tx_buf_update g4 s) = cpu_ok s" "lock_free lk (uart_tx_buf_update g4 s) = lock_free lk s"
  "mycpu (uart_tx_buf_update g4 s) = mycpu s" "plocks_ok (uart_tx_buf_update g4 s) = plocks_ok s"
  "cpu_ok (uart_tx_w_update g5 s) = cpu_ok s" "lock_free lk (uart_tx_w_update g5 s) = lock_free lk s"
  "mycpu (uart_tx_w_update g5 s) = mycpu s" "plocks_ok (uart_tx_w_update g5 s) = plocks_ok s"
  "cpu_ok (uart_tx_r_update g6 s) = cpu_ok s" "lock_free lk (uart_tx_r_update g6 s) = lock_free lk s"
  "mycpu (uart_tx_r_update g6 s) = mycpu s" "plocks_ok (uart_tx_r_update g6 s) = plocks_ok s"
  "cpu_ok (panicked_update g7 s) = cpu_ok s" "lock_free lk (panicked_update g7 s) = lock_free lk s"
  "mycpu (panicked_update g7 s) = mycpu s" "plocks_ok (panicked_update g7 s) = plocks_ok s"
  by (simp_all add: cpu_ok_def lock_free_def mycpu_def plocks_ok_def)

lemma held_kcons_fields [simp]:
  "pr_locking (held lk s) = pr_locking s"
  "cons_buf (held lk s) = cons_buf s"
  "cons_r (held lk s) = cons_r s"
  "cons_w (held lk s) = cons_w s"
  "cons_e (held lk s) = cons_e s"
  "devsw (held lk s) = devsw s"
  by (simp_all add: held_def entered_def upd_lock_def)

lemma held_kcons_upd [simp]:
  "pr_locking_update g1 (held lk s) = held lk (pr_locking_update g1 s)"
  "cons_buf_update g2 (held lk s) = held lk (cons_buf_update g2 s)"
  "cons_r_update g3 (held lk s) = held lk (cons_r_update g3 s)"
  "cons_w_update g4 (held lk s) = held lk (cons_w_update g4 s)"
  "cons_e_update g5 (held lk s) = held lk (cons_e_update g5 s)"
  "devsw_update g6 (held lk s) = held lk (devsw_update g6 s)"
  by (cases s, simp add: held_def entered_def upd_lock_def mycpu_def)+

lemma kcons_upd_machine [simp]:
  "cpu_ok (pr_locking_update g1 s) = cpu_ok s" "lock_free lk (pr_locking_update g1 s) = lock_free lk s"
  "mycpu (pr_locking_update g1 s) = mycpu s" "plocks_ok (pr_locking_update g1 s) = plocks_ok s"
  "cpu_ok (cons_buf_update g2 s) = cpu_ok s" "lock_free lk (cons_buf_update g2 s) = lock_free lk s"
  "mycpu (cons_buf_update g2 s) = mycpu s" "plocks_ok (cons_buf_update g2 s) = plocks_ok s"
  "cpu_ok (cons_r_update g3 s) = cpu_ok s" "lock_free lk (cons_r_update g3 s) = lock_free lk s"
  "mycpu (cons_r_update g3 s) = mycpu s" "plocks_ok (cons_r_update g3 s) = plocks_ok s"
  "cpu_ok (cons_w_update g4 s) = cpu_ok s" "lock_free lk (cons_w_update g4 s) = lock_free lk s"
  "mycpu (cons_w_update g4 s) = mycpu s" "plocks_ok (cons_w_update g4 s) = plocks_ok s"
  "cpu_ok (cons_e_update g5 s) = cpu_ok s" "lock_free lk (cons_e_update g5 s) = lock_free lk s"
  "mycpu (cons_e_update g5 s) = mycpu s" "plocks_ok (cons_e_update g5 s) = plocks_ok s"
  "cpu_ok (devsw_update g6 s) = cpu_ok s" "lock_free lk (devsw_update g6 s) = lock_free lk s"
  "mycpu (devsw_update g6 s) = mycpu s" "plocks_ok (devsw_update g6 s) = plocks_ok s"
  by (simp_all add: cpu_ok_def lock_free_def mycpu_def plocks_ok_def)

lemma held_ksleep_fields [simp]:
  "sleeplocks (held lk s) = sleeplocks s"
  by (simp_all add: held_def entered_def upd_lock_def)

lemma held_ksleep_upd [simp]:
  "sleeplocks_update g1 (held lk s) = held lk (sleeplocks_update g1 s)"
  by (cases s, simp add: held_def entered_def upd_lock_def mycpu_def)+

lemma ksleep_upd_machine [simp]:
  "cpu_ok (sleeplocks_update g1 s) = cpu_ok s" "lock_free lk (sleeplocks_update g1 s) = lock_free lk s"
  "mycpu (sleeplocks_update g1 s) = mycpu s" "plocks_ok (sleeplocks_update g1 s) = plocks_ok s"
  by (simp_all add: cpu_ok_def lock_free_def mycpu_def plocks_ok_def)

lemma held_kdisk_fields [simp]:
  "bufs (held lk s) = bufs s"
  "vdisk (held lk s) = vdisk s"
  by (simp_all add: held_def entered_def upd_lock_def)

lemma held_kdisk_upd [simp]:
  "bufs_update g1 (held lk s) = held lk (bufs_update g1 s)"
  "vdisk_update g2 (held lk s) = held lk (vdisk_update g2 s)"
  by (cases s, simp add: held_def entered_def upd_lock_def mycpu_def)+

lemma kdisk_upd_machine [simp]:
  "cpu_ok (bufs_update g1 s) = cpu_ok s" "lock_free lk (bufs_update g1 s) = lock_free lk s"
  "mycpu (bufs_update g1 s) = mycpu s" "plocks_ok (bufs_update g1 s) = plocks_ok s"
  "cpu_ok (vdisk_update g2 s) = cpu_ok s" "lock_free lk (vdisk_update g2 s) = lock_free lk s"
  "mycpu (vdisk_update g2 s) = mycpu s" "plocks_ok (vdisk_update g2 s) = plocks_ok s"
  by (simp_all add: cpu_ok_def lock_free_def mycpu_def plocks_ok_def)

lemma held_kbio_fields [simp]:
  "lnext (held lk s) = lnext s"
  "lprev (held lk s) = lprev s"
  by (simp_all add: held_def entered_def upd_lock_def)

lemma held_kbio_upd [simp]:
  "lnext_update g1 (held lk s) = held lk (lnext_update g1 s)"
  "lprev_update g2 (held lk s) = held lk (lprev_update g2 s)"
  by (cases s, simp add: held_def entered_def upd_lock_def mycpu_def)+

lemma kbio_upd_machine [simp]:
  "cpu_ok (lnext_update g1 s) = cpu_ok s" "lock_free lk (lnext_update g1 s) = lock_free lk s"
  "mycpu (lnext_update g1 s) = mycpu s" "plocks_ok (lnext_update g1 s) = plocks_ok s"
  "cpu_ok (lprev_update g2 s) = cpu_ok s" "lock_free lk (lprev_update g2 s) = lock_free lk s"
  "mycpu (lprev_update g2 s) = mycpu s" "plocks_ok (lprev_update g2 s) = plocks_ok s"
  by (simp_all add: cpu_ok_def lock_free_def mycpu_def plocks_ok_def)

lemma held_klog_fields [simp]:
  "log_start (held lk s) = log_start s"
  "log_size (held lk s) = log_size s"
  "log_outstanding (held lk s) = log_outstanding s"
  "log_committing (held lk s) = log_committing s"
  "log_dev (held lk s) = log_dev s"
  "log_lh (held lk s) = log_lh s"
  by (simp_all add: held_def entered_def upd_lock_def)

lemma held_klog_upd [simp]:
  "log_start_update g1 (held lk s) = held lk (log_start_update g1 s)"
  "log_size_update g2 (held lk s) = held lk (log_size_update g2 s)"
  "log_outstanding_update g3 (held lk s) = held lk (log_outstanding_update g3 s)"
  "log_committing_update g4 (held lk s) = held lk (log_committing_update g4 s)"
  "log_dev_update g5 (held lk s) = held lk (log_dev_update g5 s)"
  "log_lh_update g6 (held lk s) = held lk (log_lh_update g6 s)"
  by (cases s, simp add: held_def entered_def upd_lock_def mycpu_def)+

lemma klog_upd_machine [simp]:
  "cpu_ok (log_start_update g1 s) = cpu_ok s" "lock_free lk (log_start_update g1 s) = lock_free lk s"
  "mycpu (log_start_update g1 s) = mycpu s" "plocks_ok (log_start_update g1 s) = plocks_ok s"
  "cpu_ok (log_size_update g2 s) = cpu_ok s" "lock_free lk (log_size_update g2 s) = lock_free lk s"
  "mycpu (log_size_update g2 s) = mycpu s" "plocks_ok (log_size_update g2 s) = plocks_ok s"
  "cpu_ok (log_outstanding_update g3 s) = cpu_ok s" "lock_free lk (log_outstanding_update g3 s) = lock_free lk s"
  "mycpu (log_outstanding_update g3 s) = mycpu s" "plocks_ok (log_outstanding_update g3 s) = plocks_ok s"
  "cpu_ok (log_committing_update g4 s) = cpu_ok s" "lock_free lk (log_committing_update g4 s) = lock_free lk s"
  "mycpu (log_committing_update g4 s) = mycpu s" "plocks_ok (log_committing_update g4 s) = plocks_ok s"
  "cpu_ok (log_dev_update g5 s) = cpu_ok s" "lock_free lk (log_dev_update g5 s) = lock_free lk s"
  "mycpu (log_dev_update g5 s) = mycpu s" "plocks_ok (log_dev_update g5 s) = plocks_ok s"
  "cpu_ok (log_lh_update g6 s) = cpu_ok s" "lock_free lk (log_lh_update g6 s) = lock_free lk s"
  "mycpu (log_lh_update g6 s) = mycpu s" "plocks_ok (log_lh_update g6 s) = plocks_ok s"
  by (simp_all add: cpu_ok_def lock_free_def mycpu_def plocks_ok_def)

lemma held_kfs_fields [simp]:
  "fsb (held lk s) = fsb s"
  "inodes (held lk s) = inodes s"
  "stat_pad (held lk s) = stat_pad s"
  by (simp_all add: held_def entered_def upd_lock_def)

lemma held_kfs_upd [simp]:
  "fsb_update g1 (held lk s) = held lk (fsb_update g1 s)"
  "inodes_update g2 (held lk s) = held lk (inodes_update g2 s)"
  "stat_pad_update g3 (held lk s) = held lk (stat_pad_update g3 s)"
  by (cases s, simp add: held_def entered_def upd_lock_def mycpu_def)+

lemma kfs_upd_machine [simp]:
  "cpu_ok (fsb_update g1 s) = cpu_ok s" "lock_free lk (fsb_update g1 s) = lock_free lk s"
  "mycpu (fsb_update g1 s) = mycpu s" "plocks_ok (fsb_update g1 s) = plocks_ok s"
  "cpu_ok (inodes_update g2 s) = cpu_ok s" "lock_free lk (inodes_update g2 s) = lock_free lk s"
  "mycpu (inodes_update g2 s) = mycpu s" "plocks_ok (inodes_update g2 s) = plocks_ok s"
  "cpu_ok (stat_pad_update g3 s) = cpu_ok s" "lock_free lk (stat_pad_update g3 s) = lock_free lk s"
  "mycpu (stat_pad_update g3 s) = mycpu s" "plocks_ok (stat_pad_update g3 s) = plocks_ok s"
  by (simp_all add: cpu_ok_def lock_free_def mycpu_def plocks_ok_def)

lemma held_kpipe_fields [simp]:
  "pipes (held lk s) = pipes s"
  by (simp_all add: held_def entered_def upd_lock_def)

lemma held_kpipe_upd [simp]:
  "pipes_update g1 (held lk s) = held lk (pipes_update g1 s)"
  by (cases s, simp add: held_def entered_def upd_lock_def mycpu_def)+

lemma kpipe_upd_machine [simp]:
  "cpu_ok (pipes_update g1 s) = cpu_ok s" "lock_free lk (pipes_update g1 s) = lock_free lk s"
  "mycpu (pipes_update g1 s) = mycpu s" "plocks_ok (pipes_update g1 s) = plocks_ok s"
  by (simp_all add: cpu_ok_def lock_free_def mycpu_def plocks_ok_def)

lemma held_kfile_fields [simp]:
  "files (held lk s) = files s"
  by (simp_all add: held_def entered_def upd_lock_def)

lemma held_kfile_upd [simp]:
  "files_update g1 (held lk s) = held lk (files_update g1 s)"
  by (cases s, simp add: held_def entered_def upd_lock_def mycpu_def)+

lemma kfile_upd_machine [simp]:
  "cpu_ok (files_update g1 s) = cpu_ok s" "lock_free lk (files_update g1 s) = lock_free lk s"
  "mycpu (files_update g1 s) = mycpu s" "plocks_ok (files_update g1 s) = plocks_ok s"
  by (simp_all add: cpu_ok_def lock_free_def mycpu_def plocks_ok_def)

section \<open>Waking sleepers\<close>

lemma map_procs_held [simp]: "map_procs f (held lk s) = held lk (map_procs f s)"
  by (simp add: map_procs_def cong: if_cong)

lemma map_procs_machine [simp]:
  "cpu_ok (map_procs f s) = cpu_ok s" "lock_free lk (map_procs f s) = lock_free lk s"
  "mycpu (map_procs f s) = mycpu s" "plocks_ok (map_procs f s) = plocks_ok s"
  by (simp_all add: map_procs_def)

text \<open>The effect of \<open>wakeup\<close> on the process table.\<close>

definition awakened :: "chan option \<Rightarrow> 'z kproc_scheme \<Rightarrow> 'z kproc_scheme" where
  "awakened ch s = map_procs (\<lambda>p q. if Some p = cproc (mycpu s) then q else woken ch q) s"

lemma wakeup_ok: "plocks_ok s \<Longrightarrow> wakeup ch s = Ok () (awakened ch s)"
  by (simp add: wakeup_eq awakened_def)

lemma awakened_held [simp]: "awakened ch (held lk s) = held lk (awakened ch s)"
  by (simp add: awakened_def)

lemma awakened_machine [simp]:
  "cpu_ok (awakened ch s) = cpu_ok s" "lock_free lk (awakened ch s) = lock_free lk s"
  "mycpu (awakened ch s) = mycpu s" "plocks_ok (awakened ch s) = plocks_ok s"
  by (simp_all add: awakened_def)

lemma wakeup_held:
  "plocks_ok s \<Longrightarrow> (\<And>p. lk \<noteq> ProcLock p) \<Longrightarrow> wakeup ch (held lk s) = Ok () (held lk (awakened ch s))"
  by (simp add: wakeup_ok plocks_ok_held)

lemma awakened_kuart [simp]:
  "device (awakened ch s) = device s"
  "mmio_log (awakened ch s) = mmio_log s"
  "polls (awakened ch s) = polls s"
  "uart_tx_buf (awakened ch s) = uart_tx_buf s"
  "uart_tx_w (awakened ch s) = uart_tx_w s"
  "uart_tx_r (awakened ch s) = uart_tx_r s"
  "panicked (awakened ch s) = panicked s"
  by (simp_all add: awakened_def map_procs_def)

lemma awakened_kcons [simp]:
  "pr_locking (awakened ch s) = pr_locking s"
  "cons_buf (awakened ch s) = cons_buf s"
  "cons_r (awakened ch s) = cons_r s"
  "cons_w (awakened ch s) = cons_w s"
  "cons_e (awakened ch s) = cons_e s"
  "devsw (awakened ch s) = devsw s"
  by (simp_all add: awakened_def map_procs_def)

lemma awakened_ksleep [simp]:
  "sleeplocks (awakened ch s) = sleeplocks s"
  by (simp_all add: awakened_def map_procs_def)

lemma awakened_kdisk [simp]:
  "bufs (awakened ch s) = bufs s"
  "vdisk (awakened ch s) = vdisk s"
  by (simp_all add: awakened_def map_procs_def)

lemma awakened_kbio [simp]:
  "lnext (awakened ch s) = lnext s"
  "lprev (awakened ch s) = lprev s"
  by (simp_all add: awakened_def map_procs_def)

lemma awakened_klog [simp]:
  "log_start (awakened ch s) = log_start s"
  "log_size (awakened ch s) = log_size s"
  "log_outstanding (awakened ch s) = log_outstanding s"
  "log_committing (awakened ch s) = log_committing s"
  "log_dev (awakened ch s) = log_dev s"
  "log_lh (awakened ch s) = log_lh s"
  by (simp_all add: awakened_def map_procs_def)

lemma awakened_kfs [simp]:
  "fsb (awakened ch s) = fsb s"
  "inodes (awakened ch s) = inodes s"
  "stat_pad (awakened ch s) = stat_pad s"
  by (simp_all add: awakened_def map_procs_def)

lemma awakened_kpipe [simp]:
  "pipes (awakened ch s) = pipes s"
  by (simp_all add: awakened_def map_procs_def)

lemma awakened_kfile [simp]:
  "files (awakened ch s) = files s"
  by (simp_all add: awakened_def map_procs_def)

end
