(* ===== verification/Xv6_Ring.thy ===== *)
theory Xv6_Ring
  imports Xv6_Frame
begin

text \<open>
  Ring buffers.  The kernel has three (the UART's output, the console's input, pipes), all
  with free-running counters of machine width that index modulo the size.  \<open>ring\<close> is the
  list of the bytes between the counters; as the size divides the range of the counters,
  counting past the end of the range changes nothing.

  The interface \<open>bounded_fifo\<close> is what a user of a ring relies on.  Its only lemma says that
  what comes out is what went in, in order, for every sequence of operations that respects
  the two guards; it is interpreted on the pipe and on the UART's output buffer.
\<close>

section \<open>The contents of a ring\<close>

definition ring :: "nat \<Rightarrow> (nat \<Rightarrow> 'a) \<Rightarrow> 'l::len word \<Rightarrow> 'l word \<Rightarrow> 'a list" where
  "ring N buf r w = map (\<lambda>i. buf (unat ((r + of_nat i) mod of_nat N))) [0..<unat (w - r)]"

lemma ring_index:
  fixes r :: "'l::len word"
  assumes "N dvd 2 ^ LENGTH('l)" "0 < N" "N < 2 ^ LENGTH('l)"
  shows "unat ((r + of_nat i) mod of_nat N) = (unat r + i) mod N"
proof -
  have "unat (r + of_nat i) = (unat r + i) mod 2 ^ LENGTH('l)"
    by (simp add: unat_word_ariths unat_of_nat take_bit_eq_mod mod_simps)
  moreover have "unat (of_nat N :: 'l word) = N" using assms(3) by (simp add: unat_of_nat take_bit_eq_mod)
  ultimately show ?thesis using assms(1) by (simp add: unat_mod mod_mod_cancel)
qed

lemma length_ring [simp]: "length (ring N buf r w) = unat (w - r)"
  by (simp add: ring_def)

lemma ring_Nil_iff [simp]: "ring N buf r w = [] \<longleftrightarrow> r = w"
  by (auto simp: ring_def unat_eq_0)

lemma shift_mod_inj:
  fixes a i j :: nat
  assumes "i < N" "j < N" "(a + i) mod N = (a + j) mod N"
  shows "i = j"
  using assms
proof (induction i j rule: linorder_wlog)
  case (le i j)
  then have "N dvd (a + j) - (a + i)" using mod_eq_dvd_iff_nat [of "a + i" "a + j" N] by simp
  then have "N dvd j - i" by simp
  then show ?case using le nat_dvd_not_less [of "j - i" N] by (cases "j = i") auto
next
  case (sym i j)
  then show ?case by simp
qed

lemma ring_put:
  fixes r w :: "'l::len word"
  assumes N: "N dvd 2 ^ LENGTH('l)" "0 < N" "N < 2 ^ LENGTH('l)" and room: "unat (w - r) < N"
  shows "ring N (buf(unat (w mod of_nat N) := c)) r (w + 1) = ring N buf r w @ [c]"
proof -
  have wr: "r + of_nat (unat (w - r)) = w" by simp
  have "unat (w - r) < 2 ^ LENGTH('l) - 1" using room N(3) by simp
  then have "unat (1 + (w - r)) = Suc (unat (w - r))"
    using unat_of_nat [of "Suc (unat (w - r))", where 'a = 'l] room N(3) by (simp add: take_bit_eq_mod)
  then have len: "unat (w + 1 - r) = Suc (unat (w - r))" by (simp add: algebra_simps)
  have neq: "unat ((r + of_nat i) mod of_nat N) \<noteq> unat (w mod of_nat N)" if "i < unat (w - r)" for i
  proof
    assume "unat ((r + of_nat i) mod of_nat N) = unat (w mod of_nat N)"
    then have "(unat r + i) mod N = (unat r + unat (w - r)) mod N"
      using ring_index [OF N, of r i] ring_index [OF N, of r "unat (w - r)"] wr by simp
    then show False using that room shift_mod_inj [of i N "unat (w - r)" "unat r"] by simp
  qed
  have "ring N (buf(unat (w mod of_nat N) := c)) r (w + 1)
      = map (\<lambda>i. (buf(unat (w mod of_nat N) := c)) (unat ((r + of_nat i) mod of_nat N))) [0..<unat (w - r)] @ [c]"
    by (simp add: ring_def len wr)
  also have "\<dots> = ring N buf r w @ [c]" using neq by (simp add: ring_def)
  finally show ?thesis .
qed

lemma ring_get:
  fixes r w :: "'l::len word"
  assumes "r \<noteq> w"
  shows "ring N buf r w = buf (unat (r mod of_nat N)) # ring N buf (r + 1) w"
proof -
  have "w - r \<noteq> 0" using assms by simp
  then have "unat (w - r) = Suc (unat (w - (r + 1)))"
    using unat_minus_one [of "w - r"] unat_gt_0 [of "w - r"] by (simp add: diff_diff_eq)
  then show ?thesis by (simp add: ring_def upt_conv_Cons map_Suc_upt [symmetric] add_ac o_def del: upt_Suc)
qed

lemma ring_full_iff:
  fixes r w :: "'l::len word"
  assumes "N < 2 ^ LENGTH('l)"
  shows "w = r + of_nat N \<longleftrightarrow> unat (w - r) = N"
proof -
  have "w = r + of_nat N \<longleftrightarrow> w - r = of_nat N" by (auto simp: algebra_simps)
  also have "\<dots> \<longleftrightarrow> unat (w - r) = N"
    using assms by (auto simp: unat_of_nat take_bit_eq_mod)
  finally show ?thesis .
qed

section \<open>The interface of a bounded queue\<close>

datatype 'a fifo_op = Put 'a | Get

text \<open>
  A run of operations in which an operation whose guard fails is not carried out (its caller
  sleeps): the elements accepted, the elements delivered, and the final state.
\<close>

fun fifo_run ::
  "('s \<Rightarrow> bool) \<Rightarrow> ('s \<Rightarrow> bool) \<Rightarrow> ('a \<Rightarrow> 's \<Rightarrow> 's) \<Rightarrow> ('s \<Rightarrow> 'a) \<Rightarrow> ('s \<Rightarrow> 's) \<Rightarrow> 'a fifo_op list \<Rightarrow> 's \<Rightarrow>
     'a list \<times> 'a list \<times> 's" where
  "fifo_run full isempty put peek advance [] s = ([], [], s)"
| "fifo_run full isempty put peek advance (Put x # ops) s =
     (if full s then fifo_run full isempty put peek advance ops s
      else let (ins, outs, t) = fifo_run full isempty put peek advance ops (put x s) in (x # ins, outs, t))"
| "fifo_run full isempty put peek advance (Get # ops) s =
     (if isempty s then fifo_run full isempty put peek advance ops s
      else let (ins, outs, t) = fifo_run full isempty put peek advance ops (advance s) in (ins, peek s # outs, t))"

locale bounded_fifo =
  fixes inv :: "'s \<Rightarrow> bool"
    and cap :: nat
    and full :: "'s \<Rightarrow> bool"
    and isempty :: "'s \<Rightarrow> bool"
    and put :: "'a \<Rightarrow> 's \<Rightarrow> 's"
    and peek :: "'s \<Rightarrow> 'a"
    and advance :: "'s \<Rightarrow> 's"
    and contents :: "'s \<Rightarrow> 'a list"
  assumes put_law: "inv s \<Longrightarrow> \<not> full s \<Longrightarrow> inv (put x s) \<and> contents (put x s) = contents s @ [x]"
    and get_law: "inv s \<Longrightarrow> \<not> isempty s \<Longrightarrow> inv (advance s) \<and> contents s = peek s # contents (advance s)"
    and cap_law: "inv s \<Longrightarrow> length (contents s) \<le> cap"
begin

lemma fifo_order:
  assumes "inv s" "fifo_run full isempty put peek advance ops s = (ins, outs, t)"
  shows "inv t \<and> contents s @ ins = outs @ contents t \<and> length (contents t) \<le> cap"
  using assms
proof (induction ops arbitrary: s ins outs)
  case Nil
  then show ?case using cap_law by auto
next
  case (Cons op ops)
  show ?case
  proof (cases op)
    case (Put x)
    then show ?thesis using Cons put_law [of s x] by (fastforce split: if_splits prod.splits)
  next
    case Get
    then show ?thesis using Cons get_law [of s] by (fastforce split: if_splits prod.splits)
  qed
qed

end

end
