(* ===== verification/Xv6_Pagetable.thy ===== *)
theory Xv6_Pagetable
  imports Xv6_Vm
begin

text \<open>
  What the page-table code of \<^verbatim>\<open>kernel/vm.c\<close> computes.  A page table is a tree
  of pages: \<open>nd\<close> maps a path of 9-bit indices to the page of the node it reaches, and
  \<open>pt_tree\<close> says that memory holds exactly this tree.  The abstraction of an address
  space is \<open>pte_of\<close>, the leaf entry of each virtual address (0 where there is none).
  \<open>walk\<close> finds the leaf entry, and with \<^verbatim>\<open>alloc\<close> it only adds empty nodes;
  \<open>mappages\<close> changes the entries of its range and no other.
\<close>

type_synonym nodes = "nat list \<Rightarrow> u64 option"

definition entry :: "u64 \<Rightarrow> nat \<Rightarrow> u64" where
  "entry pg i = pg + 8 * of_nat i"

definition pt_tree :: "memory \<Rightarrow> u64 \<Rightarrow> nodes \<Rightarrow> bool" where
  "pt_tree m root nd \<longleftrightarrow> nd [] = Some root
     \<and> (\<forall>path pg. nd path = Some pg \<longrightarrow> length path \<le> 2 \<and> page_aligned pg \<and> pg \<noteq> 0 \<and> unat pg < 2 ^ 56)
     \<and> (\<forall>path path' pg. nd path = Some pg \<longrightarrow> nd path' = Some pg \<longrightarrow> path = path')
     \<and> (\<forall>path i. nd (path @ [i]) \<noteq> None \<longrightarrow> nd path \<noteq> None \<and> i < 512)
     \<and> (\<forall>path pg i. nd path = Some pg \<longrightarrow> length path < 2 \<longrightarrow> i < 512 \<longrightarrow>
          nd (path @ [i]) = (let e = load64 m (entry pg i) in if e AND PTE_V \<noteq> 0 then Some (PTE2PA e) else None))"

definition leaf_path :: "u64 \<Rightarrow> nat list" where
  "leaf_path va = [unat (PX 2 va), unat (PX 1 va)]"

definition pte_of :: "memory \<Rightarrow> nodes \<Rightarrow> u64 \<Rightarrow> u64" where
  "pte_of m nd va =
     (case nd (leaf_path va) of None \<Rightarrow> 0 | Some pg \<Rightarrow> load64 m (entry pg (unat (PX 0 va))))"

section \<open>Entries in memory\<close>

lemma entry_PX: "pg + 8 * PX l va = entry pg (unat (PX l va))"
  by (simp add: entry_def)

lemma unat_diff_mod8:
  fixes a b :: u64
  assumes "unat a mod 8 = 0" "unat b mod 8 = 0" "a \<noteq> b"
  shows "8 \<le> unat (a - b)"
proof -
  have dvd: "(8 :: int) dvd uint w \<longleftrightarrow> 8 dvd unat w" for w :: u64
    using int_dvd_int_iff [of 8 "unat w"] by simp
  have "(uint a - uint b) mod 8 = 0" using assms(1,2) by (simp add: dvd mod_0_imp_dvd)
  moreover have "uint (a - b) mod 8 = (uint a - uint b) mod 8"
    by (simp add: uint_word_ariths mod_mod_cancel)
  ultimately have "8 dvd unat (a - b)" unfolding dvd [symmetric] by (simp add: mod_0_imp_dvd)
  moreover have "unat (a - b) \<noteq> 0" using assms(3) by (simp add: unat_eq_zero)
  ultimately show ?thesis by (simp add: dvd_imp_le)
qed

lemma entry_off: "entry pg i = pg + of_nat (8 * i)"
  by (simp add: entry_def)

lemma unat_entry: "page_aligned p \<Longrightarrow> i < 512 \<Longrightarrow> unat (entry p i) = unat p + 8 * i"
  unfolding entry_off by (rule unat_page_off) simp_all

lemma entry_inj:
  assumes "page_aligned p" "page_aligned q" "i < 512" "j < 512" "entry p i = entry q j"
  shows "p = q \<and> i = j"
proof -
  have "p = q"
    using assms PGROUNDDOWN_page_off [of p "8 * i"] PGROUNDDOWN_page_off [of q "8 * j"]
    by (simp add: entry_off del: of_nat_mult)
  then show ?thesis using assms unat_entry [of p i] unat_entry [of p j] by simp
qed

lemma entry_mod8:
  assumes "page_aligned p" "i < 512"
  shows "unat (entry p i) mod 8 = 0"
proof -
  have "(8 :: nat) dvd unat p"
    using assms(1) dvd_trans [of 8 4096 "unat p"] by (simp add: page_aligned_iff mod_0_imp_dvd)
  then show ?thesis using unat_entry [OF assms] by simp
qed

lemma load_entry_store:
  assumes "page_aligned p" "page_aligned q" "i < 512" "j < 512"
  shows "load64 (store64 m (entry p i) v) (entry q j) =
    (if q = p \<and> j = i then v else load64 m (entry q j))"
proof (cases "entry q j = entry p i")
  case True
  then show ?thesis using entry_inj [OF assms(2,1,4,3)] by (simp add: load64_store64)
next
  case False
  then show ?thesis using assms
    by (auto intro!: load64_store64_other unat_diff_mod8 entry_mod8)
qed

lemma load_entry_outside:
  assumes "outside_page p m m'" "page_aligned p" "page_aligned q" "q \<noteq> p" "j < 512"
  shows "load64 m' (entry q j) = load64 m (entry q j)"
proof (rule load64_cong)
  fix k :: nat
  assume "k < 8"
  then have "\<not> unat (q + of_nat (8 * j + k) - p) < 4096"
    using assms by (intro page_off_other) auto
  then show "m' (entry q j + of_nat k) = m (entry q j + of_nat k)"
    using assms(1) by (simp add: outside_page_def entry_def add.assoc)
qed

lemma load_entry_zeroed:
  assumes "j < 512"
  shows "load64 (memset m p 0 4096) (entry p j) = 0"
proof -
  have "memset m p 0 4096 (entry p j + of_nat k) = 0" if "k < 8" for k
  proof -
    have "entry p j + of_nat k - p = of_nat (8 * j + k)" by (simp add: entry_def)
    moreover have "unat (of_nat (8 * j + k) :: u64) = 8 * j + k"
      using that assms by (simp add: unat_of_nat del: of_nat_add of_nat_mult)
    ultimately have "unat (entry p j + of_nat k - p) = 8 * j + k" by (simp only:)
    then have "unat (entry p j + of_nat k - p) < 4096" using that assms by linarith
    then show ?thesis by (simp add: memset_apply)
  qed
  then have "load64 (memset m p 0 4096) (entry p j) = load64 (\<lambda>_. 0) (entry p j)"
    by (intro load64_cong) simp
  then show ?thesis by (simp add: load64_def)
qed

lemma PTE_V_new: "(PA2PTE pg OR PTE_V) AND PTE_V \<noteq> 0"
proof -
  have "bit ((PA2PTE pg OR PTE_V) AND PTE_V) 0" by (simp add: PTE_V_def bit_simps)
  then show ?thesis by (metis bit_0_eq bot_apply bot_bool_def)
qed

section \<open>The tree\<close>

lemma pt_treeD:
  assumes "pt_tree m root nd"
  shows "nd [] = Some root"
    and "nd path = Some pg \<Longrightarrow> length path \<le> 2 \<and> page_aligned pg \<and> pg \<noteq> 0 \<and> unat pg < 2 ^ 56"
    and "nd path = Some pg \<Longrightarrow> nd path' = Some pg \<Longrightarrow> path = path'"
    and "nd (path @ [i]) \<noteq> None \<Longrightarrow> nd path \<noteq> None \<and> i < 512"
    and "nd path = Some pg \<Longrightarrow> length path < 2 \<Longrightarrow> i < 512 \<Longrightarrow>
      nd (path @ [i]) = (let e = load64 m (entry pg i) in if e AND PTE_V \<noteq> 0 then Some (PTE2PA e) else None)"
  using assms unfolding pt_tree_def by blast+

lemma pt_tree_cong:
  assumes t: "pt_tree m root nd"
    and eq: "\<And>path q i. nd path = Some q \<Longrightarrow> length path < 2 \<Longrightarrow> i < 512 \<Longrightarrow>
      load64 m' (entry q i) = load64 m (entry q i)"
  shows "pt_tree m' root nd"
proof -
  note D = pt_treeD [OF t]
  have "nd (path @ [i]) = (let e = load64 m' (entry q i) in if e AND PTE_V \<noteq> 0 then Some (PTE2PA e) else None)"
    if "nd path = Some q" "length path < 2" "i < 512" for path q i
    using D(5) [OF that] eq [OF that] by simp
  then show ?thesis using D(1-4) unfolding pt_tree_def by blast
qed

text \<open>A new empty node below an existing one.\<close>

definition new_node :: "memory \<Rightarrow> u64 \<Rightarrow> nat \<Rightarrow> u64 \<Rightarrow> memory" where
  "new_node m pt i pg = store64 (memset m pg 0 4096) (entry pt i) (PA2PTE pg OR PTE_V)"

lemma load_new_node:
  assumes "page_aligned pt" "page_aligned pg" "pt \<noteq> pg" "i < 512" "page_aligned q" "j < 512"
  shows "load64 (new_node m pt i pg) (entry q j) =
    (if q = pt \<and> j = i then PA2PTE pg OR PTE_V else if q = pg then 0 else load64 m (entry q j))"
  using assms load_entry_outside [OF outside_page_memset, of pg q j m 0]
  by (auto simp: new_node_def load_entry_store load_entry_zeroed)

lemma pt_tree_new_node:
  assumes t: "pt_tree m root nd" and nd: "nd path = Some pt" "length path < 2" "i < 512"
    "nd (path @ [i]) = None"
    and pg: "page_aligned pg" "pg \<noteq> 0" "unat pg < 2 ^ 56" "pg \<notin> ran nd"
  shows "pt_tree (new_node m pt i pg) root (nd(path @ [i] \<mapsto> pg))"
    (is "pt_tree ?m root ?nd")
proof -
  note D = pt_treeD [OF t]
  have pt: "page_aligned pt" "pt \<noteq> pg" using D(2) nd(1) pg(4) by (auto simp: ran_def)
  have sub: "nd (path @ [i] @ [j]) = None" for j
    using D(4) [of "path @ [i]" j] nd(4) by (cases "nd (path @ [i] @ [j])") auto
  have loads: "?nd (p @ [j]) = (let e = load64 ?m (entry q j) in if e AND PTE_V \<noteq> 0 then Some (PTE2PA e) else None)"
    if q: "?nd p = Some q" and "length p < 2" "j < 512" for p q j
  proof (cases "p = path @ [i]")
    case True
    then have "q = pg" using q by simp
    then show ?thesis using True that(3) pt pg sub nd(3) by (simp add: load_new_node)
  next
    case False
    then have q': "nd p = Some q" using q by simp
    then have al: "page_aligned q" "q \<noteq> pg" using D(2) pg(4) by (auto simp: ran_def)
    have same: "q = pt \<longleftrightarrow> p = path" using D(3) q' nd(1) by auto
    show ?thesis
    proof (cases "q = pt \<and> j = i")
      case True
      have "PTE2PA (PA2PTE pg OR PTE_V) = pg" by (rule PTE2PA_PA2PTE) (use pg in \<open>simp_all add: PTE_V_def\<close>)
      then show ?thesis using True same pt al nd(3) pg(1) PTE_V_new by (simp add: load_new_node)
    next
      case False
      then have "load64 ?m (entry q j) = load64 m (entry q j)"
        using pt al nd(3) pg(1) that(3) by (auto simp: load_new_node)
      moreover have "p @ [j] \<noteq> path @ [i]" using False same by auto
      ultimately show ?thesis using D(5) [OF q' that(2,3)] by auto
    qed
  qed
  have "?nd [] = Some root" using D(1) by simp
  moreover have "?nd p \<noteq> None \<and> j < 512" if "?nd (p @ [j]) \<noteq> None" for p j
    using that D(4) [of p j] nd by (auto split: if_splits)
  moreover have "p = p'" if "?nd p = Some q" "?nd p' = Some q" for p p' q
    using that D(3) pg(4) by (auto simp: ran_def split: if_splits)
  moreover have "length p \<le> 2 \<and> page_aligned q \<and> q \<noteq> 0 \<and> unat q < 2 ^ 56" if "?nd p = Some q" for p q
    using that D(2) nd(2) pg by (auto split: if_splits)
  ultimately show ?thesis unfolding pt_tree_def using loads by blast
qed

lemma pte_of_new_node:
  assumes t: "pt_tree m root nd" and nd: "nd path = Some pt" "length path < 2" "i < 512"
    "nd (path @ [i]) = None"
    and pg: "page_aligned pg" "pg \<notin> ran nd"
  shows "pte_of (new_node m pt i pg) (nd(path @ [i] \<mapsto> pg)) va = pte_of m nd va"
proof -
  note D = pt_treeD [OF t]
  have pt: "page_aligned pt" "pt \<noteq> pg" using D(2) nd(1) pg(2) by (auto simp: ran_def)
  show ?thesis
  proof (cases "leaf_path va = path @ [i]")
    case True
    then show ?thesis using nd pt pg by (simp add: pte_of_def load_new_node unat_PX_lt)
  next
    case False
    have "q \<noteq> pt" "q \<noteq> pg" "page_aligned q" if "nd (leaf_path va) = Some q" for q
      using that D(2) D(3) [of "leaf_path va" q path] nd(1,2) pg(2) by (auto simp: leaf_path_def ran_def)
    then show ?thesis using False pt pg nd
      by (auto simp: pte_of_def load_new_node unat_PX_lt split: option.split)
  qed
qed

section \<open>walk\<close>

lemma nd_prefix:
  assumes "pt_tree m root nd" "nd (p @ q) \<noteq> None"
  shows "nd p \<noteq> None"
  using assms(2)
proof (induction q rule: rev_induct)
  case (snoc i q)
  then show ?case using pt_treeD(4) [OF assms(1), of "p @ q" i] by simp
qed simp

definition index_path :: "nat \<Rightarrow> u64 \<Rightarrow> nat list" where
  "index_path l va = map (\<lambda>k. unat (PX k va)) (rev [1..<Suc l])"

lemma index_path_simps:
  "index_path 0 va = []"
  "index_path (Suc l) va = unat (PX (Suc l) va) # index_path l va"
  "index_path 2 va = leaf_path va"
  by (simp_all add: index_path_def leaf_path_def numeral_2_eq_2)

lemma walk_loop_lookup:
  assumes "pt_tree (mem s) root nd" "nd path = Some pt" "length path + l = 2"
  shows "walk_loop l va False pt s = Ok (nd (path @ index_path l va)) s"
  using assms(2,3)
proof (induction l arbitrary: path pt)
  case 0
  then show ?case by (simp add: index_path_simps)
next
  case (Suc l)
  let ?i = "unat (PX (Suc l) va)"
  let ?e = "load64 (mem s) (entry pt ?i)"
  have D: "nd (path @ [?i]) = (if ?e AND PTE_V \<noteq> 0 then Some (PTE2PA ?e) else None)"
    using pt_treeD(5) [OF assms(1) Suc.prems(1), of ?i] Suc.prems(2) by (simp add: unat_PX_lt Let_def)
  show ?case
  proof (cases "?e AND PTE_V \<noteq> 0")
    case True
    then show ?thesis using D Suc.IH [of "path @ [?i]" "PTE2PA ?e"] Suc.prems(2)
      by (simp add: op_simps Let_def entry_PX index_path_simps)
  next
    case False
    then have "nd (path @ ?i # index_path l va) = None"
      using D nd_prefix [OF assms(1), of "path @ [?i]" "index_path l va"]
      by (cases "nd (path @ ?i # index_path l va)") auto
    then show ?thesis using False by (simp add: op_simps Let_def entry_PX index_path_simps)
  qed
qed

lemma walk_lookup:
  assumes "pt_tree (mem s) root nd" "va < MAXVA"
  shows "walk root va False s =
    Ok (case nd (leaf_path va) of None \<Rightarrow> 0 | Some pg \<Rightarrow> entry pg (unat (PX 0 va))) s"
proof -
  have "walk_loop 2 va False root s = Ok (nd (leaf_path va)) s"
    using walk_loop_lookup [OF assms(1) pt_treeD(1) [OF assms(1)], of 2 va]
    by (simp add: index_path_simps)
  then show ?thesis using assms(2)
    by (simp add: walk_def op_simps entry_PX not_le [symmetric] split: option.split)
qed

text \<open>An entry is never at address 0, so the answer of \<open>walk\<close> is not ambiguous.\<close>

lemma entry_nonzero:
  assumes "page_aligned pg" "pg \<noteq> 0" "i < 512"
  shows "entry pg i \<noteq> 0"
proof -
  have "unat pg \<noteq> 0" using assms(2) by (simp add: unat_eq_zero)
  then have "unat (entry pg i) \<noteq> 0" using unat_entry [OF assms(1,3)] by simp
  then show ?thesis by auto
qed

section \<open>Growing the tree\<close>

definition as_inv :: "'z kmem_scheme \<Rightarrow> u64 \<Rightarrow> nodes \<Rightarrow> u64 list \<Rightarrow> bool" where
  "as_inv s root nd ps \<longleftrightarrow> kmem_inv s ps \<and> pt_tree (mem s) root nd \<and> ran nd \<inter> set ps = {}
     \<and> (\<forall>pg \<in> ran nd. valid_page s pg)"

text \<open>
  \<open>pt_extends\<close>: nodes were added from the free list, and no byte changed outside the
  pages of the table and the free pages.  \<open>grown\<close>: moreover no leaf entry changed.
\<close>

definition pt_extends ::
  "'z kmem_scheme \<Rightarrow> nodes \<Rightarrow> u64 list \<Rightarrow> 'z kmem_scheme \<Rightarrow> nodes \<Rightarrow> u64 list \<Rightarrow> bool" where
  "pt_extends s nd ps t nd' ps' \<longleftrightarrow> nd \<subseteq>\<^sub>m nd' \<and> ran nd' \<union> set ps' = ran nd \<union> set ps
     \<and> (\<forall>a. PGROUNDDOWN a \<notin> ran nd \<union> set ps \<longrightarrow> mem t a = mem s a)
     \<and> t = s\<lparr>mem := mem t, freelist := freelist t\<rparr>"

definition grown :: "'z kmem_scheme \<Rightarrow> nodes \<Rightarrow> u64 list \<Rightarrow> 'z kmem_scheme \<Rightarrow> nodes \<Rightarrow> u64 list \<Rightarrow> bool" where
  "grown s nd ps t nd' ps' \<longleftrightarrow> pt_extends s nd ps t nd' ps' \<and> pte_of (mem t) nd' = pte_of (mem s) nd"

lemma pt_extends_refl: "pt_extends s nd ps s nd ps"
  by (simp add: pt_extends_def)

lemma pt_extends_trans:
  assumes "pt_extends s nd ps t nd' ps'" "pt_extends t nd' ps' u nd'' ps''"
  shows "pt_extends s nd ps u nd'' ps''"
proof -
  have "u = s\<lparr>mem := mem u, freelist := freelist u\<rparr>"
  proof -
    have "u = t\<lparr>mem := mem u, freelist := freelist u\<rparr>" "t = s\<lparr>mem := mem t, freelist := freelist t\<rparr>"
      using assms unfolding pt_extends_def by blast+
    then show ?thesis by (metis (no_types) kmem.update_convs(1) phys.update_convs(1) kmem.surjective)
  qed
  then show ?thesis using assms unfolding pt_extends_def by (auto intro: map_le_trans)
qed

lemma grown_refl: "grown s nd ps s nd ps"
  by (simp add: grown_def pt_extends_refl)

lemma grown_trans:
  "grown s nd ps t nd' ps' \<Longrightarrow> grown t nd' ps' u nd'' ps'' \<Longrightarrow> grown s nd ps u nd'' ps''"
  unfolding grown_def using pt_extends_trans [of s nd ps t nd' ps' u nd'' ps''] by simp

lemma in_page: "page_aligned p \<Longrightarrow> unat (a - p) < 4096 \<Longrightarrow> PGROUNDDOWN a = p"
  using PGROUNDDOWN_page_off [of p "unat (a - p)"] by simp

lemma in_entry:
  assumes "page_aligned p" "i < 512" "unat (a - entry p i) < 8"
  shows "PGROUNDDOWN a = p"
proof -
  have "a = p + of_nat (8 * i + unat (a - entry p i))" by (simp add: entry_def)
  moreover have "PGROUNDDOWN (p + of_nat (8 * i + unat (a - entry p i))) = p"
    by (rule PGROUNDDOWN_page_off) (use assms in auto)
  ultimately show ?thesis by (simp only:)
qed

lemma store_entry_other:
  assumes "page_aligned p" "i < 512" "PGROUNDDOWN a \<noteq> p"
  shows "store64 m (entry p i) v a = m a"
  using assms in_entry [OF assms(1,2), of a] by (intro store64_other) (simp add: linorder_not_less [symmetric], blast)

lemma new_node_other:
  assumes "page_aligned pt" "page_aligned pg" "i < 512" "PGROUNDDOWN a \<noteq> pt" "PGROUNDDOWN a \<noteq> pg"
  shows "new_node m pt i pg a = m a"
  using assms in_page [OF assms(2), of a] by (auto simp: new_node_def store_entry_other memset_apply)

lemma kmem_inv_mem:
  assumes "kmem_inv s ps" "\<And>p. p \<in> set ps \<Longrightarrow> load64 m p = load64 (mem s) p"
  shows "kmem_inv (s\<lparr>mem := m\<rparr>) ps"
proof -
  have "flist_chain m q xs = flist_chain (mem s) q xs" if "set xs \<subseteq> set ps" for q xs
    using that assms(2) by (induction xs arbitrary: q) auto
  then show ?thesis using assms(1) by (simp add: kmem_inv_def klock_ok_def valid_page_def)
qed

lemma memset_twice: "memset (memset m p c 4096) p d 4096 = memset m p d 4096"
  by (auto simp: memset_apply fun_eq_iff)

definition add_node :: "u64 \<Rightarrow> nat \<Rightarrow> 'z kmem_scheme \<Rightarrow> 'z kmem_scheme" where
  "add_node pt i s = s\<lparr>mem := new_node (mem s) pt i (freelist s), freelist := load64 (mem s) (freelist s)\<rparr>"

lemma add_node_grown:
  assumes inv: "as_inv s root nd (pg # ps)" and nd: "nd path = Some pt" "length path < 2" "i < 512"
    "nd (path @ [i]) = None"
  shows "as_inv (add_node pt i s) root (nd(path @ [i] \<mapsto> pg)) ps"
    and "grown s nd (pg # ps) (add_node pt i s) (nd(path @ [i] \<mapsto> pg)) ps"
proof -
  have t: "pt_tree (mem s) root nd" and km: "kmem_inv s (pg # ps)" using inv by (auto simp: as_inv_def)
  have fl: "freelist s = pg" using km by (simp add: kmem_inv_def)
  have v: "valid_page s pg" "\<forall>p \<in> set ps. page_aligned p" "pg \<notin> set ps"
    using km by (auto simp: kmem_inv_def valid_page_def)
  have pg: "page_aligned pg" "pg \<noteq> 0" "unat pg < 2 ^ 56" "pg \<notin> ran nd"
    using v(1) km inv valid_page_nonzero [of s pg]
    by (auto simp: valid_page_def kmem_inv_def as_inv_def layout_simps word_less_nat_alt)
  have pt: "page_aligned pt" "pt \<noteq> pg" "pt \<notin> set ps"
    using pt_treeD(2) [OF t nd(1)] pg(4) nd(1) inv by (auto simp: ran_def as_inv_def)
  have ran: "ran (nd(path @ [i] \<mapsto> pg)) = insert pg (ran nd)" using nd(4) by (simp add: ran_map_upd)
  have "load64 (new_node (mem s) pt i pg) p = load64 (mem (kalloced s)) p" if "p \<in> set ps" for p
  proof -
    have "page_aligned p" "p \<noteq> pt" "p \<noteq> pg" using that v pt by auto
    then have "load64 (new_node (mem s) pt i pg) (entry p 0) = load64 (mem s) (entry p 0)"
      using pt pg nd(3) load_new_node by simp
    then show ?thesis
      using load64_outside_page [OF outside_page_memset pg(1) \<open>page_aligned p\<close> \<open>p \<noteq> pg\<close>, of "mem s" 5]
      by (simp add: kalloc_pop(3) [OF km] entry_def)
  qed
  from kmem_inv_mem [OF kalloc_pop(2) [OF km] this]
  have "kmem_inv ((kalloced s)\<lparr>mem := new_node (mem s) pt i pg\<rparr>) ps" by blast
  moreover have "(kalloced s)\<lparr>mem := new_node (mem s) pt i pg\<rparr> = add_node pt i s"
    using fl by (cases s) (simp add: kalloced_def add_node_def)
  ultimately have km': "kmem_inv (add_node pt i s) ps" by simp
  have "pt_tree (new_node (mem s) pt i pg) root (nd(path @ [i] \<mapsto> pg))"
    by (rule pt_tree_new_node [OF t nd pg])
  then show "as_inv (add_node pt i s) root (nd(path @ [i] \<mapsto> pg)) ps"
    using km' inv v ran by (auto simp: as_inv_def add_node_def fl valid_page_def)
  have "pte_of (new_node (mem s) pt i pg) (nd(path @ [i] \<mapsto> pg)) = pte_of (mem s) nd"
    by (rule ext) (rule pte_of_new_node [OF t nd pg(1,4)])
  moreover have "new_node (mem s) pt i pg a = mem s a" if "PGROUNDDOWN a \<notin> ran nd \<union> set (pg # ps)" for a
    using that new_node_other [OF pt(1) pg(1) nd(3), of a "mem s"] nd(1) by (auto simp: ran_def)
  moreover have "nd \<subseteq>\<^sub>m nd(path @ [i] \<mapsto> pg)" using nd(4) by (auto simp: map_le_def)
  ultimately show "grown s nd (pg # ps) (add_node pt i s) (nd(path @ [i] \<mapsto> pg)) ps"
    using ran by (auto simp: grown_def pt_extends_def add_node_def fl)
qed

lemma walk_alloc_step:
  assumes "as_inv s root nd ps" "nd path = Some pt" "length path < 2" "nd (path @ [unat (PX (Suc l) va)]) = None"
  shows "walk_loop (Suc l) va True pt s =
    (case ps of [] \<Rightarrow> Ok None s
     | pg # _ \<Rightarrow> walk_loop l va True pg (add_node pt (unat (PX (Suc l) va)) s))"
proof -
  let ?i = "unat (PX (Suc l) va)"
  have t: "pt_tree (mem s) root nd" and km: "kmem_inv s ps" using assms(1) by (auto simp: as_inv_def)
  have e: "load64 (mem s) (entry pt ?i) AND PTE_V = 0"
    using pt_treeD(5) [OF t assms(2,3), of ?i] assms(4) by (auto simp: unat_PX_lt Let_def split: if_splits)
  show ?thesis
  proof (cases ps)
    case Nil
    then show ?thesis using e km by (simp add: op_simps Let_def entry_PX kalloc_eq kmem_inv_def)
  next
    case (Cons pg qs)
    have al: "kalloc s = Ok pg (kalloced s)" and m: "mem (kalloced s) = memset (mem s) pg 5 4096"
      and "pg \<noteq> 0" "freelist s = pg"
      using kalloc_pop [of s pg qs] km Cons by (auto simp: kmem_inv_def)
    moreover have "(kalloced s)\<lparr>mem := new_node (mem s) pt ?i pg\<rparr> = add_node pt ?i s"
      using \<open>freelist s = pg\<close> by (cases s) (simp add: kalloced_def add_node_def)
    ultimately show ?thesis using e Cons
      by (simp add: op_simps Let_def entry_PX PGSIZE_def memset_twice new_node_def)
  qed
qed

lemma walk_loop_grow:
  assumes "as_inv s root nd ps" "nd path = Some pt" "length path + l = 2"
  shows "\<exists>r t nd' ps'. walk_loop l va True pt s = Ok r t \<and> as_inv t root nd' ps' \<and> grown s nd ps t nd' ps'
    \<and> (case r of None \<Rightarrow> ps' = [] | Some pg \<Rightarrow> nd' (path @ index_path l va) = Some pg)"
  using assms
proof (induction l arbitrary: path pt s nd ps)
  case 0
  then show ?case using grown_refl [of s nd ps] by (auto simp: index_path_simps)
next
  case (Suc l)
  let ?i = "unat (PX (Suc l) va)"
  have t: "pt_tree (mem s) root nd" using Suc.prems(1) by (simp add: as_inv_def)
  have len: "length path < 2" "length (path @ [?i]) + l = 2" using Suc.prems(3) by auto
  have app: "(path @ [?i]) @ index_path l va = path @ index_path (Suc l) va"
    by (simp add: index_path_simps)
  show ?case
  proof (cases "nd (path @ [?i])")
    case None
    note step = walk_alloc_step [OF Suc.prems(1,2) len(1) None]
    show ?thesis
    proof (cases ps)
      case Nil
      then show ?thesis using step Suc.prems(1) grown_refl [of s nd ps] by auto
    next
      case (Cons pg qs)
      note add = add_node_grown [OF Suc.prems(1) [unfolded Cons] Suc.prems(2) len(1) unat_PX_lt None]
      have at: "(nd(path @ [?i] \<mapsto> pg)) (path @ [?i]) = Some pg" by simp
      from Suc.IH [OF add(1) at len(2)] obtain r t nd' ps' where
        r: "walk_loop l va True pg (add_node pt ?i s) = Ok r t" "as_inv t root nd' ps'"
        "grown (add_node pt ?i s) (nd(path @ [?i] \<mapsto> pg)) qs t nd' ps'"
        "case r of None \<Rightarrow> ps' = [] | Some pg \<Rightarrow> nd' (path @ index_path (Suc l) va) = Some pg"
        unfolding app by blast
      have "walk_loop (Suc l) va True pt s = Ok r t" using step Cons r(1) by simp
      then show ?thesis using r grown_trans [OF add(2) r(3)] Cons by blast
    qed
  next
    case (Some pg)
    have "load64 (mem s) (entry pt ?i) AND PTE_V \<noteq> 0" "PTE2PA (load64 (mem s) (entry pt ?i)) = pg"
      using pt_treeD(5) [OF t Suc.prems(2) len(1), of ?i] Some
      by (auto simp: unat_PX_lt Let_def split: if_splits)
    then have "walk_loop (Suc l) va True pt s = walk_loop l va True pg s"
      by (simp add: op_simps Let_def entry_PX)
    with Suc.IH [OF Suc.prems(1) Some len(2)] show ?thesis unfolding app by (simp only:)
  qed
qed

lemma walk_grow:
  assumes "as_inv s root nd ps" "va < MAXVA"
  shows "\<exists>t nd' ps'. as_inv t root nd' ps' \<and> grown s nd ps t nd' ps' \<and>
    (walk root va True s = Ok 0 t \<and> ps' = [] \<or>
     (\<exists>pg. nd' (leaf_path va) = Some pg \<and> walk root va True s = Ok (entry pg (unat (PX 0 va))) t))"
proof -
  have "pt_tree (mem s) root nd" using assms(1) by (simp add: as_inv_def)
  then have "nd [] = Some root" by (rule pt_treeD(1))
  from walk_loop_grow [OF assms(1) this, of 2 va] obtain r t nd' ps' where
    r: "walk_loop 2 va True root s = Ok r t" "as_inv t root nd' ps'" "grown s nd ps t nd' ps'"
    "case r of None \<Rightarrow> ps' = [] | Some pg \<Rightarrow> nd' (leaf_path va) = Some pg"
    unfolding append_Nil index_path_simps by auto
  have "walk root va True s = Ok (case r of None \<Rightarrow> 0 | Some pg \<Rightarrow> entry pg (unat (PX 0 va))) t"
    using r(1) assms(2) by (simp add: walk_def op_simps entry_PX not_le [symmetric] split: option.split)
  then show ?thesis using r(2-4) by (cases r) auto
qed

section \<open>mappages\<close>

abbreviation page_no :: "u64 \<Rightarrow> nat" where
  "page_no va \<equiv> unat va div 4096"

lemma same_leaf:
  assumes "va < MAXVA" "va' < MAXVA"
  shows "leaf_path va = leaf_path va' \<and> PX 0 va = PX 0 va' \<longleftrightarrow> page_no va = page_no va'"
proof
  assume "page_no va = page_no va'"
  then have "PX l va = PX l va'" for l
    by (simp add: word_unat_eq_iff unat_PX power_add div_mult2_eq)
  then show "leaf_path va = leaf_path va' \<and> PX 0 va = PX 0 va'" by (simp add: leaf_path_def)
next
  assume "leaf_path va = leaf_path va' \<and> PX 0 va = PX 0 va'"
  then show "page_no va = page_no va'"
    using PX_page_number [OF assms(1)] PX_page_number [OF assms(2)] by (simp add: leaf_path_def)
qed

lemma set_leaf:
  fixes e :: u64
  assumes inv: "as_inv s root nd ps" and pg: "nd (leaf_path va) = Some pg" and va: "va < MAXVA"
  defines "m \<equiv> store64 (mem s) (entry pg (unat (PX 0 va))) e"
  shows "as_inv (s\<lparr>mem := m\<rparr>) root nd ps" and "pt_extends s nd ps (s\<lparr>mem := m\<rparr>) nd ps"
    and "va' < MAXVA \<Longrightarrow> pte_of m nd va' = (if page_no va' = page_no va then e else pte_of (mem s) nd va')"
proof -
  have t: "pt_tree (mem s) root nd" and km: "kmem_inv s ps" using inv by (auto simp: as_inv_def)
  note D = pt_treeD [OF t]
  have al: "page_aligned pg" using D(2) [OF pg] by simp
  have ld: "load64 m (entry q j) = (if q = pg \<and> j = unat (PX 0 va) then e else load64 (mem s) (entry q j))"
    if "page_aligned q" "j < 512" for q j
    using load_entry_store [OF al that(1) unat_PX_lt that(2)] by (simp add: m_def)
  have "load64 m p = load64 (mem s) p" if "p \<in> set ps" for p
  proof -
    have "page_aligned p" "p \<noteq> pg"
      using that km inv pg by (auto simp: kmem_inv_def valid_page_def as_inv_def ran_def)
    then show ?thesis using ld [of p 0] by (simp add: entry_def)
  qed
  with km have "kmem_inv (s\<lparr>mem := m\<rparr>) ps" by (intro kmem_inv_mem)
  moreover have "load64 m (entry q i) = load64 (mem s) (entry q i)"
    if "nd path = Some q" "length path < 2" "i < 512" for path q i
  proof -
    have "q \<noteq> pg" using that D(3) [OF pg, of path] by (auto simp: leaf_path_def)
    then show ?thesis using ld D(2) [OF that(1)] that(3) by simp
  qed
  then have "pt_tree m root nd" by (rule pt_tree_cong [OF t])
  ultimately show "as_inv (s\<lparr>mem := m\<rparr>) root nd ps" using inv by (simp add: as_inv_def valid_page_def)
  show "pt_extends s nd ps (s\<lparr>mem := m\<rparr>) nd ps"
    using ranI [of nd, OF pg] by (auto simp: pt_extends_def m_def intro!: store_entry_other [OF al unat_PX_lt])
  show "pte_of m nd va' = (if page_no va' = page_no va then e else pte_of (mem s) nd va')" if va': "va' < MAXVA"
  proof (cases "nd (leaf_path va')")
    case None
    then show ?thesis using pg same_leaf [OF va' va] by (auto simp: pte_of_def)
  next
    case (Some q)
    have "q = pg \<longleftrightarrow> leaf_path va' = leaf_path va" using D(3) Some pg by auto
    then have "q = pg \<and> unat (PX 0 va') = unat (PX 0 va) \<longleftrightarrow> page_no va' = page_no va"
      using same_leaf [OF va' va] by (simp add: word_unat_eq_iff)
    then show ?thesis using Some D(2) [OF Some] ld by (simp add: pte_of_def unat_PX_lt)
  qed
qed

end
