(* ===== verification/Xv6_Uvm.thy ===== *)
theory Xv6_Uvm
  imports Xv6_Pagetable
begin

text \<open>
  The address-space operations of \<^verbatim>\<open>kernel/vm.c\<close> on top of the page-table tree:
  \<open>mappages\<close> as an update of the leaf entries of a range, \<open>walkaddr\<close> as address
  translation, and \<open>copyin\<close>/\<open>copyout\<close> as reads and writes of virtual memory.
\<close>

section \<open>mappages\<close>

text \<open>The entries after \<open>k\<close> pages were mapped from page number \<open>p\<close> on.\<close>

definition with_range :: "(u64 \<Rightarrow> u64) \<Rightarrow> nat \<Rightarrow> nat \<Rightarrow> u64 \<Rightarrow> u64 \<Rightarrow> u64 \<Rightarrow> u64" where
  "with_range f p k pa perm va =
     (if p \<le> page_no va \<and> page_no va < p + k
      then PA2PTE (pa + of_nat (page_no va - p) * PGSIZE) OR perm OR PTE_V else f va)"

lemma next_page:
  assumes "a < MAXVA"
  shows "unat (a + PGSIZE) = unat a + 4096" "page_no (a + PGSIZE) = Suc (page_no a)"
proof -
  have "unat a < 0x4000000000" using assms by (simp add: word_less_nat_alt layout_simps)
  then show "unat (a + PGSIZE) = unat a + 4096" by (simp add: unat_word_ariths layout_simps)
  then show "page_no (a + PGSIZE) = Suc (page_no a)" by simp
qed

lemma mapped_page:
  assumes inv: "as_inv s root nd ps" and a: "a < MAXVA" and free: "pte_of (mem s) nd a AND PTE_V = 0"
  shows "(\<exists>t nd'. walk root a True s = Ok 0 t \<and> as_inv t root nd' [] \<and> pt_extends s nd ps t nd' []
      \<and> pte_of (mem t) nd' = pte_of (mem s) nd)
    \<or> (\<exists>pte t nd' ps'. walk root a True s = Ok pte t \<and> pte \<noteq> 0 \<and> load64 (mem t) pte AND PTE_V = 0
      \<and> (let u = t\<lparr>mem := store64 (mem t) pte e\<rparr> in as_inv u root nd' ps' \<and> pt_extends s nd ps u nd' ps'
          \<and> (\<forall>va < MAXVA. pte_of (mem u) nd' va = (if page_no va = page_no a then e else pte_of (mem s) nd va))))"
proof -
  obtain t nd' ps' where t: "as_inv t root nd' ps'" "grown s nd ps t nd' ps'" and
    w: "walk root a True s = Ok 0 t \<and> ps' = [] \<or>
     (\<exists>pg. nd' (leaf_path a) = Some pg \<and> walk root a True s = Ok (entry pg (unat (PX 0 a))) t)"
    using walk_grow [OF inv a] by blast
  have g: "pt_extends s nd ps t nd' ps'" "pte_of (mem t) nd' = pte_of (mem s) nd"
    using t(2) by (auto simp: grown_def)
  from w show ?thesis
  proof
    assume "walk root a True s = Ok 0 t \<and> ps' = []"
    then show ?thesis using t(1) g by blast
  next
    assume "\<exists>pg. nd' (leaf_path a) = Some pg \<and> walk root a True s = Ok (entry pg (unat (PX 0 a))) t"
    then obtain pg where pg: "nd' (leaf_path a) = Some pg"
      and walk: "walk root a True s = Ok (entry pg (unat (PX 0 a))) t" by blast
    let ?pte = "entry pg (unat (PX 0 a))"
    note leaf = set_leaf [OF t(1) pg a, where e = e]
    have "page_aligned pg" "pg \<noteq> 0"
      using pt_treeD(2) [of "mem t" root nd' "leaf_path a" pg] t(1) pg by (auto simp: as_inv_def)
    then have "?pte \<noteq> 0" by (rule entry_nonzero [OF _ _ unat_PX_lt])
    moreover have "load64 (mem t) ?pte AND PTE_V = 0"
      using free pg by (simp add: g(2) [symmetric] pte_of_def)
    moreover have "pt_extends s nd ps (t\<lparr>mem := store64 (mem t) ?pte e\<rparr>) nd' ps'"
      by (rule pt_extends_trans [OF g(1) leaf(2)])
    ultimately show ?thesis using walk leaf(1,3) g(2)
      by (intro disjI2 exI [of _ ?pte] exI [of _ t] exI [of _ nd'] exI [of _ ps']) (simp add: Let_def)
  qed
qed

lemma mappages_loop_step:
  fixes s :: "'z kmem_scheme" and pa perm :: u64
  assumes inv: "as_inv s root nd ps" and a: "a < MAXVA" and free: "pte_of (mem s) nd a AND PTE_V = 0"
  defines "e \<equiv> PA2PTE pa OR perm OR PTE_V"
  shows "(\<exists>t nd'. mappages_loop root a last_va pa perm s = Ok (- 1) t \<and> as_inv t root nd' []
      \<and> pt_extends s nd ps t nd' [] \<and> pte_of (mem t) nd' = pte_of (mem s) nd)
    \<or> (\<exists>u nd' ps'. mappages_loop root a last_va pa perm s =
        (if a = last_va then Ok 0 u else mappages_loop root (a + PGSIZE) last_va (pa + PGSIZE) perm u)
      \<and> as_inv u root nd' ps' \<and> pt_extends s nd ps u nd' ps'
      \<and> (\<forall>va < MAXVA. pte_of (mem u) nd' va = (if page_no va = page_no a then e else pte_of (mem s) nd va)))"
  using mapped_page [OF inv a free, of e]
proof (elim disjE exE conjE)
  fix t nd'
  assume w: "walk root a True s = Ok 0 t" "as_inv t root nd' []" "pt_extends s nd ps t nd' []"
    "pte_of (mem t) nd' = pte_of (mem s) nd"
  have "mappages_loop root a last_va pa perm s = Ok (- 1) t"
    using w(1) less_le_not_le [THEN iffD1, OF a] by (subst mappages_loop.simps) (simp add: op_simps)
  then show ?thesis using w by blast
next
  fix pte nd' ps' and t :: "'z kmem_scheme"
  let ?u = "t\<lparr>mem := store64 (mem t) pte e\<rparr>"
  assume w: "walk root a True s = Ok pte t" "pte \<noteq> 0" "load64 (mem t) pte AND PTE_V = 0"
    "let u = ?u in as_inv u root nd' ps' \<and> pt_extends s nd ps u nd' ps'
       \<and> (\<forall>va < MAXVA. pte_of (mem u) nd' va = (if page_no va = page_no a then e else pte_of (mem s) nd va))"
  have "mappages_loop root a last_va pa perm s =
      (if a = last_va then Ok 0 ?u else mappages_loop root (a + PGSIZE) last_va (pa + PGSIZE) perm ?u)"
    using w(1-3) less_le_not_le [THEN iffD1, OF a] by (subst mappages_loop.simps) (auto simp: op_simps e_def)
  then show ?thesis using w(4) unfolding Let_def by blast
qed

lemma unat_aligned: "page_aligned a \<Longrightarrow> unat a = page_no a * 4096"
  using div_mult_mod_eq [of "unat a" 4096] by (simp add: page_aligned_iff)

lemma aligned_page_no_eq: "page_aligned a \<Longrightarrow> page_aligned b \<Longrightarrow> page_no a = page_no b \<Longrightarrow> a = b"
  using unat_aligned [of a] unat_aligned [of b] by (simp add: word_unat_eq_iff)

lemma with_range_0: "with_range f p 0 pa perm = f"
  by (auto simp: with_range_def fun_eq_iff)

lemma with_range_Suc:
  "with_range (\<lambda>va. if page_no va = p then PA2PTE pa OR perm OR PTE_V else f va) (Suc p) k (pa + PGSIZE) perm va
     = with_range f p (Suc k) pa perm va"
proof (cases "Suc p \<le> page_no va")
  case True
  then have "page_no va - p = Suc (page_no va - Suc p)" by simp
  then have "pa + of_nat (page_no va - p) * PGSIZE = pa + PGSIZE + of_nat (page_no va - Suc p) * PGSIZE"
    by (simp add: algebra_simps)
  then show ?thesis using True by (simp add: with_range_def add.assoc)
next
  case False
  then show ?thesis by (auto simp: with_range_def not_less_eq_eq)
qed

lemma with_range_cong:
  "f va = g va \<Longrightarrow> with_range f p k pa perm va = with_range g p k pa perm va"
  by (simp add: with_range_def)

text \<open>
  The range is mapped completely, or memory ran out after some pages: then the mapping of
  these pages stays, and there is no free page left.
\<close>

definition mappages_post ::
  "'z kmem_scheme \<Rightarrow> u64 \<Rightarrow> nodes \<Rightarrow> u64 list \<Rightarrow> nat \<Rightarrow> nat \<Rightarrow> u64 \<Rightarrow> u64 \<Rightarrow> int \<Rightarrow> 'z kmem_scheme \<Rightarrow> bool" where
  "mappages_post s root nd ps p n pa perm r t \<longleftrightarrow>
     (\<exists>nd' ps' k. as_inv t root nd' ps' \<and> pt_extends s nd ps t nd' ps'
       \<and> (\<forall>va < MAXVA. pte_of (mem t) nd' va = with_range (pte_of (mem s) nd) p k pa perm va)
       \<and> (r = 0 \<and> k = n \<or> r = - 1 \<and> k < n \<and> ps' = []))"

lemma mappages_post_Suc:
  assumes "pt_extends s nd ps u nd' ps'"
    and "\<forall>va < MAXVA. pte_of (mem u) nd' va = (if page_no va = p then PA2PTE pa OR perm OR PTE_V else pte_of (mem s) nd va)"
    and "mappages_post u root nd' ps' (Suc p) n (pa + PGSIZE) perm r t"
  shows "mappages_post s root nd ps p (Suc n) pa perm r t"
proof -
  obtain nd'' ps'' k where k: "as_inv t root nd'' ps''" "pt_extends u nd' ps' t nd'' ps''"
    "\<forall>va < MAXVA. pte_of (mem t) nd'' va = with_range (pte_of (mem u) nd') (Suc p) k (pa + PGSIZE) perm va"
    "r = 0 \<and> k = n \<or> r = - 1 \<and> k < n \<and> ps'' = []"
    using assms(3) by (auto simp: mappages_post_def)
  have "pte_of (mem t) nd'' va = with_range (pte_of (mem s) nd) p (Suc k) pa perm va" if "va < MAXVA" for va
  proof -
    have "with_range (pte_of (mem u) nd') (Suc p) k (pa + PGSIZE) perm va =
        with_range (\<lambda>va. if page_no va = p then PA2PTE pa OR perm OR PTE_V else pte_of (mem s) nd va)
          (Suc p) k (pa + PGSIZE) perm va"
      by (rule with_range_cong) (use assms(2) that in simp)
    then show ?thesis using k(3) that by (simp only: with_range_Suc)
  qed
  then show ?thesis using k(1,4) pt_extends_trans [OF assms(1) k(2)] unfolding mappages_post_def
    by (intro exI [of _ nd''] exI [of _ ps''] exI [of _ "Suc k"]) auto
qed

lemma mappages_loop_maps:
  assumes "as_inv s root nd ps" "page_aligned a" "a < MAXVA"
    and "last_va < MAXVA" "page_aligned last_va" "page_no last_va = page_no a + n"
    and "\<And>va. va < MAXVA \<Longrightarrow> page_no a \<le> page_no va \<Longrightarrow> page_no va \<le> page_no a + n \<Longrightarrow>
      pte_of (mem s) nd va AND PTE_V = 0"
  shows "\<exists>r t. mappages_loop root a last_va pa perm s = Ok r t
    \<and> mappages_post s root nd ps (page_no a) (Suc n) pa perm r t"
  using assms
proof (induction n arbitrary: s nd ps a pa)
  case (0 s nd ps a pa)
  have eq: "a = last_va" using aligned_page_no_eq 0(2,5,6) by simp
  have free: "pte_of (mem s) nd a AND PTE_V = 0" using 0 by simp
  from mappages_loop_step [OF 0(1,3) free, where pa = pa and perm = perm and last_va = last_va] show ?case
  proof (elim disjE exE conjE)
    fix t nd'
    assume "mappages_loop root a last_va pa perm s = Ok (- 1) t" "as_inv t root nd' []"
      "pt_extends s nd ps t nd' []" "pte_of (mem t) nd' = pte_of (mem s) nd"
    then show ?thesis unfolding mappages_post_def
      by (intro exI [of _ "- 1"] exI [of _ t] conjI exI [of _ nd'] exI [of _ "[]"] exI [of _ 0])
        (simp_all add: with_range_0)
  next
    fix u nd' ps'
    assume "mappages_loop root a last_va pa perm s =
        (if a = last_va then Ok 0 u else mappages_loop root (a + PGSIZE) last_va (pa + PGSIZE) perm u)"
      "as_inv u root nd' ps'" "pt_extends s nd ps u nd' ps'" "\<forall>va < MAXVA. pte_of (mem u) nd' va =
        (if page_no va = page_no a then PA2PTE pa OR perm OR PTE_V else pte_of (mem s) nd va)"
    then show ?thesis using eq unfolding mappages_post_def
      by (intro exI [of _ 0] exI [of _ u] conjI exI [of _ nd'] exI [of _ ps'] exI [of _ 1])
        (simp_all add: with_range_def)
  qed
next
  case (Suc n s nd ps a pa)
  have ne: "a \<noteq> last_va" using Suc.prems(6) by auto
  have free: "pte_of (mem s) nd a AND PTE_V = 0" using Suc.prems by simp
  from mappages_loop_step [OF Suc.prems(1,3) free, where pa = pa and perm = perm and last_va = last_va] show ?case
  proof (elim disjE exE conjE)
    fix t nd'
    assume "mappages_loop root a last_va pa perm s = Ok (- 1) t" "as_inv t root nd' []"
      "pt_extends s nd ps t nd' []" "pte_of (mem t) nd' = pte_of (mem s) nd"
    then show ?thesis unfolding mappages_post_def
      by (intro exI [of _ "- 1"] exI [of _ t] conjI exI [of _ nd'] exI [of _ "[]"] exI [of _ 0])
        (simp_all add: with_range_0)
  next
    fix u nd' ps'
    assume u: "mappages_loop root a last_va pa perm s =
        (if a = last_va then Ok 0 u else mappages_loop root (a + PGSIZE) last_va (pa + PGSIZE) perm u)"
      "as_inv u root nd' ps'" "pt_extends s nd ps u nd' ps'" "\<forall>va < MAXVA. pte_of (mem u) nd' va =
        (if page_no va = page_no a then PA2PTE pa OR perm OR PTE_V else pte_of (mem s) nd va)"
    note nx = next_page [OF Suc.prems(3)]
    have al: "page_aligned (a + PGSIZE)" using Suc.prems(2) nx(1) by (simp add: page_aligned_iff)
    have lt: "a + PGSIZE < MAXVA"
    proof -
      have "page_no (a + PGSIZE) \<le> page_no last_va" using nx(2) Suc.prems(6) by simp
      then have "unat (a + PGSIZE) \<le> unat last_va"
        using unat_aligned [OF al] unat_aligned [OF Suc.prems(5)] by linarith
      then show ?thesis using Suc.prems(4) by (simp add: word_less_nat_alt)
    qed
    have "pte_of (mem u) nd' va AND PTE_V = 0"
      if "va < MAXVA" "page_no (a + PGSIZE) \<le> page_no va" "page_no va \<le> page_no (a + PGSIZE) + n" for va
      using that u(4) Suc.prems(7) [of va] nx(2) by simp
    from Suc.IH [OF u(2) al lt Suc.prems(4,5) _ this, of "pa + PGSIZE"] obtain r t where
      t: "mappages_loop root (a + PGSIZE) last_va (pa + PGSIZE) perm u = Ok r t"
        "mappages_post u root nd' ps' (Suc (page_no a)) (Suc n) (pa + PGSIZE) perm r t"
      using nx(2) Suc.prems(6) by auto
    have "mappages_post s root nd ps (page_no a) (Suc (Suc n)) pa perm r t"
      by (rule mappages_post_Suc [OF u(3,4) t(2)])
    then show ?thesis using t(1) u(1) ne by auto
  qed
qed

section \<open>Address translation\<close>

text \<open>The user translation of a page table: 0 where \<^verbatim>\<open>walkaddr\<close> reports an unmapped page.\<close>

definition user_pa :: "memory \<Rightarrow> nodes \<Rightarrow> u64 \<Rightarrow> u64" where
  "user_pa m nd va =
     (let e = pte_of m nd va in
      if va < MAXVA \<and> e AND PTE_V \<noteq> 0 \<and> e AND PTE_U \<noteq> 0 then PTE2PA e else 0)"

lemma walkaddr_eq:
  assumes t: "pt_tree (mem s) root nd"
  shows "walkaddr root va s = Ok (user_pa (mem s) nd va) s"
proof (cases "va < MAXVA")
  case False
  then have "MAXVA \<le> va" by simp
  then show ?thesis using False by (simp add: walkaddr_def user_pa_def Let_def)
next
  case True
  then have na: "\<not> MAXVA \<le> va" by simp
  show ?thesis
  proof (cases "nd (leaf_path va)")
    case None
    then show ?thesis using na walk_lookup [OF t True]
      by (simp add: walkaddr_def user_pa_def pte_of_def op_simps)
  next
    case (Some pg)
    have "entry pg (unat (PX 0 va)) \<noteq> 0"
      using pt_treeD(2) [OF t Some] entry_nonzero unat_PX_lt by blast
    then show ?thesis using True na Some walk_lookup [OF t True]
      by (simp add: walkaddr_def user_pa_def pte_of_def op_simps Let_def)
  qed
qed

definition translate :: "memory \<Rightarrow> nodes \<Rightarrow> u64 \<Rightarrow> u64" where
  "translate m nd va = user_pa m nd (PGROUNDDOWN va) + (va - PGROUNDDOWN va)"

abbreviation user_mapped :: "memory \<Rightarrow> nodes \<Rightarrow> u64 \<Rightarrow> bool" where
  "user_mapped m nd va \<equiv> user_pa m nd (PGROUNDDOWN va) \<noteq> 0"

lemma within_page:
  assumes "i < 4096 - unat (va - PGROUNDDOWN va)"
  shows "PGROUNDDOWN (va + of_nat i) = PGROUNDDOWN va"
    and "translate m nd (va + of_nat i) = user_pa m nd (PGROUNDDOWN va) + (va - PGROUNDDOWN va) + of_nat i"
proof -
  let ?o = "unat (va - PGROUNDDOWN va)"
  have "va + of_nat i = PGROUNDDOWN va + of_nat (?o + i)" by simp
  moreover have "PGROUNDDOWN (PGROUNDDOWN va + of_nat (?o + i)) = PGROUNDDOWN va"
    by (rule PGROUNDDOWN_page_off [OF page_aligned_PGROUNDDOWN]) (use assms in simp)
  ultimately show *: "PGROUNDDOWN (va + of_nat i) = PGROUNDDOWN va" by (simp only:)
  show "translate m nd (va + of_nat i) = user_pa m nd (PGROUNDDOWN va) + (va - PGROUNDDOWN va) + of_nat i"
    unfolding translate_def * by (simp add: algebra_simps)
qed

section \<open>copyin\<close>

text \<open>The bytes of virtual memory from \<open>va\<close> on, up to the first unmapped page.\<close>

definition vread :: "memory \<Rightarrow> nodes \<Rightarrow> u64 \<Rightarrow> nat \<Rightarrow> u8 list" where
  "vread m nd va len =
     map (\<lambda>i. m (translate m nd (va + of_nat i))) (takeWhile (\<lambda>i. user_mapped m nd (va + of_nat i)) [0..<len])"

lemma vread_split:
  assumes "n \<le> len" "\<And>i. i < n \<Longrightarrow> user_mapped m nd (va + of_nat i)"
  shows "vread m nd va len =
    map (\<lambda>i. m (translate m nd (va + of_nat i))) [0..<n] @ vread m nd (va + of_nat n) (len - n)"
proof -
  have split: "[0..<len] = [0..<n] @ map (\<lambda>i. i + n) [0..<len - n]"
    using assms(1) upt_add_eq_append [of 0 n "len - n"] map_add_upt [of n "len - n"] by simp
  have "takeWhile (\<lambda>i. user_mapped m nd (va + of_nat i)) ([0..<n] @ xs) =
      [0..<n] @ takeWhile (\<lambda>i. user_mapped m nd (va + of_nat i)) xs" for xs
    by (rule takeWhile_append2) (use assms(2) in simp)
  then show ?thesis unfolding vread_def split by (simp add: takeWhile_map o_def add_ac)
qed

lemma vread_unmapped: "\<not> user_mapped m nd va \<Longrightarrow> vread m nd va len = []"
  by (cases len) (simp_all add: vread_def upt_conv_Cons del: upt_Suc)

lemma copyin_vread:
  assumes t: "pt_tree (mem s) root nd"
  shows "copyin root va len s =
    (let bs = vread (mem s) nd va len in Ok (bs, if length bs = len then 0 else - 1) s)"
proof (induction len arbitrary: va rule: less_induct)
  case (less len)
  let ?va0 = "PGROUNDDOWN va" and ?o = "va - PGROUNDDOWN va"
  let ?pa = "user_pa (mem s) nd (PGROUNDDOWN va)" and ?n = "min (4096 - unat (va - PGROUNDDOWN va)) len"
  show ?case
  proof (cases "len = 0 \<or> ?pa = 0")
    case True
    then show ?thesis using walkaddr_eq [OF t] vread_unmapped [of "mem s" nd va len]
      by (subst copyin.simps) (auto simp: op_simps Let_def vread_def)
  next
    case False
    have n: "0 < ?n" "?n \<le> len" using False page_offset_lt [of va] by auto
    have pg: "PGROUNDDOWN (va + of_nat i) = ?va0" "translate (mem s) nd (va + of_nat i) = ?pa + ?o + of_nat i"
      if "i < ?n" for i
      using that within_page [of i va] by auto
    have bytes: "load_bytes (mem s) (?pa + ?o) ?n = map (\<lambda>i. mem s (translate (mem s) nd (va + of_nat i))) [0..<?n]"
      using pg(2) by (simp add: load_bytes_def)
    have rest: "copyin root (?va0 + PGSIZE) (len - ?n) s =
        (let bs = vread (mem s) nd (va + of_nat ?n) (len - ?n) in Ok (bs, if length bs = len - ?n then 0 else - 1) s)"
    proof (cases "?n = len")
      case True
      then show ?thesis by (subst copyin.simps) (simp add: vread_def)
    next
      case False
      then have "va + of_nat ?n = ?va0 + PGSIZE"
        using page_offset_lt [of va] by (simp add: min_def PGSIZE_def of_nat_diff split: if_splits)
      then show ?thesis using less.IH [of "len - ?n" "?va0 + PGSIZE"] n by simp
    qed
    have "vread (mem s) nd va len = load_bytes (mem s) (?pa + ?o) ?n @ vread (mem s) nd (va + of_nat ?n) (len - ?n)"
      unfolding bytes by (rule vread_split [OF n(2)]) (use pg(1) False in simp)
    moreover have "length (load_bytes (mem s) (?pa + ?o) ?n) = ?n" by (simp add: load_bytes_def)
    moreover have "copyin root va len s = bind (copyin root (?va0 + PGSIZE) (len - ?n))
        (\<lambda>(rest, r). ret (load_bytes (mem s) (?pa + ?o) ?n @ rest, r)) s"
      using False by (subst copyin.simps) (simp add: walkaddr_eq [OF t] op_simps Let_def PGSIZE_def)
    moreover have "?n + l = len \<longleftrightarrow> l = len - ?n" for l using n(2) by linarith
    ultimately show ?thesis unfolding Let_def by (simp add: rest op_simps Let_def)
  qed
qed

section \<open>copyout\<close>

lemma page_aligned_PTE2PA: "page_aligned (PTE2PA e)"
proof -
  have "PGROUNDDOWN (PTE2PA e) = PTE2PA e"
    unfolding PGROUNDDOWN_drop PTE2PA_def by (rule bit_word_eqI) (auto simp: bit_simps)
  then show ?thesis using page_aligned_PGROUNDDOWN by metis
qed

lemma page_aligned_user_pa: "page_aligned (user_pa m nd va)"
  by (simp add: user_pa_def Let_def page_aligned_PTE2PA) (simp add: page_aligned_def)

lemma PGROUNDDOWN_translate: "PGROUNDDOWN (translate m nd va) = user_pa m nd (PGROUNDDOWN va)"
  using PGROUNDDOWN_page_off [OF page_aligned_user_pa page_offset_lt [of va], of m nd "PGROUNDDOWN va"]
  by (simp add: translate_def)

text \<open>Writes outside the pages of the table do not change the translation.\<close>

lemma table_frame:
  assumes t: "pt_tree m root nd" and eq: "\<And>a. PGROUNDDOWN a \<in> ran nd \<Longrightarrow> m' a = m a"
  shows "pt_tree m' root nd" and "user_pa m' nd = user_pa m nd" and "translate m' nd = translate m nd"
proof -
  have ld: "load64 m' (entry q i) = load64 m (entry q i)" if q: "nd path = Some q" "i < 512" for path q i
  proof (rule load64_cong)
    fix k :: nat
    assume "k < 8"
    then have "PGROUNDDOWN (entry q i + of_nat k) = q"
      using pt_treeD(2) [OF t q(1)] q(2) by (intro in_entry [of q i]) (simp_all add: unat_of_nat)
    then show "m' (entry q i + of_nat k) = m (entry q i + of_nat k)" using eq ranI [of nd, OF q(1)] by simp
  qed
  then show "pt_tree m' root nd" by (intro pt_tree_cong [OF t])
  have "pte_of m' nd = pte_of m nd"
    using ld by (auto simp: pte_of_def fun_eq_iff unat_PX_lt split: option.split)
  then show "user_pa m' nd = user_pa m nd" by (simp add: user_pa_def fun_eq_iff)
  then show "translate m' nd = translate m nd" by (simp add: translate_def fun_eq_iff)
qed

primrec vwrite :: "(u64 \<Rightarrow> u64) \<Rightarrow> memory \<Rightarrow> u64 \<Rightarrow> u8 list \<Rightarrow> memory" where
  "vwrite tr m va [] = m"
| "vwrite tr m va (b # bs) = vwrite tr (m(tr va := b)) (va + 1) bs"

lemma vwrite_append:
  "vwrite tr m va (xs @ ys) = vwrite tr (vwrite tr m va xs) (va + of_nat (length xs)) ys"
  by (induction xs arbitrary: m va) (simp_all add: add_ac)

lemma vwrite_store_bytes:
  "(\<And>i. i < length bs \<Longrightarrow> tr (va + of_nat i) = a + of_nat i) \<Longrightarrow> vwrite tr m va bs = store_bytes m a bs"
proof (induction bs arbitrary: m va a)
  case (Cons b bs)
  have "tr va = a" using Cons.prems [of 0] by simp
  moreover have "tr (va + 1 + of_nat i) = a + 1 + of_nat i" if "i < length bs" for i
    using Cons.prems [of "Suc i"] that by (simp add: add_ac)
  ultimately show ?case using Cons.IH [of "va + 1" "a + 1"] by simp
qed simp

lemma vwrite_other:
  "(\<And>i. i < length bs \<Longrightarrow> a \<noteq> tr (va + of_nat i)) \<Longrightarrow> vwrite tr m va bs a = m a"
proof (induction bs arbitrary: m va)
  case (Cons b bs)
  have "a \<noteq> tr va" using Cons.prems [of 0] by simp
  moreover have "a \<noteq> tr (va + 1 + of_nat i)" if "i < length bs" for i
    using Cons.prems [of "Suc i"] that by (simp add: add_ac)
  ultimately show ?case using Cons.IH [of "va + 1"] by simp
qed simp

lemma vwrite_read:
  assumes "i < length bs" "\<And>i j. i < length bs \<Longrightarrow> j < length bs \<Longrightarrow> tr (va + of_nat i) = tr (va + of_nat j) \<Longrightarrow> i = j"
  shows "vwrite tr m va bs (tr (va + of_nat i)) = bs ! i"
  using assms
proof (induction bs arbitrary: m va i)
  case (Cons b bs)
  show ?case
  proof (cases i)
    case 0
    have "tr va \<noteq> tr (va + 1 + of_nat j)" if "j < length bs" for j
      using Cons.prems(2) [of 0 "Suc j"] that by (auto simp: add_ac)
    then show ?thesis using 0 by (simp add: vwrite_other)
  next
    case (Suc k)
    have inj: "j = l" if "j < length bs" "l < length bs" "tr (va + 1 + of_nat j) = tr (va + 1 + of_nat l)" for j l
      using Cons.prems(2) [of "Suc j" "Suc l"] that by (simp add: add_ac)
    have "k < length bs" using Suc Cons.prems(1) by simp
    then have "vwrite tr (m(tr va := b)) (va + 1) bs (tr (va + 1 + of_nat k)) = bs ! k"
      by (rule Cons.IH) (rule inj)
    then show ?thesis using Suc by (simp add: add_ac)
  qed
qed simp

lemma copyout_vwrite:
  assumes "pt_tree (mem s) root nd"
    and "\<And>i. i < length bs \<Longrightarrow> user_mapped (mem s) nd (va + of_nat i)
      \<and> user_pa (mem s) nd (PGROUNDDOWN (va + of_nat i)) \<notin> ran nd"
  shows "copyout root va bs s = Ok 0 (s\<lparr>mem := vwrite (translate (mem s) nd) (mem s) va bs\<rparr>)"
  using assms
proof (induction "length bs" arbitrary: bs va s rule: less_induct)
  case less
  note t = less.prems(1) and ok = less.prems(2)
  let ?va0 = "PGROUNDDOWN va" and ?o = "va - PGROUNDDOWN va"
  let ?pa = "user_pa (mem s) nd (PGROUNDDOWN va)"
  define n where "n = min (4096 - unat (va - PGROUNDDOWN va)) (length bs)"
  let ?tr = "translate (mem s) nd"
  let ?s = "s\<lparr>mem := store_bytes (mem s) (?pa + ?o) (take n bs)\<rparr>"
  show ?case
  proof (cases "bs = []")
    case True
    then show ?thesis by (subst copyout.simps) simp
  next
    case False
    have n: "0 < n" "n \<le> length bs" using False page_offset_lt [of va] by (auto simp: n_def)
    have pa: "?pa \<noteq> 0" "?pa \<notin> ran nd" using ok [of 0] False by auto
    have pg: "PGROUNDDOWN (va + of_nat i) = ?va0" "?tr (va + of_nat i) = ?pa + ?o + of_nat i" if "i < n" for i
      using that within_page [of i va] by (auto simp: n_def)
    have st: "store_bytes (mem s) (?pa + ?o) (take n bs) = vwrite ?tr (mem s) va (take n bs)"
      using pg(2) by (intro vwrite_store_bytes [symmetric]) simp
    have "vwrite ?tr (mem s) va (take n bs) a = mem s a" if "PGROUNDDOWN a \<in> ran nd" for a
      by (rule vwrite_other) (use that pa(2) pg(1) PGROUNDDOWN_translate in auto)
    note fr = table_frame [OF t this]
    have one: "copyout root va bs s = copyout root (?va0 + PGSIZE) (drop n bs) ?s"
      using False pa by (subst copyout.simps) (simp add: walkaddr_eq [OF t] op_simps Let_def PGSIZE_def n_def)
    show ?thesis
    proof (cases "n = length bs")
      case True
      then show ?thesis using one st by (simp add: copyout.simps [of root _ "[]"])
    next
      case rest: False
      then have va': "va + of_nat n = ?va0 + PGSIZE"
        using page_offset_lt [of va] by (simp add: n_def min_def PGSIZE_def of_nat_diff split: if_splits)
      have ok': "user_mapped (mem ?s) nd (?va0 + PGSIZE + of_nat i)
          \<and> user_pa (mem ?s) nd (PGROUNDDOWN (?va0 + PGSIZE + of_nat i)) \<notin> ran nd" if "i < length (drop n bs)" for i
      proof -
        have "?va0 + PGSIZE + of_nat i = va + of_nat (n + i)" unfolding va' [symmetric] by (simp add: add_ac)
        moreover have "user_pa (mem ?s) nd = user_pa (mem s) nd" by (simp add: st fr(2))
        ultimately show ?thesis using ok [of "n + i"] that by (simp only: length_drop less_diff_conv2 n) simp
      qed
      have "copyout root (?va0 + PGSIZE) (drop n bs) ?s =
          Ok 0 (?s\<lparr>mem := vwrite (translate (mem ?s) nd) (mem ?s) (?va0 + PGSIZE) (drop n bs)\<rparr>)"
        by (rule less.hyps) (use n fr(1) st ok' in simp_all)
      moreover have "vwrite ?tr (vwrite ?tr (mem s) va (take n bs)) (?va0 + PGSIZE) (drop n bs) =
          vwrite ?tr (mem s) va bs"
        using vwrite_append [of ?tr "mem s" va "take n bs" "drop n bs"] n(2) va' by simp
      ultimately show ?thesis using one st fr(3) by simp
    qed
  qed
qed

text \<open>What was copied out is what is copied in, if the pages do not alias.\<close>

lemma copyout_copyin:
  assumes t: "pt_tree (mem s) root nd"
    and ok: "\<And>i. i < length bs \<Longrightarrow> user_mapped (mem s) nd (va + of_nat i)
      \<and> user_pa (mem s) nd (PGROUNDDOWN (va + of_nat i)) \<notin> ran nd"
    and inj: "\<And>i j. i < length bs \<Longrightarrow> j < length bs \<Longrightarrow>
      translate (mem s) nd (va + of_nat i) = translate (mem s) nd (va + of_nat j) \<Longrightarrow> i = j"
  shows "\<exists>u. copyout root va bs s = Ok 0 u \<and> copyin root va (length bs) u = Ok (bs, 0) u"
proof -
  let ?tr = "translate (mem s) nd"
  let ?m = "vwrite ?tr (mem s) va bs"
  have "?m a = mem s a" if "PGROUNDDOWN a \<in> ran nd" for a
    by (rule vwrite_other) (use that ok PGROUNDDOWN_translate in metis)
  note fr = table_frame [OF t this]
  have "takeWhile (\<lambda>i. user_mapped ?m nd (va + of_nat i)) [0..<length bs] = [0..<length bs]"
    using ok fr(2) by (simp add: takeWhile_eq_all_conv)
  then have "vread ?m nd va (length bs) = map (\<lambda>i. ?m (?tr (va + of_nat i))) [0..<length bs]"
    by (simp only: vread_def fr(3))
  also have "\<dots> = map ((!) bs) [0..<length bs]"
    by (rule map_cong [OF refl]) (use vwrite_read [of _ bs ?tr va] inj in simp)
  also have "\<dots> = bs" by (rule map_nth)
  finally have rd: "vread ?m nd va (length bs) = bs" .
  have "copyin root va (length bs) (s\<lparr>mem := ?m\<rparr>) = Ok (bs, 0) (s\<lparr>mem := ?m\<rparr>)"
    using copyin_vread [of "s\<lparr>mem := ?m\<rparr>" root nd va "length bs"] fr(1) rd by simp
  then show ?thesis using copyout_vwrite [OF t ok] by blast
qed

section \<open>An empty table\<close>

lemma pt_tree_empty:
  assumes "page_aligned root" "root \<noteq> 0" "unat root < 2 ^ 56" "\<And>a. PGROUNDDOWN a = root \<Longrightarrow> m a = 0"
  shows "pt_tree m root [[] \<mapsto> root]" and "pte_of m [[] \<mapsto> root] = (\<lambda>_. 0)"
proof -
  have "load64 m (entry root i) = 0" if "i < 512" for i
  proof -
    have "m (entry root i + of_nat k) = 0" if "k < 8" for k
      using assms(1,4) \<open>i < 512\<close> that in_entry [of root i "entry root i + of_nat k"]
      by (simp add: unat_of_nat)
    then have "load64 m (entry root i) = load64 (\<lambda>_. 0) (entry root i)" by (intro load64_cong) simp
    then show ?thesis by (simp add: load64_def)
  qed
  then show "pt_tree m root [[] \<mapsto> root]" using assms(1-3) by (auto simp: pt_tree_def split: if_splits)
  show "pte_of m [[] \<mapsto> root] = (\<lambda>_. 0)" by (simp add: pte_of_def leaf_path_def fun_eq_iff)
qed

section \<open>Properties\<close>

text \<open>
  C10. \<^verbatim>\<open>mappages\<close> updates exactly its range.  On an unmapped page-aligned range below
  \<open>MAXVA\<close> it returns 0 with every page of the range mapped to the consecutive physical
  pages with the given permissions and every other leaf entry as before, or, when the page
  allocator is exhausted, -1 with a prefix of the range mapped.  The table stays a tree, its new
  nodes come from the free list, and no byte outside the table and the free pages changes.
\<close>

theorem mappages_maps_range:
  assumes "as_inv s root nd ps" "page_aligned va" "va < MAXVA" "0 < n" "page_no va + n \<le> 2 ^ 26"
    and "\<And>x. x < MAXVA \<Longrightarrow> page_no va \<le> page_no x \<Longrightarrow> page_no x < page_no va + n \<Longrightarrow>
      pte_of (mem s) nd x AND PTE_V = 0"
  shows "\<exists>r t. mappages root va (of_nat n * PGSIZE) pa perm s = Ok r t
    \<and> mappages_post s root nd ps (page_no va) n pa perm r t"
proof -
  obtain k where k: "n = Suc k" using assms(4) by (cases n) auto
  define lv where "lv = va + of_nat k * PGSIZE"
  have room: "unat va + k * 4096 + 4096 \<le> 2 ^ 38"
    using unat_aligned [OF assms(2)] assms(5) k by simp
  have sz: "of_nat k * PGSIZE = (of_nat (k * 4096) :: u64)" by (simp add: PGSIZE_def)
  have lv: "unat lv = unat va + k * 4096"
    unfolding lv_def sz using room by (simp add: unat_word_ariths unat_of_nat del: of_nat_mult)
  have al: "page_aligned lv" using lv assms(2) by (simp add: page_aligned_iff)
  have "va + of_nat n * PGSIZE - 1 = lv + of_nat 4095" by (simp add: k lv_def PGSIZE_def algebra_simps)
  then have last: "PGROUNDDOWN (va + of_nat n * PGSIZE - 1) = lv"
    using PGROUNDDOWN_page_off [OF al, of 4095] by (simp only:)
  have ne: "of_nat n * PGSIZE \<noteq> 0"
  proof -
    have "of_nat n * PGSIZE = (of_nat (n * 4096) :: u64)" by (simp add: PGSIZE_def)
    moreover have "unat (of_nat (n * 4096) :: u64) = n * 4096"
      using assms(5) by (simp add: unat_of_nat del: of_nat_mult)
    ultimately have "unat (of_nat n * PGSIZE) \<noteq> 0" using assms(4) by simp
    then show ?thesis by auto
  qed
  have "lv < MAXVA" using lv room by (simp add: word_less_nat_alt layout_simps)
  moreover have "page_no lv = page_no va + k" using lv by simp
  ultimately show ?thesis
    using mappages_loop_maps [OF assms(1-3) _ al, of k pa perm] assms(6) ne last
    by (auto simp: mappages_def PGROUNDDOWN_id [OF assms(2)] k less_Suc_eq_le)
qed

definition demo_as :: kmem where
  "demo_as = kfreed 0x80022000 (kfreed 0x80023000 demo_kmem)"

lemma demo_as_inv:
  "as_inv demo_as 0x80021000 [[] \<mapsto> 0x80021000] [0x80022000, 0x80023000]"
  "pte_of (mem demo_as) [[] \<mapsto> 0x80021000] = (\<lambda>_. 0)"
proof -
  have v: "valid_page demo_kmem 0x80021000" "valid_page demo_kmem 0x80022000" "valid_page demo_kmem 0x80023000"
    by (simp_all add: demo_kmem_def valid_page_def page_aligned_def layout_simps)
  have km: "kmem_inv demo_as [0x80022000, 0x80023000]"
    unfolding demo_as_def using v by (intro kfree_push(2) demo_kmem_inv) simp_all
  have al: "page_aligned 0x80021000" "page_aligned 0x80022000" "page_aligned 0x80023000"
    by (simp_all add: page_aligned_def layout_simps)
  have z: "mem demo_as a = 0" if "PGROUNDDOWN a = 0x80021000" for a
  proof -
    have "\<not> unat (a - 0x80022000) < 4096" "\<not> unat (a - 0x80023000) < 4096"
      using that in_page [of "0x80022000" a] in_page [of "0x80023000" a] al by auto
    then show ?thesis
      using outside_page_kfreed [of "0x80022000" "kfreed 0x80023000 demo_kmem"]
        outside_page_kfreed [of "0x80023000" demo_kmem]
      by (simp add: demo_as_def outside_page_def demo_kmem_def)
  qed
  have vd: "valid_page demo_as 0x80021000" using v by (simp add: demo_as_def)
  have "root \<noteq> 0" "unat root < 2 ^ 56" if "root = 0x80021000" for root :: u64 using that by simp_all
  from pt_tree_empty [OF al(1) this [OF refl] z] km vd
  show "as_inv demo_as 0x80021000 [[] \<mapsto> 0x80021000] [0x80022000, 0x80023000]"
    "pte_of (mem demo_as) [[] \<mapsto> 0x80021000] = (\<lambda>_. 0)"
    by (auto simp: as_inv_def)
qed

theorem mappages_maps_range_witness:
  "\<exists>r t. mappages 0x80021000 0x5000 (of_nat 2 * PGSIZE) 0x80030000 PTE_W demo_as = Ok r t
    \<and> mappages_post demo_as 0x80021000 [[] \<mapsto> 0x80021000] [0x80022000, 0x80023000] (page_no 0x5000) 2
        0x80030000 PTE_W r t"
  by (rule mappages_maps_range)
     (simp_all add: demo_as_inv layout_simps page_aligned_def)

text \<open>
  C12. \<^verbatim>\<open>copyin\<close> reads user memory through the page table: it returns the bytes at
  the translated addresses and 0 if the whole range is mapped for the user, and otherwise -1
  having copied exactly the bytes before the first page that is not; the state is unchanged.
\<close>

theorem copyin_reads_user_memory:
  assumes "pt_tree (mem s) root nd"
  shows "copyin root va len s =
    (let bs = vread (mem s) nd va len in Ok (bs, if length bs = len then 0 else - 1) s)"
  using assms by (rule copyin_vread)

text \<open>A table with one user page: virtual page 0 at physical page \<^verbatim>\<open>0x80024000\<close>.\<close>

definition demo_nd :: nodes where
  "demo_nd = [[] \<mapsto> 0x80021000, [0] \<mapsto> 0x80022000, [0, 0] \<mapsto> 0x80023000]"

definition demo_user :: kmem where
  "demo_user = demo_kmem\<lparr>mem :=
     store64 (new_node (new_node (\<lambda>_. 0) 0x80021000 0 0x80022000) 0x80022000 0 0x80023000)
       (entry 0x80023000 0) (PA2PTE 0x80024000 OR 0x17)\<rparr>"

lemma demo_user_tree: "pt_tree (mem demo_user) 0x80021000 demo_nd"
proof -
  let ?m1 = "new_node (\<lambda>_. 0) 0x80021000 0 0x80022000" and ?nd1 = "[[] \<mapsto> 0x80021000, [0] \<mapsto> (0x80022000 :: u64)]"
  let ?m2 = "new_node ?m1 0x80022000 0 0x80023000"
  have al: "page_aligned 0x80021000" "page_aligned 0x80022000" "page_aligned 0x80023000"
    by (simp_all add: page_aligned_def layout_simps)
  have "pt_tree (\<lambda>_. 0) 0x80021000 [[] \<mapsto> 0x80021000]"
    by (rule pt_tree_empty(1)) (simp_all add: al)
  from pt_tree_new_node [OF this, of "[]" "0x80021000" 0 "0x80022000"] al
  have "pt_tree ?m1 0x80021000 ?nd1" by (simp add: ran_def)
  from pt_tree_new_node [OF this, of "[0]" "0x80022000" 0 "0x80023000"] al
  have t2: "pt_tree ?m2 0x80021000 demo_nd"
    by (simp add: demo_nd_def ran_def fun_upd_def)
  have "load64 (store64 ?m2 (entry 0x80023000 0) v) (entry q i) = load64 ?m2 (entry q i)"
    if "demo_nd path = Some q" "length path < 2" "i < 512" for path q i v
    using that al load_entry_store [of "0x80023000" q 0 i ?m2 v]
    by (auto simp: demo_nd_def fun_upd_def split: if_splits)
  then show ?thesis unfolding demo_user_def by (simp add: pt_tree_cong [OF t2])
qed

lemma demo_user_pa: "user_pa (mem demo_user) demo_nd 0 = 0x80024000"
proof -
  have "pte_of (mem demo_user) demo_nd 0 = PA2PTE 0x80024000 OR 0x17"
    by (simp add: pte_of_def leaf_path_def demo_nd_def demo_user_def PX_def load64_store64)
  moreover have "PTE2PA (PA2PTE 0x80024000 OR 0x17) = 0x80024000"
    by (rule PTE2PA_PA2PTE) (simp_all add: page_aligned_def layout_simps)
  ultimately show ?thesis by (simp add: user_pa_def layout_simps PA2PTE_def)
qed

lemma demo_pages: "PGROUNDDOWN 10 = 0" "PGROUNDDOWN 11 = 0"
  by (simp_all add: PGROUNDDOWN_def layout_simps)

lemma demo_user_vread: "length (vread (mem demo_user) demo_nd 10 2) = 2"
proof -
  have "[0..<2] = [0, 1 :: nat]" by (simp add: upt_rec)
  then show ?thesis by (simp add: vread_def demo_pages demo_user_pa)
qed

theorem copyin_reads_user_memory_witness:
  "copyin 0x80021000 10 2 demo_user = Ok (vread (mem demo_user) demo_nd 10 2, 0) demo_user"
  using copyin_reads_user_memory [OF demo_user_tree, of 10 2] by (simp add: demo_user_vread)

text \<open>
  C11. A \<^verbatim>\<open>copyout\<close> followed by a \<^verbatim>\<open>copyin\<close> of the same range gives the
  bytes back: if the range is mapped for the user to pages that are not the table's own and
  do not alias, \<^verbatim>\<open>copyout\<close> succeeds and \<^verbatim>\<open>copyin\<close> then reads what was written.
\<close>

theorem copyout_copyin_roundtrip:
  assumes "pt_tree (mem s) root nd"
    and "\<And>i. i < length bs \<Longrightarrow> user_mapped (mem s) nd (va + of_nat i)
      \<and> user_pa (mem s) nd (PGROUNDDOWN (va + of_nat i)) \<notin> ran nd"
    and "\<And>i j. i < length bs \<Longrightarrow> j < length bs \<Longrightarrow>
      translate (mem s) nd (va + of_nat i) = translate (mem s) nd (va + of_nat j) \<Longrightarrow> i = j"
  shows "\<exists>u. copyout root va bs s = Ok 0 u \<and> copyin root va (length bs) u = Ok (bs, 0) u"
  using assms by (rule copyout_copyin)

theorem copyout_copyin_roundtrip_witness:
  "\<exists>u. copyout 0x80021000 10 [65, 66] demo_user = Ok 0 u \<and> copyin 0x80021000 10 2 u = Ok ([65, 66], 0) u"
proof -
  have two: "i < length [65, 66 :: u8] \<Longrightarrow> i = 0 \<or> i = 1" for i by auto
  have r: "0x80024000 \<notin> ran demo_nd" by (auto simp: demo_nd_def ran_def split: if_splits)
  have "\<exists>u. copyout 0x80021000 10 [65, 66] demo_user = Ok 0 u
      \<and> copyin 0x80021000 10 (length [65, 66 :: u8]) u = Ok ([65, 66], 0) u"
  proof (rule copyout_copyin_roundtrip [OF demo_user_tree])
    fix i
    assume "i < length [65, 66 :: u8]"
    from two [OF this] show "user_mapped (mem demo_user) demo_nd (10 + of_nat i) \<and>
        user_pa (mem demo_user) demo_nd (PGROUNDDOWN (10 + of_nat i)) \<notin> ran demo_nd"
      using r by (auto simp: demo_pages demo_user_pa)
  next
    fix i j
    assume ij: "i < length [65, 66 :: u8]" "j < length [65, 66 :: u8]"
      "translate (mem demo_user) demo_nd (10 + of_nat i) = translate (mem demo_user) demo_nd (10 + of_nat j)"
    from two [OF ij(1)] two [OF ij(2)] ij(3) show "i = j"
      by (auto simp: translate_def demo_pages demo_user_pa)
  qed
  then show ?thesis by (simp add: numeral_2_eq_2)
qed

end
