(* ===== verification/Xv6_Demo.thy ===== *)
theory Xv6_Demo
  imports Xv6_Frame Xv6_Uvm
begin

text \<open>
  A concrete state of the whole kernel, on which the witnesses evaluate the theorems: process
  1 runs on hart 0 with one user page, no lock is taken, and the serial line is idle.
\<close>

definition demo_procs :: "nat \<Rightarrow> proc" where
  "demo_procs = (\<lambda>_. demo_proc)(
     0 := demo_proc\<lparr>state := SLEEPING, pchan := Some ChanTicks, pid := 1\<rparr>,
     1 := demo_proc\<lparr>state := RUNNING, pid := 2, pagetable := 0x80021000, psz := 0x1000, kstack := 0x3fffff9000,
            trapframe_pa := 0x80030000, parent := Some 0, pname := ''demo''\<rparr>)"

definition demo_kfile :: kfile where
  "demo_kfile = \<lparr>tp = 0, sie = (\<lambda>_. True),
     cpus = (\<lambda>_. \<lparr>cproc = Some 1, ccontext = \<lparr>ra = 0, sp = 0, sregs = []\<rparr>, noff = 0, intena = True\<rparr>),
     locks = (\<lambda>_. \<lparr>locked = False, lname = [], lcpu = None\<rparr>),
     mem = mem demo_user, sym_end = 0x80021000, sym_etext = 0x80008000, sym_trampoline = 0x80007000, freelist = 0,
     kernel_pagetable = 0, satp = (\<lambda>_. 0), procs = demo_procs, initproc = Some 0, nextpid = 3,
     tframes = (\<lambda>_. \<lparr>kernel_satp = 0, kernel_sp = 0, kernel_trap = 0, epc = 0, kernel_hartid = 0, regs = (\<lambda>_. 0)\<rparr>),
     rng_state = rng_init, ticks = 0, sym_forkret = 0x80001000,
     device = (\<lambda>_ _. 0x20), mmio_log = [], polls = 1, uart_tx_buf = (\<lambda>_. 0), uart_tx_w = 0, uart_tx_r = 0, panicked = False,
     pr_locking = True, cons_buf = (\<lambda>_. 0), cons_r = 0, cons_w = 0, cons_e = 0,
     devsw = (\<lambda>_. \<lparr>dread = None, dwrite = None\<rparr>),
     sleeplocks = (\<lambda>_. \<lparr>slocked = False, slname = [], slpid = 0\<rparr>),
     bufs = (\<lambda>_. \<lparr>bvalid = False, bdisk = False, bdev = 0, blockno = 0, refcnt = 0, bdata = replicate BSIZE 0\<rparr>),
     vdisk = \<lparr>desc_pa = 0, avail_pa = 0, used_pa = 0, desc = (\<lambda>_. \<lparr>d_addr = DNull, d_len = 0, d_flags = 0, d_next = 0\<rparr>),
       avail_idx = 0, avail_ring = (\<lambda>_. 0), used_ring_idx = 0, used_ring = (\<lambda>_. 0), dfree = (\<lambda>_. True), used_idx = 0,
       info_b = (\<lambda>_. None), info_status = (\<lambda>_. 0), disk_ops = (\<lambda>_. \<lparr>rq_type = 0, rq_reserved = 0, rq_sector = 0\<rparr>)\<rparr>,
     lnext = (\<lambda>_. Head), lprev = (\<lambda>_. Head),
     log_start = 2, log_size = 30, log_outstanding = 1, log_committing = False, log_dev = 1,
     log_lh = \<lparr>lh_n = 0, lh_block = (\<lambda>_. 0)\<rparr>,
     fsb = \<lparr>sb_magic = FSMAGIC, sb_size = 2000, sb_nblocks = 1954, sb_ninodes = 200, sb_nlog = 30, sb_logstart = 2,
       sb_inodestart = 32, sb_bmapstart = 45\<rparr>,
     inodes = (\<lambda>_. \<lparr>i_dev = 0, i_inum = 0, i_ref = 0, i_valid = False, i_type = 0, i_major = 0, i_minor = 0, i_nlink = 0,
       i_size = 0, i_addrs = replicate 13 0\<rparr>),
     stat_pad = [0, 0, 0, 0],
     pipes = (\<lambda>_. \<lparr>pdata = (\<lambda>_. 0), nread = 0, nwrite = 0, readopen = True, writeopen = True\<rparr>),
     files = (\<lambda>_. \<lparr>f_type = FD_NONE, f_ref = 0, f_readable = False, f_writable = False, f_pipe = 0, f_ip = None,
       f_off = 0, f_major = 0\<rparr>)\<rparr>"

lemma demo_ok [simp]:
  "plocks_ok demo_kfile" "cpu_ok demo_kfile" "lock_free lk demo_kfile" "cproc (mycpu demo_kfile) = Some 1"
  by (simp_all add: demo_kfile_def plocks_ok_def cpu_ok_def mycpu_def lock_free_def)

text \<open>An environment in which a process that gives up the CPU does not come back.\<close>

definition demo_env :: "'s env" where
  "demo_env = \<lparr>sw = halt Swtch, wakeups = 0\<rparr>"

end
