(* ===== verification/Xv6_Pipe_Props.thy ===== *)
theory Xv6_Pipe_Props
  imports Xv6_Ring Xv6_Demo
begin

text \<open>
  Correctness of pipes: the ring of a pipe is a bounded queue, and \<^verbatim>\<open>piperead\<close> and
  \<^verbatim>\<open>pipewrite\<close> move bytes between that queue and the memory of the calling process.
\<close>

section \<open>A pipe is a bounded queue\<close>

definition pipe_inv :: "pipe \<Rightarrow> bool" where
  "pipe_inv k \<longleftrightarrow> unat (nwrite k - nread k) \<le> PIPESIZE"

definition pipe_empty :: "pipe \<Rightarrow> bool" where
  "pipe_empty k \<longleftrightarrow> nread k = nwrite k"

definition pipe_advance :: "pipe \<Rightarrow> pipe" where
  "pipe_advance k = k\<lparr>nread := nread k + 1\<rparr>"

definition pipe_contents :: "pipe \<Rightarrow> u8 list" where
  "pipe_contents k = ring PIPESIZE (pdata k) (nread k) (nwrite k)"

lemma PIPESIZE_width: "PIPESIZE dvd 2 ^ LENGTH(32)" "0 < PIPESIZE" "PIPESIZE < 2 ^ LENGTH(32)"
  by (simp_all add: PIPESIZE_def)

lemma length_pipe_contents [simp]: "length (pipe_contents k) = unat (nwrite k - nread k)"
  by (simp add: pipe_contents_def)

lemma pipe_full_iff: "pipe_full k \<longleftrightarrow> length (pipe_contents k) = PIPESIZE"
  using ring_full_iff [OF PIPESIZE_width(3), of "nwrite k" "nread k"] by (simp add: pipe_full_def)

lemma pipe_empty_iff: "pipe_empty k \<longleftrightarrow> pipe_contents k = []"
  by (simp add: pipe_empty_def pipe_contents_def)

lemma pipe_put_law:
  assumes "pipe_inv k" "\<not> pipe_full k"
  shows "pipe_inv (pipe_put c k) \<and> pipe_contents (pipe_put c k) = pipe_contents k @ [c]"
proof -
  have room: "unat (nwrite k - nread k) < PIPESIZE" using assms pipe_full_iff [of k] by (simp add: pipe_inv_def)
  have c: "pipe_contents (pipe_put c k) = pipe_contents k @ [c]"
    using ring_put [OF PIPESIZE_width room] by (simp add: pipe_contents_def pipe_put_def)
  have "unat (nwrite (pipe_put c k) - nread (pipe_put c k)) \<le> PIPESIZE"
    using arg_cong [OF c, of length] room by simp
  with c show ?thesis by (simp add: pipe_inv_def)
qed

lemma pipe_get_law:
  assumes "pipe_inv k" "\<not> pipe_empty k"
  shows "pipe_inv (pipe_advance k) \<and> pipe_contents k = pipe_peek k # pipe_contents (pipe_advance k)"
proof -
  have c: "pipe_contents k = pipe_peek k # pipe_contents (pipe_advance k)"
    using ring_get [of "nread k" "nwrite k"] assms(2)
    by (simp add: pipe_contents_def pipe_advance_def pipe_peek_def pipe_empty_def)
  have "unat (nwrite (pipe_advance k) - nread (pipe_advance k)) \<le> PIPESIZE"
    using arg_cong [OF c, of length] assms(1) by (simp add: pipe_inv_def)
  with c show ?thesis by (simp add: pipe_inv_def)
qed

interpretation pipeq: bounded_fifo pipe_inv PIPESIZE pipe_full pipe_empty pipe_put pipe_peek pipe_advance pipe_contents
proof
  show "pipe_inv (pipe_put x s) \<and> pipe_contents (pipe_put x s) = pipe_contents s @ [x]"
    if "pipe_inv s" "\<not> pipe_full s" for s x using that by (rule pipe_put_law)
  show "pipe_inv (pipe_advance s) \<and> pipe_contents s = pipe_peek s # pipe_contents (pipe_advance s)"
    if "pipe_inv s" "\<not> pipe_empty s" for s using that by (rule pipe_get_law)
  show "length (pipe_contents s) \<le> PIPESIZE" if "pipe_inv s" for s using that by (simp add: pipe_inv_def)
qed

text \<open>
  C13. A pipe is a first-in first-out queue of at most 512 bytes: for every sequence of stores
  and removals that \<^verbatim>\<open>pipewrite\<close> and \<^verbatim>\<open>piperead\<close> make under their guards
  (a store only when the ring is not full, a removal only when it is not empty), what was in
  the pipe followed by what was stored is what was removed followed by what is in the pipe,
  also when the 32-bit counters wrap around.
\<close>

theorem pipe_is_fifo:
  assumes "pipe_inv k" "fifo_run pipe_full pipe_empty pipe_put pipe_peek pipe_advance ops k = (ins, outs, k')"
  shows "pipe_inv k' \<and> pipe_contents k @ ins = outs @ pipe_contents k' \<and> length (pipe_contents k') \<le> PIPESIZE"
  using assms by (rule pipeq.fifo_order)

definition demo_pipe :: pipe where
  "demo_pipe = \<lparr>pdata = (\<lambda>_. 0), nread = 0xffffffff, nwrite = 0xffffffff, readopen = True, writeopen = True\<rparr>"

theorem pipe_is_fifo_witness:
  "pipe_contents demo_pipe @ [65, 66, 67] =
     [65, 66] @ pipe_contents (snd (snd (fifo_run pipe_full pipe_empty pipe_put pipe_peek pipe_advance
       [Put 65, Put 66, Get, Put 67, Get] demo_pipe)))"
proof -
  let ?r = "fifo_run pipe_full pipe_empty pipe_put pipe_peek pipe_advance [Put 65, Put 66, Get, Put 67, Get] demo_pipe"
  have inv: "pipe_inv demo_pipe" by (simp add: pipe_inv_def demo_pipe_def)
  have "fst ?r = [65, 66, 67] \<and> fst (snd ?r) = [65, 66]"
    by (simp add: demo_pipe_def pipe_full_def pipe_empty_def pipe_put_def pipe_peek_def pipe_advance_def PIPESIZE_def)
  then have r: "?r = ([65, 66, 67], [65, 66], snd (snd ?r))" by (metis prod.collapse)
  show ?thesis using pipe_is_fifo [OF inv r] by blast
qed

section \<open>Bytes to and from user memory\<close>

text \<open>The \<open>m\<close> bytes at \<open>a\<close> are user memory and not part of the page table.\<close>

definition user_area :: "memory \<Rightarrow> u64 \<Rightarrow> nodes \<Rightarrow> u64 \<Rightarrow> nat \<Rightarrow> bool" where
  "user_area m pt nd a n \<longleftrightarrow> pt_tree m pt nd
     \<and> (\<forall>i < n. user_mapped m nd (a + of_nat i) \<and> user_pa m nd (PGROUNDDOWN (a + of_nat i)) \<notin> ran nd)"

lemma copyout_byte:
  assumes "user_area (mem s) pt nd a (Suc n)"
  shows "copyout pt a [c] s = Ok 0 (s\<lparr>mem := (mem s)(translate (mem s) nd a := c)\<rparr>)"
    and "user_area ((mem s)(translate (mem s) nd a := c)) pt nd (a + 1) n"
    and "translate ((mem s)(translate (mem s) nd a := c)) nd = translate (mem s) nd"
proof -
  let ?m = "(mem s)(translate (mem s) nd a := c)"
  have t: "pt_tree (mem s) pt nd" and ok: "\<And>i. i < Suc n \<Longrightarrow> user_mapped (mem s) nd (a + of_nat i)
      \<and> user_pa (mem s) nd (PGROUNDDOWN (a + of_nat i)) \<notin> ran nd"
    using assms by (auto simp: user_area_def)
  show "copyout pt a [c] s = Ok 0 (s\<lparr>mem := ?m\<rparr>)"
    using copyout_vwrite [OF t, of "[c]" a] ok [of 0] by simp
  have "?m x = mem s x" if "PGROUNDDOWN x \<in> ran nd" for x
    using that ok [of 0] PGROUNDDOWN_translate [of "mem s" nd a] by auto
  note fr = table_frame [where m' = ?m, OF t this]
  show "user_area ?m pt nd (a + 1) n"
    using fr ok [of "Suc _"] by (simp add: user_area_def add_ac)
  show "translate ?m nd = translate (mem s) nd" by (rule fr(3))
qed

section \<open>piperead\<close>

text \<open>The state after \<open>bs\<close> has been moved from the pipe to user memory at \<open>a\<close>.\<close>

definition delivered :: "u64 \<Rightarrow> (u64 \<Rightarrow> u64) \<Rightarrow> u64 \<Rightarrow> u8 list \<Rightarrow> 'z kpipe_scheme \<Rightarrow> 'z kpipe_scheme" where
  "delivered pi tr a bs s = s\<lparr>mem := vwrite tr (mem s) a bs,
     pipes := (pipes s)(pi := (pipes s pi)\<lparr>nread := nread (pipes s pi) + of_nat (length bs)\<rparr>)\<rparr>"

lemma delivered_Nil [simp]: "delivered pi tr a [] s = s"
  by (simp add: delivered_def)

lemma pipes_delivered:
  "pipes (delivered pi tr a bs s) pi = (pipes s pi)\<lparr>nread := nread (pipes s pi) + of_nat (length bs)\<rparr>"
  by (simp add: delivered_def)

definition read_byte :: "nat \<Rightarrow> u64 \<Rightarrow> u64 \<Rightarrow> nat \<Rightarrow> int \<Rightarrow> ('z kpipe_scheme, int + int) op" where
  "read_byte pr pi addr i k =
     bind (gets (\<lambda>s. pipes s pi)) (\<lambda>q.
     if nread q = nwrite q then ret (Inr k)
     else
       seq (modify (upd_pipe pi (\<lambda>q. q\<lparr>nread := nread q + 1\<rparr>))) (
       bind (gets (\<lambda>s. pagetable (procs s pr))) (\<lambda>pt.
       bind (copyout pt (addr + of_nat i) [pipe_peek q]) (\<lambda>r.
       if r = - 1 then ret (Inr k) else ret (Inl (k + 1))))))"

lemma read_byte_ok:
  assumes "user_area (mem s) (pagetable (procs s pr)) nd (addr + of_nat i) (Suc n)" "\<not> pipe_empty (pipes s pi)"
  shows "read_byte pr pi addr i k s =
    Ok (Inl (k + 1)) (delivered pi (translate (mem s) nd) (addr + of_nat i) [pipe_peek (pipes s pi)] s)"
proof -
  have "copyout (pagetable (procs s pr)) (addr + of_nat i) [pipe_peek (pipes s pi)]
      (upd_pipe pi (\<lambda>q. q\<lparr>nread := nread q + 1\<rparr>) s) =
      Ok 0 (delivered pi (translate (mem s) nd) (addr + of_nat i) [pipe_peek (pipes s pi)] s)"
    using copyout_byte(1) [of "upd_pipe pi (\<lambda>q. q\<lparr>nread := nread q + 1\<rparr>) s"] assms(1)
    by (simp add: upd_pipe_def delivered_def)
  then show ?thesis using assms(2)
    by (simp add: read_byte_def op_simps pipe_empty_def upd_pipe_def)
qed

lemma delivered_Cons:
  "delivered pi tr (a + 1) bs (delivered pi tr a [b] s) = delivered pi tr a (b # bs) s"
  by (simp add: delivered_def add_ac)

lemma piperead_loop:
  fixes s :: "'z kpipe_scheme"
  assumes "user_area (mem s) (pagetable (procs s pr)) nd (addr + of_nat i) (min m (length (pipe_contents (pipes s pi))))"
    and "pipe_inv (pipes s pi)"
  shows "\<exists>r. loop_op [i..<i + m] (read_byte pr pi addr) (int i) s =
      Ok r (delivered pi (translate (mem s) nd) (addr + of_nat i) (take m (pipe_contents (pipes s pi))) s)
    \<and> (r = Inl (int (i + min m (length (pipe_contents (pipes s pi))))) \<or> r = Inr (int (i + min m (length (pipe_contents (pipes s pi))))))"
  using assms
proof (induction m arbitrary: i s)
  case (Suc m)
  let ?q = "pipes s pi" and ?tr = "translate (mem s) nd" and ?pt = "pagetable (procs s pr)"
  show ?case
  proof (cases "pipe_empty ?q")
    case True
    then have "nread ?q = nwrite ?q" "pipe_contents ?q = []" by (simp_all add: pipe_empty_def pipe_contents_def)
    then show ?thesis by (simp add: upt_conv_Cons read_byte_def op_simps del: upt_Suc)
  next
    case False
    let ?b = "pipe_peek ?q" and ?q' = "pipe_advance ?q"
    let ?s = "delivered pi ?tr (addr + of_nat i) [?b] s"
    have c: "pipe_contents ?q = ?b # pipe_contents ?q'" and inv: "pipe_inv ?q'"
      using pipe_get_law [OF Suc.prems(2) False] by simp_all
    have area: "user_area (mem s) ?pt nd (addr + of_nat i) (Suc (min m (length (pipe_contents ?q'))))"
      using Suc.prems(1) arg_cong [OF c, of length] by (simp del: length_pipe_contents)
    note st = read_byte_ok [OF area False, of "int i"]
    have s': "mem ?s = (mem s)(?tr (addr + of_nat i) := ?b)" "pipes ?s pi = ?q'" "procs ?s = procs s"
      by (simp_all add: delivered_def pipe_advance_def)
    have tr': "translate (mem ?s) nd = ?tr" and area': "user_area (mem ?s) ?pt nd (addr + of_nat (Suc i)) (min m (length (pipe_contents ?q')))"
      using copyout_byte(2,3) [OF area, of ?b] s' by (simp_all add: add_ac)
    have pre: "user_area (mem ?s) (pagetable (procs ?s pr)) nd (addr + of_nat (Suc i)) (min m (length (pipe_contents (pipes ?s pi))))"
      "pipe_inv (pipes ?s pi)"
      using area' inv by (simp_all only: s'(2,3))
    obtain r where r: "loop_op [Suc i..<Suc i + m] (read_byte pr pi addr) (int (Suc i)) ?s =
        Ok r (delivered pi ?tr (addr + of_nat (Suc i)) (take m (pipe_contents ?q')) ?s)"
      and rv: "r = Inl (int (Suc i + min m (length (pipe_contents ?q')))) \<or> r = Inr (int (Suc i + min m (length (pipe_contents ?q'))))"
      using Suc.IH [OF pre, unfolded s'(2) tr'] by blast
    have "loop_op [i..<i + Suc m] (read_byte pr pi addr) (int i) s
        = loop_op [Suc i..<Suc i + m] (read_byte pr pi addr) (int (Suc i)) ?s"
      using st by (simp add: upt_conv_Cons op_simps add.commute del: upt_Suc)
    moreover have "delivered pi ?tr (addr + of_nat (Suc i)) (take m (pipe_contents ?q')) ?s
        = delivered pi ?tr (addr + of_nat i) (take (Suc m) (pipe_contents ?q)) s"
      using delivered_Cons [of pi ?tr "addr + of_nat i" "take m (pipe_contents ?q')" ?b s] c by (simp add: add_ac)
    moreover have "Suc i + min m (length (pipe_contents ?q')) = i + min (Suc m) (length (pipe_contents ?q))"
      using c by (simp del: length_pipe_contents)
    ultimately show ?thesis using r rv by metis
  qed
qed (simp add: op_simps)

lemma pipe_contents_drop:
  "j \<le> length (pipe_contents k) \<Longrightarrow> pipe_contents (k\<lparr>nread := nread k + of_nat j\<rparr>) = drop j (pipe_contents k)"
proof (induction j arbitrary: k)
  case (Suc j)
  then have "\<not> pipe_empty k" by (auto simp: pipe_empty_def)
  then have c: "pipe_contents k = pipe_peek k # pipe_contents (pipe_advance k)"
    using ring_get [of "nread k" "nwrite k"]
    by (simp add: pipe_contents_def pipe_advance_def pipe_peek_def pipe_empty_def)
  then have "j \<le> length (pipe_contents (pipe_advance k))" using Suc.prems by (simp del: length_pipe_contents)
  from Suc.IH [OF this] show ?case using c by (simp add: pipe_advance_def add_ac)
qed simp

lemma delivered_held [simp]: "delivered pi tr a bs (held lk s) = held lk (delivered pi tr a bs s)"
  by (simp add: delivered_def)

lemma delivered_machine [simp]:
  "cpu_ok (delivered pi tr a bs s) = cpu_ok s" "lock_free lk (delivered pi tr a bs s) = lock_free lk s"
  "plocks_ok (delivered pi tr a bs s) = plocks_ok s"
  by (simp_all add: delivered_def cpu_ok_def lock_free_def mycpu_def plocks_ok_def)

lemma piperead_copy_eq:
  "piperead_copy pr pi addr n =
     bind (loop_op [0..<n] (read_byte pr pi addr) 0) (\<lambda>r. case r of Inl k \<Rightarrow> ret k | Inr k \<Rightarrow> ret k)"
  by (simp add: piperead_copy_def read_byte_def [abs_def])

lemma piperead_copy_ok:
  assumes "user_area (mem s) (pagetable (procs s pr)) nd addr (min m (length (pipe_contents (pipes s pi))))"
    and "pipe_inv (pipes s pi)"
  shows "piperead_copy pr pi addr m s = Ok (int (min m (length (pipe_contents (pipes s pi)))))
    (delivered pi (translate (mem s) nd) addr (take m (pipe_contents (pipes s pi))) s)"
  using piperead_loop [of s pr nd addr 0 m pi] assms by (auto simp: piperead_copy_eq op_simps)

text \<open>
  C14. \<^verbatim>\<open>piperead(n)\<close> on a pipe that has bytes, or whose write end is closed, returns at
  once: it delivers the first \<open>n\<close> bytes of the queue (all of them if there are fewer) to the
  user addresses from \<open>addr\<close> on, in order, removes exactly these from the queue, returns
  their number, and wakes the writers that wait for room.
\<close>

theorem piperead_delivers:
  assumes "plocks_ok s" "lock_free (PipeLock pi) s" "cproc (mycpu s) = Some pr"
    and "pipe_inv (pipes s pi)" "\<not> pipe_empty (pipes s pi) \<or> \<not> writeopen (pipes s pi)"
    and "user_area (mem s) (pagetable (procs s pr)) nd addr (min (nat n) (length (pipe_contents (pipes s pi))))"
  shows "let bs = take (nat n) (pipe_contents (pipes s pi)); t = delivered pi (translate (mem s) nd) addr bs s in
    piperead E pi addr n s = Ok (int (length bs)) (awakened (Some (ChanPipeNwrite pi)) t)
    \<and> pipe_contents (pipes t pi) = drop (nat n) (pipe_contents (pipes s pi))"
proof -
  let ?c = "pipe_contents (pipes s pi)"
  let ?t = "delivered pi (translate (mem s) nd) addr (take (nat n) ?c) s"
  have cp: "cpu_ok s" using assms(1) by (rule plocks_okD)
  have "piperead_copy pr pi addr (nat n) (held (PipeLock pi) s) =
      Ok (int (min (nat n) (length ?c))) (held (PipeLock pi) ?t)"
    using piperead_copy_ok [of "held (PipeLock pi) s"] assms(4,6) by simp
  then have "piperead E pi addr n s = Ok (int (min (nat n) (length ?c))) (awakened (Some (ChanPipeNwrite pi)) ?t)"
    using assms(1,2,3,5) cp
    by (auto simp: piperead_def op_simps curproc_ok acquire_ok pipe_empty_def wakeup_held release_ok)
  moreover have "pipe_contents (pipes ?t pi) = drop (nat n) ?c"
  proof -
    have "length (take (nat n) ?c) \<le> length ?c" by simp
    from pipe_contents_drop [OF this]
    have "pipe_contents (pipes ?t pi) = drop (length (take (nat n) ?c)) ?c"
      by (simp only: pipes_delivered)
    then show ?thesis by (cases "nat n \<le> length ?c") simp_all
  qed
  ultimately show ?thesis by (simp add: Let_def min.commute)
qed

definition demo_piped :: kfile where
  "demo_piped = demo_kfile\<lparr>pipes := (pipes demo_kfile)(0x80025000 :=
     pipe_put 67 (pipe_put 66 (pipe_put 65 demo_pipe)))\<rparr>"

lemma demo_piped_contents: "pipe_contents (pipes demo_piped 0x80025000) = [65, 66, 67]"
proof -
  have i0: "pipe_inv demo_pipe" "\<not> pipe_full demo_pipe" "pipe_contents demo_pipe = []"
    by (simp_all add: pipe_inv_def pipe_full_def pipe_contents_def demo_pipe_def PIPESIZE_def)
  note i1 = pipe_put_law [OF i0(1,2), of 65]
  have "\<not> pipe_full (pipe_put 65 demo_pipe)" using i1 i0 by (simp add: pipe_full_iff PIPESIZE_def del: length_pipe_contents)
  note i2 = pipe_put_law [OF conjunct1 [OF i1] this, of 66]
  have "\<not> pipe_full (pipe_put 66 (pipe_put 65 demo_pipe))"
    using i2 i1 i0 by (simp add: pipe_full_iff PIPESIZE_def del: length_pipe_contents)
  note i3 = pipe_put_law [OF conjunct1 [OF i2] this, of 67]
  show ?thesis using i3 i2 i1 i0 by (simp add: demo_piped_def)
qed

lemma demo_user_area:
  "user_area (mem demo_user) 0x80021000 demo_nd 10 2"
proof -
  have two: "i = 0 \<or> i = 1" if "i < 2" for i :: nat using that by auto
  have r: "0x80024000 \<notin> ran demo_nd" by (auto simp: demo_nd_def ran_def split: if_splits)
  have "user_mapped (mem demo_user) demo_nd (10 + of_nat i)
      \<and> user_pa (mem demo_user) demo_nd (PGROUNDDOWN (10 + of_nat i)) \<notin> ran demo_nd" if "i < 2" for i
    using two [OF that] demo_pages demo_user_pa r by auto
  then show ?thesis by (simp add: user_area_def demo_user_tree)
qed

lemma demo_piped_state:
  "plocks_ok demo_piped" "lock_free (PipeLock 0x80025000) demo_piped" "cproc (mycpu demo_piped) = Some 1"
  "mem demo_piped = mem demo_user" "pagetable (procs demo_piped 1) = 0x80021000" "pkilled (procs demo_piped 1) = 0"
  "readopen (pipes demo_piped 0x80025000)"
  by (simp_all add: demo_piped_def) (simp_all add: demo_kfile_def demo_procs_def demo_proc_def demo_pipe_def pipe_put_def)

lemma demo_piped_inv:
  "pipe_inv (pipes demo_piped 0x80025000)" "\<not> pipe_empty (pipes demo_piped 0x80025000)"
proof -
  have "length (pipe_contents (pipes demo_piped 0x80025000)) = 3" by (simp only: demo_piped_contents) simp
  then show "pipe_inv (pipes demo_piped 0x80025000)" by (simp add: pipe_inv_def PIPESIZE_def)
  show "\<not> pipe_empty (pipes demo_piped 0x80025000)" by (simp add: pipe_empty_iff demo_piped_contents)
qed

theorem piperead_delivers_witness:
  "\<exists>t. piperead demo_env 0x80025000 10 2 demo_piped = Ok 2 t \<and> pipe_contents (pipes t 0x80025000) = [67]
     \<and> mem t = vwrite (translate (mem demo_user) demo_nd) (mem demo_user) 10 [65, 66]"
proof -
  note st = demo_piped_state
  have "user_area (mem demo_piped) (pagetable (procs demo_piped 1)) demo_nd 10
      (min (nat 2) (length (pipe_contents (pipes demo_piped 0x80025000))))"
    using demo_user_area by (simp add: st demo_piped_contents numeral_2_eq_2 del: One_nat_def)
  from piperead_delivers [OF st(1-3) demo_piped_inv(1) disjI1 [OF demo_piped_inv(2)] this, of demo_env]
  show ?thesis by (auto simp: Let_def demo_piped_contents st delivered_def awakened_def map_procs_def)
qed

section \<open>pipewrite\<close>

lemma killed_ok:
  assumes "plocks_ok s" "p < NPROC"
  shows "killed p s = Ok (pkilled (procs s p)) s"
  using locked_read [OF assms] by (simp add: killed_def op_simps)

lemma copyin_byte:
  assumes "pt_tree (mem s) pt nd" "user_mapped (mem s) nd a"
  shows "copyin pt a 1 s = Ok ([mem s (translate (mem s) nd a)], 0) s"
  using copyin_vread [OF assms(1), of a 1] assms(2) by (simp add: vread_def Let_def)

definition user_bytes :: "memory \<Rightarrow> nodes \<Rightarrow> u64 \<Rightarrow> nat \<Rightarrow> nat \<Rightarrow> u8 list" where
  "user_bytes m nd addr i n = map (\<lambda>j. m (translate m nd (addr + of_nat j))) [i..<n]"

lemma upd_pipe_held [simp]: "upd_pipe pi f (held lk s) = held lk (upd_pipe pi f s)"
  by (simp add: upd_pipe_def)

lemma upd_pipe_machine [simp]:
  "cpu_ok (upd_pipe pi f s) = cpu_ok s" "lock_free lk (upd_pipe pi f s) = lock_free lk s"
  "plocks_ok (upd_pipe pi f s) = plocks_ok s" "mem (upd_pipe pi f s) = mem s" "procs (upd_pipe pi f s) = procs s"
  by (simp_all add: upd_pipe_def cpu_ok_def lock_free_def mycpu_def plocks_ok_def)

lemma pipes_upd_pipe [simp]: "pipes (upd_pipe pi f s) pi = f (pipes s pi)"
  by (simp add: upd_pipe_def)

lemma upd_pipe_twice: "upd_pipe pi g (upd_pipe pi f s) = upd_pipe pi (\<lambda>k. g (f k)) s"
  by (simp add: upd_pipe_def)

lemma upd_pipe_id [simp]: "upd_pipe pi (\<lambda>k. k) s = s"
  by (simp add: upd_pipe_def)

lemma pipe_put_open [simp]: "readopen (pipe_put c k) = readopen k" "writeopen (pipe_put c k) = writeopen k"
  by (simp_all add: pipe_put_def)

text \<open>The loop stores the rest of the bytes when there is room for them.\<close>

lemma pipewrite_loop_stores:
  fixes s :: "'z kpipe_scheme"
  assumes "plocks_ok s" "pr < NPROC" "pkilled (procs s pr) = 0" "readopen (pipes s pi)" "pipe_inv (pipes s pi)"
    and "pt_tree (mem s) (pagetable (procs s pr)) nd" "\<And>j. j < n \<Longrightarrow> user_mapped (mem s) nd (addr + of_nat j)"
    and "i \<le> n" "length (pipe_contents (pipes s pi)) + (n - i) \<le> PIPESIZE" "n - i \<le> fuel"
  shows "pipewrite_loop fuel E pr pi addr i n s =
    Ok (Inl n) (upd_pipe pi (fold pipe_put (user_bytes (mem s) nd addr i n)) s)"
  using assms
proof (induction fuel arbitrary: i s)
  case 0
  then show ?case by (simp add: user_bytes_def)
next
  case (Suc fuel)
  let ?k = "pipes s pi" and ?c = "mem s (translate (mem s) nd (addr + of_nat i))"
  show ?case
  proof (cases "i < n")
    case False
    then show ?thesis using Suc.prems(8) by (simp add: user_bytes_def)
  next
    case True
    have nf: "\<not> pipe_full ?k" using Suc.prems(9) True by (auto simp: pipe_full_iff)
    have len: "length (pipe_contents (pipe_put ?c ?k)) = Suc (length (pipe_contents ?k))"
      using pipe_put_law [OF Suc.prems(5) nf] by (simp del: length_pipe_contents)
    have ub: "user_bytes (mem s) nd addr i n = ?c # user_bytes (mem s) nd addr (Suc i) n"
      using True by (simp add: user_bytes_def upt_conv_Cons)
    have "pipewrite_loop (Suc fuel) E pr pi addr i n s =
        pipewrite_loop fuel E pr pi addr (Suc i) n (upd_pipe pi (pipe_put ?c) s)"
      using True Suc.prems(3,4) nf killed_ok [OF Suc.prems(1,2)] copyin_byte [OF Suc.prems(6) Suc.prems(7) [OF True]]
      by (simp add: op_simps)
    also have "\<dots> = Ok (Inl n) (upd_pipe pi (fold pipe_put (user_bytes (mem s) nd addr (Suc i) n)) (upd_pipe pi (pipe_put ?c) s))"
      using Suc.IH [of "upd_pipe pi (pipe_put ?c) s" "Suc i"] Suc.prems True len pipe_put_law [OF Suc.prems(5) nf, of ?c]
      by (simp del: length_pipe_contents)
    finally show ?thesis using ub by (simp add: upd_pipe_twice o_def)
  qed
qed

lemma pipe_puts_law:
  "pipe_inv k \<Longrightarrow> length (pipe_contents k) + length bs \<le> PIPESIZE \<Longrightarrow>
     pipe_inv (fold pipe_put bs k) \<and> pipe_contents (fold pipe_put bs k) = pipe_contents k @ bs"
proof (induction bs arbitrary: k)
  case (Cons b bs)
  then have "\<not> pipe_full k" by (auto simp: pipe_full_iff)
  then show ?case using Cons.IH [of "pipe_put b k"] Cons.prems pipe_put_law [of k b] by (simp del: length_pipe_contents)
qed simp

text \<open>
  C15. \<^verbatim>\<open>pipewrite(n)\<close> with room in the ring appends the \<open>n\<close> user bytes at
  \<open>addr\<close> to the queue, returns \<open>n\<close> and wakes the readers; if the read end is closed or the
  process was killed, it returns -1 and changes nothing.
\<close>

theorem pipewrite_stores:
  fixes s :: "'z kpipe_scheme"
  assumes "plocks_ok s" "lock_free (PipeLock pi) s" "cproc (mycpu s) = Some pr" "pr < NPROC"
    and "pipe_inv (pipes s pi)" "length (pipe_contents (pipes s pi)) + nat n \<le> PIPESIZE" "0 < n"
    and "pt_tree (mem s) (pagetable (procs s pr)) nd"
    and "\<And>j. j < nat n \<Longrightarrow> user_mapped (mem s) nd (addr + of_nat j)"
  shows "let bs = user_bytes (mem s) nd addr 0 (nat n); t = upd_pipe pi (fold pipe_put bs) s in
    pipewrite E pi addr n s =
      (if \<not> readopen (pipes s pi) \<or> pkilled (procs s pr) \<noteq> 0 then Ok (- 1) s
       else Ok n (awakened (Some (ChanPipeNread pi)) t))
    \<and> pipe_contents (pipes t pi) = pipe_contents (pipes s pi) @ bs"
proof -
  let ?bs = "user_bytes (mem s) nd addr 0 (nat n)"
  let ?lk = "PipeLock pi"
  have cp: "cpu_ok s" using assms(1) by (rule plocks_okD)
  have h: "plocks_ok (held ?lk s)" using assms(1) by (rule plocks_ok_held) simp
  have start: "pipewrite E pi addr n s = bind (pipewrite_loop (nat n + wakeups E) E pr pi addr 0 (nat n)) (\<lambda>r.
      case r of Inr _ \<Rightarrow> ret (- 1)
      | Inl i \<Rightarrow> seq (wakeup (Some (ChanPipeNread pi))) (seq (release ?lk) (ret (int i)))) (held ?lk s)"
    using assms(2,3) cp by (simp add: pipewrite_def op_simps curproc_ok acquire_ok)
  obtain m where m: "nat n + wakeups E = Suc m" using assms(7) by (cases "nat n + wakeups E") auto
  have "pipewrite E pi addr n s = Ok (- 1) s" if "\<not> readopen (pipes s pi) \<or> pkilled (procs s pr) \<noteq> 0"
    using that assms(2,7) cp killed_ok [OF h assms(4)] by (auto simp: start m op_simps release_ok)
  moreover have "pipewrite E pi addr n s = Ok n (awakened (Some (ChanPipeNread pi)) (upd_pipe pi (fold pipe_put ?bs) s))"
    if "readopen (pipes s pi)" "pkilled (procs s pr) = 0"
    using that assms cp pipewrite_loop_stores [OF h assms(4), of pi nd "nat n" addr 0 "nat n + wakeups E" E]
    by (simp add: start op_simps wakeup_held release_ok)
  moreover have "length ?bs = nat n" by (simp add: user_bytes_def)
  ultimately show ?thesis using pipe_puts_law [OF assms(5), of ?bs] assms(6) by (auto simp: Let_def)
qed

theorem pipewrite_stores_witness:
  "\<exists>t. pipewrite demo_env 0x80025000 10 2 demo_piped = Ok 2 t
     \<and> pipe_contents (pipes t 0x80025000) = [65, 66, 67] @ user_bytes (mem demo_user) demo_nd 10 0 2"
proof -
  note st = demo_piped_state
  have len: "length (pipe_contents (pipes demo_piped 0x80025000)) = 3" by (simp only: demo_piped_contents) simp
  have a: "user_mapped (mem demo_piped) demo_nd (10 + of_nat j)" if "j < nat 2" for j
    using that demo_user_area by (auto simp: user_area_def st(4))
  have "pt_tree (mem demo_piped) (pagetable (procs demo_piped 1)) demo_nd"
    by (simp add: st demo_user_tree del: One_nat_def)
  from pipewrite_stores [OF st(1-3) _ demo_piped_inv(1) _ _ this a, of 2 demo_env]
  show ?thesis using len st(6) by (auto simp: Let_def demo_piped_contents st(4,7) NPROC_def PIPESIZE_def)
qed

end
