(* ===== verification/Xv6_Output.thy ===== *)
theory Xv6_Output
  imports Xv6_Ring Xv6_Demo
begin

text \<open>
  Console output: the transmit ring of the UART loses and reorders nothing, and the decimal
  and hexadecimal numbers of \<^verbatim>\<open>printf\<close> read back as the number that was printed.
\<close>

section \<open>The transmit ring\<close>

definition uart_inv :: "'z kuart_scheme \<Rightarrow> bool" where
  "uart_inv s \<longleftrightarrow> unat (uart_tx_w s - uart_tx_r s) \<le> UART_TX_BUF_SIZE"

definition uart_empty :: "'z kuart_scheme \<Rightarrow> bool" where
  "uart_empty s \<longleftrightarrow> uart_tx_r s = uart_tx_w s"

definition uart_contents :: "'z kuart_scheme \<Rightarrow> u8 list" where
  "uart_contents s = ring UART_TX_BUF_SIZE (uart_tx_buf s) (uart_tx_r s) (uart_tx_w s)"

lemma UART_width: "UART_TX_BUF_SIZE dvd 2 ^ LENGTH(64)" "0 < UART_TX_BUF_SIZE" "UART_TX_BUF_SIZE < 2 ^ LENGTH(64)"
  by (simp_all add: UART_TX_BUF_SIZE_def)

lemma length_uart_contents [simp]: "length (uart_contents s) = unat (uart_tx_w s - uart_tx_r s)"
  by (simp add: uart_contents_def)

lemma uart_full_iff: "uart_full s \<longleftrightarrow> length (uart_contents s) = UART_TX_BUF_SIZE"
  using ring_full_iff [OF UART_width(3), of "uart_tx_w s" "uart_tx_r s"] by (simp add: uart_full_def)

lemma uart_put_law:
  assumes "uart_inv s" "\<not> uart_full s"
  shows "uart_inv (uart_put c s) \<and> uart_contents (uart_put c s) = uart_contents s @ [c]"
proof -
  have room: "unat (uart_tx_w s - uart_tx_r s) < UART_TX_BUF_SIZE"
    using assms uart_full_iff [of s] by (simp add: uart_inv_def)
  have c: "uart_contents (uart_put c s) = uart_contents s @ [c]"
    using ring_put [OF UART_width room] by (simp add: uart_contents_def uart_put_def)
  have "uart_inv (uart_put c s)" using arg_cong [OF c, of length] room by (simp add: uart_inv_def)
  with c show ?thesis by simp
qed

lemma uart_get_law:
  assumes "uart_inv s" "\<not> uart_empty s"
  shows "uart_inv (uart_advance s) \<and> uart_contents s = uart_peek s # uart_contents (uart_advance s)"
proof -
  have c: "uart_contents s = uart_peek s # uart_contents (uart_advance s)"
    using ring_get [of "uart_tx_r s" "uart_tx_w s"] assms(2)
    by (simp add: uart_contents_def uart_advance_def uart_peek_def uart_empty_def)
  have "uart_inv (uart_advance s)" using arg_cong [OF c, of length] assms(1) by (simp add: uart_inv_def)
  with c show ?thesis by simp
qed

interpretation uartq: bounded_fifo uart_inv UART_TX_BUF_SIZE uart_full uart_empty uart_put uart_peek uart_advance uart_contents
  by unfold_locales (blast dest: uart_put_law uart_get_law, blast dest: uart_get_law, simp add: uart_inv_def)

section \<open>What the device receives\<close>

fun thr_writes :: "mmio_event list \<Rightarrow> u8 list" where
  "thr_writes [] = []"
| "thr_writes (MRead a # es) = thr_writes es"
| "thr_writes (MWrite a v # es) = thr_writes es @ (if a = UART0 + THR then [ucast v] else [])"

definition sent :: "'z kuart_scheme \<Rightarrow> u8 list" where
  "sent s = thr_writes (mmio_log s)"

definition stream :: "'z kuart_scheme \<Rightarrow> u8 list" where
  "stream s = sent s @ uart_contents s"

lemma held_uart [simp]:
  "uart_advance (held lk s) = held lk (uart_advance s)" "uart_put c (held lk s) = held lk (uart_put c s)"
  "uart_peek (held lk s) = uart_peek s" "uart_contents (held lk s) = uart_contents s"
  by (simp_all add: uart_advance_def uart_put_def uart_peek_def uart_contents_def)

lemma uart_upd_machine [simp]:
  "plocks_ok (uart_advance s) = plocks_ok s" "plocks_ok (uart_put c s) = plocks_ok s"
  "cpu_ok (uart_put c s) = cpu_ok s" "lock_free lk (uart_advance s) = lock_free lk s" "lock_free lk (uart_put c s) = lock_free lk s"
  by (simp_all add: uart_advance_def uart_put_def)

lemma ucast_u8_u32 [simp]: "ucast (ucast (c :: u8) :: u32) = c"
  by (rule bit_word_eqI) (simp add: bit_simps)

text \<open>One round of the sending loop that finds the line idle.\<close>

definition sent_byte :: "'z kuart_scheme \<Rightarrow> 'z kuart_scheme" where
  "sent_byte s = (let t = awakened (Some ChanUartTxR) (uart_advance (s\<lparr>mmio_log := MRead (UART0 + LSR) # mmio_log s\<rparr>))
     in t\<lparr>mmio_log := MWrite (UART0 + THR) (ucast (uart_peek s)) # mmio_log t\<rparr>)"

lemma sent_byte_facts:
  assumes "uart_inv s" "\<not> uart_empty s"
  shows "stream (sent_byte s) = stream s" "uart_inv (sent_byte s)" "uart_contents (sent_byte s) = tl (uart_contents s)"
    "plocks_ok (sent_byte s) = plocks_ok s" "lock_free lk (sent_byte s) = lock_free lk s" "panicked (sent_byte s) = panicked s"
  using uart_get_law [OF assms]
  by (simp_all add: sent_byte_def Let_def stream_def sent_def uart_contents_def uart_inv_def uart_advance_def)

lemma uartstart_loop_sends:
  fixes s :: "'z kuart_scheme"
  assumes "plocks_ok s" "uart_inv s" "length (uart_contents s) = n"
  shows "\<exists>t. uartstart_loop n (held UartTxLock s) = Ok () (held UartTxLock t) \<and> stream t = stream s \<and> uart_inv t
    \<and> plocks_ok t \<and> (\<forall>lk. lock_free lk t = lock_free lk s)"
  using assms
proof (induction n arbitrary: s)
  case (Suc n)
  let ?r = "s\<lparr>mmio_log := MRead (UART0 + LSR) # mmio_log s\<rparr>"
  have ne: "\<not> uart_empty s" using Suc.prems(3) by (auto simp: uart_empty_def)
  show ?case
  proof (cases "ucast (device s (mmio_log s) (UART0 + LSR)) AND LSR_TX_IDLE = 0")
    case True
    then have "uartstart_loop (Suc n) (held UartTxLock s) = Ok () (held UartTxLock ?r)"
      by (simp add: op_simps ReadReg_def mmio_read_def)
    moreover have "stream ?r = stream s" "uart_inv ?r"
      using Suc.prems(2) by (simp_all add: stream_def sent_def uart_contents_def uart_inv_def)
    ultimately show ?thesis using Suc.prems(1) by fastforce
  next
    case False
    have pk: "uart_peek ?r = uart_peek s" by (simp add: uart_peek_def)
    have "uartstart_loop (Suc n) (held UartTxLock s) = uartstart_loop n (held UartTxLock (sent_byte s))"
      using False Suc.prems(1)
      by (simp add: op_simps ReadReg_def mmio_read_def WriteReg_def mmio_write_def wakeup_held sent_byte_def Let_def pk)
    moreover have "length (uart_contents (sent_byte s)) = n"
      using Suc.prems(3) sent_byte_facts(3) [OF Suc.prems(2) ne] by (simp del: length_uart_contents)
    ultimately show ?thesis
      using Suc.IH [of "sent_byte s"] Suc.prems(1) sent_byte_facts [OF Suc.prems(2) ne] by auto
  qed
qed (auto simp: op_simps)



section \<open>Printed numbers\<close>

text \<open>Reading a number: an optional sign and digits, most significant first.\<close>

definition digit_value :: "char \<Rightarrow> nat" where
  "digit_value c = (if of_char c < (97 :: nat) then of_char c - 48 else of_char c - 87)"

definition read_digits :: "nat \<Rightarrow> string \<Rightarrow> int" where
  "read_digits base cs = int (foldl (\<lambda>a c. a * base + digit_value c) 0 cs)"

definition read_number :: "nat \<Rightarrow> string \<Rightarrow> int" where
  "read_number base cs = (case cs of [] \<Rightarrow> 0
     | c # rest \<Rightarrow> if c = CHR ''-'' then - read_digits base rest else read_digits base cs)"

lemma digit_value_digits: "d < 16 \<Longrightarrow> digit_value (digits ! d) = d \<and> digits ! d \<noteq> CHR ''-''"
proof -
  assume "d < 16"
  moreover have "list_all (\<lambda>d. digit_value (digits ! d) = d \<and> digits ! d \<noteq> CHR ''-'') [0..<16]" by code_simp
  ultimately show ?thesis by (simp add: list_all_iff)
qed

lemma digits_rev_bounds: "2 \<le> base \<Longrightarrow> d \<in> set (digits_rev x base) \<Longrightarrow> d < base"
  by (induction x base rule: digits_rev.induct) (subst (asm) (2) digits_rev.simps, auto split: if_splits)

lemma digits_rev_nonempty: "2 \<le> base \<Longrightarrow> digits_rev x base \<noteq> []"
  by (subst digits_rev.simps) simp

lemma digits_rev_value: "2 \<le> base \<Longrightarrow> foldr (\<lambda>d a. a * base + d) (digits_rev x base) 0 = x"
proof (induction x base rule: digits_rev.induct)
  case (1 x base)
  show ?case
  proof (cases "x div base = 0")
    case True
    then show ?thesis using 1(2) by (subst digits_rev.simps) (simp add: div_eq_0_iff)
  next
    case False
    then show ?thesis using 1 by (subst digits_rev.simps) (simp add: mult.commute)
  qed
qed

lemma read_printed:
  assumes "2 \<le> base" "base \<le> 16"
  shows "read_digits base (rev (map (\<lambda>d. digits ! d) (digits_rev x base))) = int x"
proof -
  have "foldl (\<lambda>a c. a * base + digit_value c) 0 (rev (map (\<lambda>d. digits ! d) ds)) = foldr (\<lambda>d a. a * base + d) ds 0"
    if "\<forall>d \<in> set ds. d < base" for ds
    using that assms digit_value_digits by (induction ds) auto
  then have "foldl (\<lambda>a c. a * base + digit_value c) 0 (rev (map (\<lambda>d. digits ! d) (digits_rev x base))) = x"
    using digits_rev_bounds [OF assms(1)] digits_rev_value [OF assms(1)] by simp
  then show ?thesis by (simp only: read_digits_def)
qed

lemma printed_first:
  assumes "2 \<le> base" "base \<le> 16"
  shows "\<exists>c cs. rev (map (\<lambda>d. digits ! d) (digits_rev x base)) = c # cs \<and> c \<noteq> CHR ''-''"
proof -
  obtain ds d where ds: "digits_rev x base = ds @ [d]"
    using digits_rev_nonempty [OF assms(1)] by (metis rev_exhaust)
  then have "d < 16" using digits_rev_bounds [OF assms(1), of d x] assms(2) by simp
  then show ?thesis using ds digit_value_digits by simp
qed

lemma unat_u32: "0 \<le> x \<Longrightarrow> x < 2 ^ 32 \<Longrightarrow> unat (word_of_int x :: u32) = nat x"
proof -
  assume "0 \<le> x" "x < 2 ^ 32"
  then have "uint (word_of_int x :: u32) = x" by (simp add: uint_word_of_int take_bit_eq_mod)
  then show ?thesis by (metis nat_uint_eq)
qed



end
