(* ===== verification/Xv6_Input.thy ===== *)
theory Xv6_Input
  imports Xv6_Ring Xv6_Demo
begin

text \<open>
  Console input: the interrupt handler is a line editor.  The abstract state is a pair of byte
  lists, the complete lines a reader may take and the line being typed;
  \<^verbatim>\<open>consoleintr\<close> refines one step of the abstract editor, for a serial line that
  accepts the echo.
\<close>

section \<open>The abstract editor\<close>

definition line_input :: "int \<Rightarrow> u8 list \<times> u8 list \<Rightarrow> u8 list \<times> u8 list" where
  "line_input c = (\<lambda>(ready, typed).
     if c = Ctrl (CHR ''U'') then (ready, [])
     else if c = Ctrl (CHR ''H'') \<or> c = 0x7f then (ready, butlast typed)
     else if c = 0 \<or> length ready + length typed \<ge> INPUT_BUF_SIZE then (ready, typed)
     else
       let c' = (if c = 13 then 10 else c); typed' = typed @ [word_of_int c'] in
       if c' = 10 \<or> c' = Ctrl (CHR ''D'') \<or> length ready + length typed' = INPUT_BUF_SIZE
       then (ready @ typed', []) else (ready, typed'))"

section \<open>The ring as lines\<close>

definition cons_ready :: "'z kcons_scheme \<Rightarrow> u8 list" where
  "cons_ready s = ring INPUT_BUF_SIZE (cons_buf s) (cons_r s) (cons_w s)"

definition cons_typed :: "'z kcons_scheme \<Rightarrow> u8 list" where
  "cons_typed s = ring INPUT_BUF_SIZE (cons_buf s) (cons_w s) (cons_e s)"

definition cons_inv :: "'z kcons_scheme \<Rightarrow> bool" where
  "cons_inv s \<longleftrightarrow> unat (cons_w s - cons_r s) + unat (cons_e s - cons_w s) \<le> INPUT_BUF_SIZE
     \<and> 10 \<notin> set (cons_typed s)"

lemma INPUT_width: "INPUT_BUF_SIZE dvd 2 ^ LENGTH(32)" "0 < INPUT_BUF_SIZE" "INPUT_BUF_SIZE < 2 ^ LENGTH(32)"
  by (simp_all add: INPUT_BUF_SIZE_def)

lemma length_cons [simp]: "length (cons_ready s) = unat (cons_w s - cons_r s)" "length (cons_typed s) = unat (cons_e s - cons_w s)"
  by (simp_all add: cons_ready_def cons_typed_def)

text \<open>Two adjacent stretches of a ring are one stretch.\<close>

lemma ring_append:
  fixes r w e :: "'l::len word"
  assumes "unat (w - r) + unat (e - w) < 2 ^ LENGTH('l)"
  shows "ring N buf r w @ ring N buf w e = ring N buf r e" and "unat (e - r) = unat (w - r) + unat (e - w)"
proof -
  have "e - r = (w - r) + (e - w)" by simp
  then show u: "unat (e - r) = unat (w - r) + unat (e - w)"
    using assms by (simp only: unat_word_ariths) simp
  have "w + of_nat i = r + of_nat (unat (w - r) + i)" for i by simp
  then show "ring N buf r w @ ring N buf w e = ring N buf r e"
    unfolding ring_def u upt_add_eq_append [OF le0] map_append
    by (simp add: map_add_upt [symmetric] o_def add.commute)
qed

lemma cons_total:
  assumes "cons_inv s"
  shows "unat (cons_e s - cons_r s) = length (cons_ready s) + length (cons_typed s)"
    and "cons_ready s @ cons_typed s = ring INPUT_BUF_SIZE (cons_buf s) (cons_r s) (cons_e s)"
proof -
  have lt: "unat (cons_w s - cons_r s) + unat (cons_e s - cons_w s) < 2 ^ LENGTH(32)"
    using assms by (simp add: cons_inv_def INPUT_BUF_SIZE_def)
  show "unat (cons_e s - cons_r s) = length (cons_ready s) + length (cons_typed s)"
    using ring_append(2) [OF lt] by simp
  show "cons_ready s @ cons_typed s = ring INPUT_BUF_SIZE (cons_buf s) (cons_r s) (cons_e s)"
    using ring_append(1) [OF lt] by (simp add: cons_ready_def cons_typed_def)
qed

text \<open>Dropping the last byte of a stretch.\<close>

lemma ring_butlast:
  fixes w e :: "'l::len word"
  assumes "e \<noteq> w"
  shows "ring N buf w (e - 1) = butlast (ring N buf w e)" "last (ring N buf w e) = buf (unat ((e - 1) mod of_nat N))"
proof -
  have "e - w \<noteq> 0" using assms by simp
  then have u: "unat (e - w) = Suc (unat (e - 1 - w))"
    using unat_minus_one [of "e - w"] unat_gt_0 [of "e - w"] by (simp add: algebra_simps)
  show "ring N buf w (e - 1) = butlast (ring N buf w e)" by (simp add: ring_def u)
  have "w + of_nat (unat (e - 1 - w)) = e - 1" by simp
  then show "last (ring N buf w e) = buf (unat ((e - 1) mod of_nat N))" by (simp add: ring_def u)
qed

section \<open>Echo\<close>

definition tx_ready :: "'z kuart_scheme \<Rightarrow> bool" where
  "tx_ready s \<longleftrightarrow> 0 < polls s \<and> \<not> panicked s
     \<and> (\<forall>h. ucast (device s h (UART0 + LSR)) AND LSR_TX_IDLE \<noteq> 0)"

lemma entered_mmio [simp]:
  "mmio_log_update f (entered s) = entered (mmio_log_update f s)" "mmio_log (entered s) = mmio_log s"
  "device (entered s) = device s" "polls (entered s) = polls s" "panicked (entered s) = panicked s"
  by (cases s; simp add: entered_def mycpu_def)+

lemma uartputc_sync_ok:
  assumes "cpu_ok s" "tx_ready s"
  shows "\<exists>l. uartputc_sync c s = Ok () (s\<lparr>mmio_log := l\<rparr>)"
proof -
  obtain n where n: "polls s = Suc n" using assms(2) by (cases "polls s") (auto simp: tx_ready_def)
  have idle: "ucast (device s h (UART0 + LSR)) AND LSR_TX_IDLE \<noteq> 0" for h using assms(2) by (simp add: tx_ready_def)
  have "\<not> panicked s" using assms(2) by (simp add: tx_ready_def)
  then show ?thesis using assms(1) n idle
    by (simp add: uartputc_sync_def op_simps push_off_ok ReadReg_def mmio_read_def WriteReg_def mmio_write_def pop_off_ok)
       (metis (no_types))
qed

lemma tx_ready_upd [simp]:
  "tx_ready (mmio_log_update f s) = tx_ready s" "tx_ready (held lk s) = tx_ready s"
  by (simp_all add: tx_ready_def)

lemma tx_ready_cons [simp]:
  "tx_ready (cons_e_update g1 s) = tx_ready s" "tx_ready (cons_buf_update g2 s) = tx_ready s"
  "tx_ready (cons_w_update g3 s) = tx_ready s"
  by (simp_all add: tx_ready_def)

lemma consputc_ok:
  assumes "cpu_ok s" "tx_ready s"
  shows "\<exists>l. consputc c s = Ok () (s\<lparr>mmio_log := l\<rparr>)"
proof (cases "c = BACKSPACE")
  case True
  obtain l1 where 1: "uartputc_sync 8 s = Ok () (s\<lparr>mmio_log := l1\<rparr>)" using uartputc_sync_ok [OF assms] by blast
  obtain l2 where 2: "uartputc_sync 32 (s\<lparr>mmio_log := l1\<rparr>) = Ok () (s\<lparr>mmio_log := l2\<rparr>)"
    using uartputc_sync_ok [of "s\<lparr>mmio_log := l1\<rparr>" 32] assms by auto
  obtain l3 where 3: "uartputc_sync 8 (s\<lparr>mmio_log := l2\<rparr>) = Ok () (s\<lparr>mmio_log := l3\<rparr>)"
    using uartputc_sync_ok [of "s\<lparr>mmio_log := l2\<rparr>" 8] assms by auto
  show ?thesis using 1 2 3 True by (auto simp: consputc_def op_simps)
next
  case False
  then show ?thesis using uartputc_sync_ok [OF assms] by (simp add: consputc_def)
qed

section \<open>The steps of the handler\<close>

lemma LF_code: "of_char LF = (10 :: int)"
  by simp

lemma kill_line_ok:
  fixes s :: "'z kcons_scheme"
  assumes "cpu_ok s" "tx_ready s" "10 \<notin> set (cons_typed s)" "length (cons_typed s) = n"
  shows "\<exists>l. kill_line n s = Ok () (s\<lparr>cons_e := cons_w s, mmio_log := l\<rparr>)"
  using assms
proof (induction n arbitrary: s)
  case 0
  then have "cons_e s = cons_w s" by (simp add: unat_eq_0)
  then have "kill_line 0 s = Ok () (s\<lparr>cons_e := cons_w s, mmio_log := mmio_log s\<rparr>)" by simp
  then show ?case by blast
next
  case (Suc n)
  let ?s = "s\<lparr>cons_e := cons_e s - 1\<rparr>"
  have ne: "cons_e s \<noteq> cons_w s" using Suc.prems(4) by auto
  have t: "cons_typed ?s = butlast (cons_typed s)"
    and l: "last (cons_typed s) = cons_buf s (unat ((cons_e s - 1) mod of_nat INPUT_BUF_SIZE))"
    using ring_butlast [OF ne] by (simp_all add: cons_typed_def)
  have "cons_typed s \<noteq> []" using Suc.prems(4) by (metis list.size(3) nat.distinct(1))
  then have "cons_buf s (unat ((cons_e s - 1) mod of_nat INPUT_BUF_SIZE)) \<noteq> 10"
    using l last_in_set Suc.prems(3) by metis
  then have nl: "uint (cons_buf s (unat ((cons_e s - 1) mod of_nat INPUT_BUF_SIZE))) \<noteq> 10"
    using word_uint_eqI [of _ "10 :: u8"] by auto
  obtain l where l: "consputc BACKSPACE ?s = Ok () (?s\<lparr>mmio_log := l\<rparr>)"
    using consputc_ok [of ?s BACKSPACE] Suc.prems(1,2) by auto
  have "cons_typed (?s\<lparr>mmio_log := l\<rparr>) = butlast (cons_typed s)" using t by (simp add: cons_typed_def)
  then have "10 \<notin> set (cons_typed (?s\<lparr>mmio_log := l\<rparr>))" "length (cons_typed (?s\<lparr>mmio_log := l\<rparr>)) = n"
    using Suc.prems(3,4) in_set_butlastD by (metis, metis length_butlast diff_Suc_1)
  then obtain l' where "kill_line n (?s\<lparr>mmio_log := l\<rparr>) = Ok () (?s\<lparr>mmio_log := l, cons_e := cons_w s, mmio_log := l'\<rparr>)"
    using Suc.IH [of "?s\<lparr>mmio_log := l\<rparr>"] Suc.prems(1,2) by auto
  then show ?case using nl l by (auto simp: op_simps)
qed

text \<open>A character that is stored, and whether it completes a line.\<close>

definition stored :: "int \<Rightarrow> 'z kcons_scheme \<Rightarrow> 'z kcons_scheme" where
  "stored c s = s\<lparr>cons_buf := (cons_buf s)(unat (cons_e s mod of_nat INPUT_BUF_SIZE) := word_of_int c), cons_e := cons_e s + 1\<rparr>"

lemma stored_typed:
  assumes "cons_inv s" "length (cons_ready s) + length (cons_typed s) < INPUT_BUF_SIZE"
  shows "cons_ready (stored c s) = cons_ready s" "cons_typed (stored c s) = cons_typed s @ [word_of_int c]"
    "ring INPUT_BUF_SIZE (cons_buf (stored c s)) (cons_r s) (cons_e (stored c s)) = cons_ready s @ cons_typed s @ [word_of_int c]"
    "unat (cons_e (stored c s) - cons_r s) = Suc (length (cons_ready s) + length (cons_typed s))"
proof -
  let ?N = INPUT_BUF_SIZE and ?b = "(cons_buf s)(unat (cons_e s mod of_nat INPUT_BUF_SIZE) := word_of_int c)"
  have "unat (cons_e s - cons_w s) < ?N" using assms(2) by simp
  from ring_put [OF INPUT_width this]
  show t: "cons_typed (stored c s) = cons_typed s @ [word_of_int c]" by (simp add: cons_typed_def stored_def)
  have "unat (cons_e s - cons_r s) < ?N" using cons_total(1) [OF assms(1)] assms(2) by simp
  from ring_put [OF INPUT_width this, where buf = "cons_buf s" and c = "word_of_int c"]
  have whole: "ring ?N ?b (cons_r s) (cons_e s + 1) = (cons_ready s @ cons_typed s) @ [word_of_int c]"
    using cons_total(2) [OF assms(1)] by simp
  then show "ring ?N (cons_buf (stored c s)) (cons_r s) (cons_e (stored c s)) = cons_ready s @ cons_typed s @ [word_of_int c]"
    by (simp add: stored_def)
  show "unat (cons_e (stored c s) - cons_r s) = Suc (length (cons_ready s) + length (cons_typed s))"
    using arg_cong [OF whole, of length] by (simp add: stored_def)
  have lt: "unat (cons_w s - cons_r s) + unat (cons_e s + 1 - cons_w s) < 2 ^ LENGTH(32)"
    using arg_cong [OF t, of length] assms(2) by (simp add: stored_def INPUT_BUF_SIZE_def)
  from ring_append(1) [OF lt, of ?N ?b] whole t
  show "cons_ready (stored c s) = cons_ready s" by (simp add: cons_ready_def cons_typed_def stored_def)
qed

lemma consoleintr_done:
  assumes "cpu_ok s" "lock_free ConsLock s" "cpu_ok t" "lock_free ConsLock t"
    and "consoleintr_switch c (held ConsLock s) = Ok () (held ConsLock t)"
  shows "consoleintr c s = Ok () t"
  using assms by (simp add: consoleintr_def op_simps acquire_ok release_ok)

definition line_done :: "int \<Rightarrow> 'z kcons_scheme \<Rightarrow> bool" where
  "line_done c s \<longleftrightarrow> c = 10 \<or> c = Ctrl (CHR ''D'') \<or> Suc (length (cons_ready s) + length (cons_typed s)) = INPUT_BUF_SIZE"

lemma switch_store:
  fixes s :: "'z kcons_scheme"
  assumes "plocks_ok s" "tx_ready s" "cons_inv s" "c \<notin> {0, 0x7f, Ctrl (CHR ''P''), Ctrl (CHR ''U''), Ctrl (CHR ''H'')}"
    and "length (cons_ready s) + length (cons_typed s) < INPUT_BUF_SIZE" and c': "c' = (if c = 13 then 10 else c)"
  shows "\<exists>l. consoleintr_switch c (held ConsLock s) = Ok () (held ConsLock (
    let t = stored c' (s\<lparr>mmio_log := l\<rparr>) in if line_done c' s then awakened (Some ChanConsR) (t\<lparr>cons_w := cons_e t\<rparr>) else t))"
proof -
  have cp: "cpu_ok s" using assms(1) by (rule plocks_okD)
  have room: "cons_e s - cons_r s < of_nat INPUT_BUF_SIZE"
    using assms(5) cons_total(1) [OF assms(3)] by (simp add: word_less_nat_alt INPUT_BUF_SIZE_def)
  obtain l where l: "consputc c' (held ConsLock s) = Ok () (held ConsLock (s\<lparr>mmio_log := l\<rparr>))"
    using consputc_ok [of "held ConsLock s" c'] assms(2) cpu_ok_held [OF cp] by auto
  have full: "cons_e s + 1 - cons_r s = of_nat INPUT_BUF_SIZE \<longleftrightarrow> Suc (length (cons_ready s) + length (cons_typed s)) = INPUT_BUF_SIZE"
    using stored_typed(4) [OF assms(3,5), of c'] by (simp add: word_unat_eq_iff stored_def INPUT_BUF_SIZE_def)
  have "(if c = 13 then of_char LF else c) = c'" using c' by simp
  then have "consoleintr_switch c (held ConsLock s) = Ok () (held ConsLock (
    let t = stored c' (s\<lparr>mmio_log := l\<rparr>) in if line_done c' s then awakened (Some ChanConsR) (t\<lparr>cons_w := cons_e t\<rparr>) else t))"
    using assms(1,4) room l full
    by (simp add: consoleintr_switch_def op_simps Let_def wakeup_held line_done_def stored_def)
  then show ?thesis by blast
qed

lemma cons_log [simp]:
  "cons_ready (s\<lparr>mmio_log := l\<rparr>) = cons_ready s" "cons_typed (s\<lparr>mmio_log := l\<rparr>) = cons_typed s"
  "cons_inv (s\<lparr>mmio_log := l\<rparr>) = cons_inv s"
  by (simp_all add: cons_ready_def cons_typed_def cons_inv_def)

lemma Ctrl_codes: "Ctrl (CHR ''P'') = 16" "Ctrl (CHR ''U'') = 21" "Ctrl (CHR ''H'') = 8" "Ctrl (CHR ''D'') = 4"
  by (simp_all add: Ctrl_def)

definition edited :: "'z kcons_scheme \<Rightarrow> int \<Rightarrow> 'z kcons_scheme \<Rightarrow> bool" where
  "edited s c t \<longleftrightarrow> cons_inv t \<and> (cons_ready t, cons_typed t) = line_input c (cons_ready s, cons_typed s)
     \<and> procs t = (if cons_ready t = cons_ready s then procs s else procs (awakened (Some ChanConsR) s))
     \<and> cpu_ok t \<and> lock_free ConsLock t"

lemma edited_store:
  assumes "cpu_ok s" "lock_free ConsLock s" "cons_inv s" "c \<notin> {0, 0x7f, Ctrl (CHR ''P''), Ctrl (CHR ''U''), Ctrl (CHR ''H'')}"
    and "length (cons_ready s) + length (cons_typed s) < INPUT_BUF_SIZE" and c': "c' = (if c = 13 then 10 else c)"
    and "0 \<le> c" "c < 256"
    and t: "t = stored c' (s\<lparr>mmio_log := l\<rparr>)"
  shows "edited s c (if line_done c' s then awakened (Some ChanConsR) (t\<lparr>cons_w := cons_e t\<rparr>) else t)"
proof -
  let ?R = "cons_ready s" and ?T = "cons_typed s" and ?w = "word_of_int c' :: u8"
  have st: "cons_ready t = ?R" "cons_typed t = ?T @ [?w]" "ring INPUT_BUF_SIZE (cons_buf t) (cons_r s) (cons_e t) = ?R @ ?T @ [?w]"
    using stored_typed [of "s\<lparr>mmio_log := l\<rparr>" c'] assms(3,5) t by simp_all
  have keep: "cpu_ok t" "lock_free ConsLock t" "cons_r t = cons_r s" "mycpu t = mycpu s" "procs t = procs s"
    using assms(1,2) t by (simp_all add: stored_def)
  have li: "line_input c (?R, ?T) = (if line_done c' s then (?R @ ?T @ [?w], []) else (?R, ?T @ [?w]))"
    using assms(4-6) by (simp add: line_input_def line_done_def Let_def)
  show ?thesis
  proof (cases "line_done c' s")
    case True
    let ?u = "awakened (Some ChanConsR) (t\<lparr>cons_w := cons_e t\<rparr>)"
    have u: "cons_ready ?u = ?R @ ?T @ [?w]" "cons_typed ?u = []"
      using st(3) keep(3) by (simp_all add: cons_ready_def cons_typed_def)
    have "cons_inv ?u" using arg_cong [OF u(1), of length] arg_cong [OF u(2), of length] u(2) assms(5)
      by (simp add: cons_inv_def)
    moreover have "procs ?u = procs (awakened (Some ChanConsR) s)" using keep(4,5) by (simp add: awakened_def map_procs_def cong: if_cong)
    ultimately show ?thesis using True u li keep by (simp add: edited_def)
  next
    case False
    then have "c' \<noteq> 10" "0 \<le> c'" "c' < 256" using assms(7,8) c' by (auto simp: line_done_def)
    then have "uint ?w \<noteq> uint (10 :: u8)" by (simp add: uint_word_of_int take_bit_eq_mod)
    then have "10 \<notin> set (cons_typed t)" using st(2) assms(3) by (auto simp: cons_inv_def)
    then have "cons_inv t" using arg_cong [OF st(1), of length] arg_cong [OF st(2), of length] assms(5)
      by (simp add: cons_inv_def)
    then show ?thesis using False st keep li by (simp add: edited_def)
  qed
qed

lemma edited_kill:
  assumes "cpu_ok s" "lock_free ConsLock s" "cons_inv s"
  shows "edited s (Ctrl (CHR ''U'')) (s\<lparr>cons_e := cons_w s, mmio_log := l\<rparr>)"
  using assms by (simp add: edited_def line_input_def cons_inv_def cons_ready_def cons_typed_def ring_def)

lemma edited_erase:
  assumes "cpu_ok s" "lock_free ConsLock s" "cons_inv s" "cons_e s \<noteq> cons_w s" "c = Ctrl (CHR ''H'') \<or> c = 0x7f"
  shows "edited s c (s\<lparr>cons_e := cons_e s - 1, mmio_log := l\<rparr>)" (is "edited s c ?t")
proof -
  have t: "cons_ready ?t = cons_ready s" "cons_typed ?t = butlast (cons_typed s)"
    using ring_butlast(1) [OF assms(4)] by (simp_all add: cons_ready_def cons_typed_def)
  have "10 \<notin> set (cons_typed ?t)" using t(2) assms(3) by (auto simp: cons_inv_def dest: in_set_butlastD)
  then have "cons_inv ?t" using arg_cong [OF t(1), of length] arg_cong [OF t(2), of length] assms(3)
    by (auto simp: cons_inv_def)
  then show ?thesis using t assms by (auto simp: edited_def line_input_def Ctrl_codes)
qed

lemma edited_ignore:
  assumes "cpu_ok s" "lock_free ConsLock s" "cons_inv s" "c \<noteq> Ctrl (CHR ''U'')" 
    and "c = 0 \<or> (c = Ctrl (CHR ''H'') \<or> c = 0x7f) \<and> cons_e s = cons_w s
      \<or> c \<noteq> Ctrl (CHR ''H'') \<and> c \<noteq> 0x7f \<and> INPUT_BUF_SIZE \<le> length (cons_ready s) + length (cons_typed s)"
  shows "edited s c s"
proof -
  have "cons_typed s = []" if "cons_e s = cons_w s" using that by (simp add: cons_typed_def)
  then show ?thesis using assms by (auto simp: edited_def line_input_def Ctrl_codes)
qed

lemma switch_edits:
  fixes s :: "'z kcons_scheme"
  assumes "plocks_ok s" "lock_free ConsLock s" "tx_ready s" "cons_inv s"
    and "c \<noteq> Ctrl (CHR ''P'')" "0 \<le> c" "c < 256"
  shows "\<exists>t. consoleintr_switch c (held ConsLock s) = Ok () (held ConsLock t) \<and> edited s c t"
proof -
  let ?h = "held ConsLock"
  have cp: "cpu_ok s" using assms(1) by (rule plocks_okD)
  have hp: "cpu_ok (?h s)" "tx_ready (?h s)" using cpu_ok_held [OF cp] assms(3) by simp_all
  consider (kill) "c = Ctrl (CHR ''U'')"
    | (erase) "c = Ctrl (CHR ''H'') \<or> c = 0x7f" "cons_e s \<noteq> cons_w s"
    | (store) "c \<notin> {0, 0x7f, Ctrl (CHR ''P''), Ctrl (CHR ''U''), Ctrl (CHR ''H'')}"
        "length (cons_ready s) + length (cons_typed s) < INPUT_BUF_SIZE"
    | (ignore) "c \<noteq> Ctrl (CHR ''U'')" "c = 0 \<or> (c = Ctrl (CHR ''H'') \<or> c = 0x7f) \<and> cons_e s = cons_w s
        \<or> c \<noteq> Ctrl (CHR ''H'') \<and> c \<noteq> 0x7f \<and> INPUT_BUF_SIZE \<le> length (cons_ready s) + length (cons_typed s)"
    using assms(5) by fastforce
  then show ?thesis
  proof cases
    case kill
    have "cons_typed (?h s) = cons_typed s" by (simp add: cons_typed_def)
    then have "\<exists>l. kill_line (unat (cons_e s - cons_w s)) (?h s) = Ok () (?h (s\<lparr>cons_e := cons_w s, mmio_log := l\<rparr>))"
      using kill_line_ok [OF hp] assms(4) by (simp add: cons_inv_def)
    then show ?thesis using kill edited_kill [OF cp assms(2,4)]
      by (auto simp: consoleintr_switch_def op_simps Ctrl_codes)
  next
    case erase
    let ?s = "s\<lparr>cons_e := cons_e s - 1\<rparr>"
    obtain l where "consputc BACKSPACE (?h ?s) = Ok () (?h (s\<lparr>cons_e := cons_e s - 1, mmio_log := l\<rparr>))"
      using consputc_ok [of "?h ?s" BACKSPACE] cpu_ok_held [of ?s] cp assms(3) by auto
    then show ?thesis using erase edited_erase [OF cp assms(2,4) erase(2,1), of l]
      by (auto simp: consoleintr_switch_def op_simps Ctrl_codes)
  next
    case store
    then show ?thesis
      using switch_store [OF assms(1,3,4) store refl] edited_store [OF cp assms(2,4) store refl assms(6,7) refl]
      by (metis (no_types, lifting))
  next
    case ignore
    then have "consoleintr_switch c (?h s) = Ok () (?h s)"
      using assms(5) cons_total(1) [OF assms(4)]
      by (auto simp: consoleintr_switch_def op_simps Ctrl_codes word_less_nat_alt INPUT_BUF_SIZE_def)
    then show ?thesis using edited_ignore [OF cp assms(2,4) ignore] by blast
  qed
qed

text \<open>
  C18. The console interrupt handler is a line editor: for every key but Control-P, given a
  serial line that accepts the echo, \<^verbatim>\<open>consoleintr\<close> returns, keeps the invariant
  of the input ring, and acts on the complete lines and the line being typed as the abstract
  editor \<open>line_input\<close>: kill, erase, carriage return as newline, a completed line handed
  over at newline, end-of-file or a full buffer, input beyond the buffer dropped.  Readers
  are woken exactly when something was handed over.
\<close>

theorem consoleintr_edits_line:
  fixes s :: "'z kcons_scheme"
  assumes "plocks_ok s" "lock_free ConsLock s" "tx_ready s" "cons_inv s"
    and "c \<noteq> Ctrl (CHR ''P'')" "0 \<le> c" "c < 256"
  shows "\<exists>t. consoleintr c s = Ok () t \<and> cons_inv t
    \<and> (cons_ready t, cons_typed t) = line_input c (cons_ready s, cons_typed s)
    \<and> procs t = (if cons_ready t = cons_ready s then procs s else procs (awakened (Some ChanConsR) s))"
  using switch_edits [OF assms] consoleintr_done [OF plocks_okD(1) [OF assms(1)] assms(2)] by (auto simp: edited_def)

lemma demo_cons [simp]: "tx_ready demo_kfile" "cons_inv demo_kfile" "cons_ready demo_kfile = []" "cons_typed demo_kfile = []"
  by (simp_all add: tx_ready_def cons_inv_def cons_ready_def cons_typed_def ring_def demo_kfile_def LSR_TX_IDLE_def)

theorem consoleintr_edits_line_witness:
  "\<exists>t. consoleintr 13 demo_kfile = Ok () t \<and> cons_ready t = [10] \<and> cons_typed t = []"
proof -
  have "line_input 13 ([], []) = ([10], [])" by (simp add: line_input_def Ctrl_codes INPUT_BUF_SIZE_def Let_def)
  then show ?thesis using consoleintr_edits_line [of demo_kfile 13] by (auto simp: Ctrl_codes)
qed

end
