(* ===== verification/Pth_Monitor.thy ===== *)
theory Pth_Monitor
  imports Main
begin

text \<open>
  Threads that share variables under one POSIX mutex and its condition variables, as the
  programs of the synchronization exercise do.  The code of a thread is a control-flow graph:
  a function from program points to instructions.  The step relation interleaves the
  instructions of the threads; \<^verbatim>\<open>pthread_cond_wait\<close> gives up the mutex and falls
  asleep in one step and takes the mutex again in another, a signal wakes any one sleeper, and
  a sleeper may also wake for no reason, as POSIX allows.
\<close>

named_theorems code_defs \<open>the control-flow graphs of the programs\<close>

type_synonym tid = nat

datatype ('c, 's, 'p) instr =
    Lock 'p
  | Unlock 'p
  | Wait 'c 'p
  | Waiting 'c 'p
  | Signal 'c 'p
  | Broadcast 'c 'p
  | Set "'s \<Rightarrow> 's" 'p
  | Test "'s \<Rightarrow> bool" 'p 'p
  | Choose "'p list"
  | Return

record ('c, 's, 'p) conf =
  owner :: "tid option"
  queue :: "'c \<Rightarrow> tid set"
  vars :: 's
  pcs :: "tid \<Rightarrow> 'p"

definition goto :: "tid \<Rightarrow> 'p \<Rightarrow> ('c, 's, 'p) conf \<Rightarrow> ('c, 's, 'p) conf" where
  "goto t q m = m\<lparr>pcs := (pcs m)(t := q)\<rparr>"

definition enqueue :: "'c \<Rightarrow> tid \<Rightarrow> ('c, 's, 'p) conf \<Rightarrow> ('c, 's, 'p) conf" where
  "enqueue c t m = m\<lparr>queue := (queue m)(c := insert t (queue m c))\<rparr>"

definition dequeue :: "'c \<Rightarrow> tid \<Rightarrow> ('c, 's, 'p) conf \<Rightarrow> ('c, 's, 'p) conf" where
  "dequeue c t m = m\<lparr>queue := (queue m)(c := queue m c - {t})\<rparr>"

lemma conf_simps [simp]:
  "owner (goto t q m) = owner m" "queue (goto t q m) = queue m" "vars (goto t q m) = vars m"
  "pcs (goto t q m) = (pcs m)(t := q)"
  "owner (enqueue c t m) = owner m" "queue (enqueue c t m) = (queue m)(c := insert t (queue m c))"
  "vars (enqueue c t m) = vars m" "pcs (enqueue c t m) = pcs m"
  "owner (dequeue c t m) = owner m" "queue (dequeue c t m) = (queue m)(c := queue m c - {t})"
  "vars (dequeue c t m) = vars m" "pcs (dequeue c t m) = pcs m"
  by (simp_all add: goto_def enqueue_def dequeue_def)

section \<open>Steps\<close>

text \<open>\<open>step n code\<close> is one step of one of the threads 0, ..., n - 1.\<close>

inductive step :: "nat \<Rightarrow> (tid \<Rightarrow> 'p \<Rightarrow> ('c, 's, 'p) instr) \<Rightarrow> ('c, 's, 'p) conf \<Rightarrow> ('c, 's, 'p) conf \<Rightarrow> bool"
  for n code where
  lock: "t < n \<Longrightarrow> code t (pcs m t) = Lock q \<Longrightarrow> owner m = None \<Longrightarrow> step n code m (goto t q (m\<lparr>owner := Some t\<rparr>))"
| unlock: "t < n \<Longrightarrow> code t (pcs m t) = Unlock q \<Longrightarrow> owner m = Some t \<Longrightarrow> step n code m (goto t q (m\<lparr>owner := None\<rparr>))"
| wait: "t < n \<Longrightarrow> code t (pcs m t) = Wait c q \<Longrightarrow> owner m = Some t
    \<Longrightarrow> step n code m (goto t q (enqueue c t (m\<lparr>owner := None\<rparr>)))"
| resume: "t < n \<Longrightarrow> code t (pcs m t) = Waiting c q \<Longrightarrow> t \<notin> queue m c \<Longrightarrow> owner m = None
    \<Longrightarrow> step n code m (goto t q (m\<lparr>owner := Some t\<rparr>))"
| spurious: "t < n \<Longrightarrow> t \<in> queue m c \<Longrightarrow> step n code m (dequeue c t m)"
| signal_none: "t < n \<Longrightarrow> code t (pcs m t) = Signal c q \<Longrightarrow> queue m c = {} \<Longrightarrow> step n code m (goto t q m)"
| signal_one: "t < n \<Longrightarrow> code t (pcs m t) = Signal c q \<Longrightarrow> u \<in> queue m c \<Longrightarrow> step n code m (goto t q (dequeue c u m))"
| broadcast: "t < n \<Longrightarrow> code t (pcs m t) = Broadcast c q \<Longrightarrow> step n code m (goto t q (m\<lparr>queue := (queue m)(c := {})\<rparr>))"
| assign: "t < n \<Longrightarrow> code t (pcs m t) = Set f q \<Longrightarrow> step n code m (goto t q (m\<lparr>vars := f (vars m)\<rparr>))"
| test: "t < n \<Longrightarrow> code t (pcs m t) = Test b q r \<Longrightarrow> step n code m (goto t (if b (vars m) then q else r) m)"
| choose: "t < n \<Longrightarrow> code t (pcs m t) = Choose qs \<Longrightarrow> q \<in> set qs \<Longrightarrow> step n code m (goto t q m)"

inductive reach :: "nat \<Rightarrow> (tid \<Rightarrow> 'p \<Rightarrow> ('c, 's, 'p) instr) \<Rightarrow> ('c, 's, 'p) conf \<Rightarrow> ('c, 's, 'p) conf \<Rightarrow> bool"
  for n code m0 where
  start: "reach n code m0 m0"
| more: "reach n code m0 m \<Longrightarrow> step n code m m' \<Longrightarrow> reach n code m0 m'"

text \<open>
  An executable form of the step: the scheduler's choice names the thread and, where the
  thread signals or chooses, which sleeper or which branch.
\<close>

datatype pick = Run tid | Pick tid nat

fun fire :: "nat \<Rightarrow> (tid \<Rightarrow> 'p \<Rightarrow> ('c, 's, 'p) instr) \<Rightarrow> pick \<Rightarrow> ('c, 's, 'p) conf \<Rightarrow> ('c, 's, 'p) conf option" where
  "fire n code (Run t) m = (if t < n then (case code t (pcs m t) of
       Lock q \<Rightarrow> if owner m = None then Some (goto t q (m\<lparr>owner := Some t\<rparr>)) else None
     | Unlock q \<Rightarrow> if owner m = Some t then Some (goto t q (m\<lparr>owner := None\<rparr>)) else None
     | Wait c q \<Rightarrow> if owner m = Some t then Some (goto t q (enqueue c t (m\<lparr>owner := None\<rparr>))) else None
     | Waiting c q \<Rightarrow> if t \<notin> queue m c \<and> owner m = None then Some (goto t q (m\<lparr>owner := Some t\<rparr>)) else None
     | Signal c q \<Rightarrow> if queue m c = {} then Some (goto t q m) else None
     | Broadcast c q \<Rightarrow> Some (goto t q (m\<lparr>queue := (queue m)(c := {})\<rparr>))
     | Set f q \<Rightarrow> Some (goto t q (m\<lparr>vars := f (vars m)\<rparr>))
     | Test b q r \<Rightarrow> Some (goto t (if b (vars m) then q else r) m)
     | _ \<Rightarrow> None) else None)"
| "fire n code (Pick t k) m = (if t < n then (case code t (pcs m t) of
       Signal c q \<Rightarrow> if k \<in> queue m c then Some (goto t q (dequeue c k m)) else None
     | Choose qs \<Rightarrow> if k < length qs then Some (goto t (qs ! k) m) else None
     | _ \<Rightarrow> None) else None)"

fun fires :: "nat \<Rightarrow> (tid \<Rightarrow> 'p \<Rightarrow> ('c, 's, 'p) instr) \<Rightarrow> pick list \<Rightarrow> ('c, 's, 'p) conf \<Rightarrow> ('c, 's, 'p) conf option" where
  "fires n code [] m = Some m"
| "fires n code (p # ps) m = Option.bind (fire n code p m) (fires n code ps)"

lemma step_test:
  "t < n \<Longrightarrow> code t (pcs m t) = Test b q r \<Longrightarrow> b (vars m) \<Longrightarrow> step n code m (goto t q m)"
  "t < n \<Longrightarrow> code t (pcs m t) = Test b q r \<Longrightarrow> \<not> b (vars m) \<Longrightarrow> step n code m (goto t r m)"
  using step.test [of t n code m b q r] by simp_all

lemma fire_step: "fire n code p m = Some m' \<Longrightarrow> step n code m m'"
  by (cases p) (auto split: instr.splits if_splits intro: step.intros step_test)

lemma fires_reach: "fires n code ps m = Some m' \<Longrightarrow> reach n code m0 m \<Longrightarrow> reach n code m0 m'"
  by (induction ps arbitrary: m) (auto simp: Option.bind_eq_Some_conv dest: fire_step intro: reach.more)

text \<open>The steps of one thread, by the instruction it is at.\<close>

primrec act :: "('c, 's, 'p) instr \<Rightarrow> tid \<Rightarrow> ('c, 's, 'p) conf \<Rightarrow> ('c, 's, 'p) conf \<Rightarrow> bool" where
  "act (Lock q) t m m' \<longleftrightarrow> owner m = None \<and> m' = goto t q (m\<lparr>owner := Some t\<rparr>)"
| "act (Unlock q) t m m' \<longleftrightarrow> owner m = Some t \<and> m' = goto t q (m\<lparr>owner := None\<rparr>)"
| "act (Wait c q) t m m' \<longleftrightarrow> owner m = Some t \<and> m' = goto t q (enqueue c t (m\<lparr>owner := None\<rparr>))"
| "act (Waiting c q) t m m' \<longleftrightarrow> t \<notin> queue m c \<and> owner m = None \<and> m' = goto t q (m\<lparr>owner := Some t\<rparr>)"
| "act (Signal c q) t m m' \<longleftrightarrow> queue m c = {} \<and> m' = goto t q m \<or> (\<exists>u \<in> queue m c. m' = goto t q (dequeue c u m))"
| "act (Broadcast c q) t m m' \<longleftrightarrow> m' = goto t q (m\<lparr>queue := (queue m)(c := {})\<rparr>)"
| "act (Set f q) t m m' \<longleftrightarrow> m' = goto t q (m\<lparr>vars := f (vars m)\<rparr>)"
| "act (Test b q r) t m m' \<longleftrightarrow> m' = goto t (if b (vars m) then q else r) m"
| "act (Choose qs) t m m' \<longleftrightarrow> (\<exists>q \<in> set qs. m' = goto t q m)"
| "act Return t m m' \<longleftrightarrow> False"

lemma step_cases_act:
  assumes "step n code m m'"
  obtains (act) t where "t < n" "act (code t (pcs m t)) t m m'"
    | (spurious) t c where "t < n" "t \<in> queue m c" "m' = dequeue c t m"
  using assms by cases (auto, force+)

lemma act_other:
  assumes "act i t m m'" "u \<noteq> t"
  shows "pcs m' u = pcs m u" "u \<in> queue m' c \<Longrightarrow> u \<in> queue m c"
  using assms by (cases i; auto split: if_splits)+

section \<open>Counting threads\<close>

definition cnt :: "nat \<Rightarrow> ('p \<Rightarrow> bool) \<Rightarrow> (tid \<Rightarrow> 'p) \<Rightarrow> int" where
  "cnt n P f = (\<Sum>t<n. of_bool (P (f t)))"

lemma cnt_upd: "t < n \<Longrightarrow> cnt n P (f(t := q)) = cnt n P f - of_bool (P (f t)) + of_bool (P q)"
proof -
  assume "t < n"
  then have "(\<Sum>u<n. g u) = g t + (\<Sum>u \<in> {..<n} - {t}. g u)" for g :: "nat \<Rightarrow> int"
    by (subst sum.remove [of _ t]) auto
  note this [of "\<lambda>u. of_bool (P ((f(t := q)) u))"] this [of "\<lambda>u. of_bool (P (f u))"]
  moreover have "(\<Sum>u \<in> {..<n} - {t}. of_bool (P ((f(t := q)) u))) = (\<Sum>u \<in> {..<n} - {t}. of_bool (P (f u)) :: int)"
    by (intro sum.cong) auto
  ultimately show ?thesis by (simp add: cnt_def)
qed

lemma cnt_nonneg [simp]: "0 \<le> cnt n P f"
  by (simp add: cnt_def sum_nonneg)

lemma cnt_zero: "cnt n P f = 0 \<longleftrightarrow> (\<forall>t < n. \<not> P (f t))"
  by (auto simp: cnt_def sum_nonneg_eq_0_iff)

lemma cnt_pos: "0 < cnt n P f \<longleftrightarrow> (\<exists>t < n. P (f t))"
  using cnt_zero [of n P f] cnt_nonneg [of n P f] by (metis less_le)

lemma cnt_ge: "t < n \<Longrightarrow> P (f t) \<Longrightarrow> 1 \<le> cnt n P f"
  using cnt_pos [of n P f] by auto

lemma cnt_two: "t < n \<Longrightarrow> u < n \<Longrightarrow> t \<noteq> u \<Longrightarrow> P (f t) \<Longrightarrow> P (f u) \<Longrightarrow> \<not> P q \<Longrightarrow> 2 \<le> cnt n P f"
  using cnt_upd [of t n P f q] cnt_ge [of u n P "f(t := q)"] by simp

section \<open>The mutex protects\<close>

text \<open>
  A program follows the locking discipline when its points fall into those that hold the
  mutex (\<open>crit\<close>) and those that do not, and every instruction respects the
  division.  Then the owner of the mutex is the one thread at such a point.
\<close>

definition awake :: "('c, 's, 'p) conf \<Rightarrow> tid \<Rightarrow> bool" where
  "awake m t \<longleftrightarrow> (\<forall>c. t \<notin> queue m c)"

definition sleep_point :: "('c, 's, 'p) instr \<Rightarrow> bool" where
  "sleep_point i = (case i of Waiting c q \<Rightarrow> True | _ \<Rightarrow> False)"

fun disciplined :: "(tid \<Rightarrow> 'p \<Rightarrow> ('c, 's, 'p) instr) \<Rightarrow> ('p \<Rightarrow> bool) \<Rightarrow> tid \<Rightarrow> 'p \<Rightarrow> bool" where
  "disciplined code crit t p = (case code t p of
       Lock q \<Rightarrow> \<not> crit p \<and> crit q \<and> \<not> sleep_point (code t q)
     | Unlock q \<Rightarrow> crit p \<and> \<not> crit q \<and> \<not> sleep_point (code t q)
     | Wait c q \<Rightarrow> crit p \<and> \<not> crit q \<and> (case code t q of Waiting d r \<Rightarrow> d = c | _ \<Rightarrow> False)
     | Waiting c q \<Rightarrow> \<not> crit p \<and> crit q \<and> \<not> sleep_point (code t q)
     | Signal c q \<Rightarrow> crit p = crit q \<and> \<not> sleep_point (code t q)
     | Broadcast c q \<Rightarrow> crit p = crit q \<and> \<not> sleep_point (code t q)
     | Set f q \<Rightarrow> crit p = crit q \<and> \<not> sleep_point (code t q)
     | Test b q r \<Rightarrow> crit p = crit q \<and> crit p = crit r \<and> \<not> sleep_point (code t q) \<and> \<not> sleep_point (code t r)
     | Choose qs \<Rightarrow> list_all (\<lambda>q. crit p = crit q \<and> \<not> sleep_point (code t q)) qs
     | Return \<Rightarrow> \<not> crit p)"

definition protected :: "nat \<Rightarrow> (tid \<Rightarrow> 'p \<Rightarrow> ('c, 's, 'p) instr) \<Rightarrow> ('p \<Rightarrow> bool) \<Rightarrow> ('c, 's, 'p) conf \<Rightarrow> bool" where
  "protected n code crit m \<longleftrightarrow> (\<forall>t. owner m = Some t \<longleftrightarrow> t < n \<and> crit (pcs m t))
     \<and> (\<forall>t c. t \<in> queue m c \<longrightarrow> t < n \<and> (\<exists>q. code t (pcs m t) = Waiting c q))"

locale monitor =
  fixes n :: nat and code :: "tid \<Rightarrow> 'p \<Rightarrow> ('c, 's, 'p) instr" and crit :: "'p \<Rightarrow> bool"
  assumes discipline: "disciplined code crit t p"
begin

lemma protected_queue: "protected n code crit m \<Longrightarrow> t \<in> queue m c \<Longrightarrow> t < n \<and> (\<exists>q. code t (pcs m t) = Waiting c q)"
  by (auto simp: protected_def)

lemma protected_owner:
  "protected n code crit m \<Longrightarrow> t < n \<Longrightarrow> u < n \<Longrightarrow> crit (pcs m t) \<Longrightarrow> crit (pcs m u) \<Longrightarrow> t = u"
  unfolding protected_def by (metis option.inject)

lemma protected_other:
  assumes "protected n code crit m" "t < n" "crit (pcs m t)" "u < n" "u \<noteq> t" "crit p"
  shows "pcs m u \<noteq> p"
  using protected_owner [OF assms(1,2,4,3)] assms(5,6) by auto

lemma protected_move:
  assumes "protected n code crit m" "t < n" "\<And>c. t \<notin> queue m c" "\<not> sleep_point (code t q)"
    and "o' = (if crit q then Some t else if crit (pcs m t) then None else owner m)"
    and "crit q \<longrightarrow> owner m = None \<or> owner m = Some t" "\<And>c. Q c \<subseteq> queue m c"
  shows "protected n code crit (m\<lparr>owner := o', queue := Q, vars := x, pcs := (pcs m)(t := q)\<rparr>)"
  unfolding protected_def
proof (intro conjI allI impI)
  fix u
  have "owner m = Some t \<longleftrightarrow> crit (pcs m t)" "owner m = Some u \<longleftrightarrow> u < n \<and> crit (pcs m u)"
    using assms(1,2) by (simp_all add: protected_def)
  then show "owner (m\<lparr>owner := o', queue := Q, vars := x, pcs := (pcs m)(t := q)\<rparr>) = Some u \<longleftrightarrow>
      u < n \<and> crit (pcs (m\<lparr>owner := o', queue := Q, vars := x, pcs := (pcs m)(t := q)\<rparr>) u)"
    using assms(2,5,6) by (cases "u = t") auto
next
  fix u c assume "u \<in> queue (m\<lparr>owner := o', queue := Q, vars := x, pcs := (pcs m)(t := q)\<rparr>) c"
  then have "u \<in> queue m c" using assms(7) [of c] by auto
  then have "u < n" "\<exists>q. code u (pcs m u) = Waiting c q" using protected_queue [OF assms(1)] by auto
  moreover have "u \<noteq> t" using assms(3) \<open>u \<in> queue m c\<close> by auto
  ultimately show "u < n" "\<exists>r. code u (pcs (m\<lparr>owner := o', queue := Q, vars := x, pcs := (pcs m)(t := q)\<rparr>) u) = Waiting c r"
    by auto
qed

lemma queue_awake: "protected n code crit m \<Longrightarrow> \<not> sleep_point (code t (pcs m t)) \<Longrightarrow> t \<notin> queue m c"
  by (auto simp: sleep_point_def dest: protected_queue)

lemma protected_stay:
  assumes "protected n code crit m" "t < n" "\<not> sleep_point (code t (pcs m t))" "\<not> sleep_point (code t q)"
    and "crit (pcs m t) = crit q" "\<And>c. Q c \<subseteq> queue m c"
  shows "protected n code crit (m\<lparr>queue := Q, vars := x, pcs := (pcs m)(t := q)\<rparr>)"
proof -
  have "owner m = Some t \<longleftrightarrow> crit (pcs m t)" using assms(1,2) by (simp add: protected_def)
  then show ?thesis
    using protected_move [OF assms(1,2) queue_awake [OF assms(1,3)] assms(4), of "owner m" Q x] assms(5,6)
    by (cases m) (auto split: if_splits)
qed

lemma protected_step: "step n code m m' \<Longrightarrow> protected n code crit m \<Longrightarrow> protected n code crit m'"
proof (induction rule: step.induct)
  case (lock t m q)
  then show ?case
    using discipline [of t "pcs m t"] protected_move [of m t q "Some t" "queue m" "vars m"] queue_awake [of m t]
    by (simp add: goto_def sleep_point_def)
next
  case (unlock t m q)
  then show ?case
    using discipline [of t "pcs m t"] protected_move [of m t q None "queue m" "vars m"] queue_awake [of m t]
    by (simp add: goto_def sleep_point_def)
next
  case (wait t m c q)
  then show ?case
    using discipline [of t "pcs m t"] queue_awake [of m t]
    by (auto simp: sleep_point_def protected_def split: instr.splits if_splits) metis
next
  case (resume t m c q)
  have "t \<notin> queue m d" for d using resume protected_queue [of m t d] by (cases "d = c") auto
  then show ?case
    using resume discipline [of t "pcs m t"] protected_move [of m t q "Some t" "queue m" "vars m"]
    by (simp add: goto_def)
next
  case (spurious t m c)
  then show ?case by (auto simp: protected_def split: if_splits)
next
  case (signal_none t m c q)
  then show ?case
    using discipline [of t "pcs m t"] protected_stay [of m t q "queue m" "vars m"] by (simp add: goto_def sleep_point_def)
next
  case (signal_one t m c q u)
  then show ?case
    using discipline [of t "pcs m t"] protected_stay [of m t q "queue (dequeue c u m)" "vars m"]
    by (auto simp: goto_def dequeue_def sleep_point_def)
next
  case (broadcast t m c q)
  then show ?case
    using discipline [of t "pcs m t"] protected_stay [of m t q "(queue m)(c := {})" "vars m"]
    by (auto simp: goto_def sleep_point_def)
next
  case (assign t m f q)
  then show ?case
    using discipline [of t "pcs m t"] protected_stay [of m t q "queue m" "f (vars m)"] by (simp add: goto_def sleep_point_def)
next
  case (test t m b q r)
  then show ?case
    using discipline [of t "pcs m t"] protected_stay [of m t "if b (vars m) then q else r" "queue m" "vars m"]
    by (cases "b (vars m)") (auto simp: goto_def sleep_point_def)
next
  case (choose t m qs q)
  then show ?case
    using discipline [of t "pcs m t"] protected_stay [of m t q "queue m" "vars m"]
    by (auto simp: goto_def sleep_point_def list_all_iff)
qed

lemma protected_reach: "reach n code m0 m \<Longrightarrow> protected n code crit m0 \<Longrightarrow> protected n code crit m"
  by (induction rule: reach.induct) (auto intro: protected_step)

lemma mutual_exclusion:
  "reach n code m0 m \<Longrightarrow> protected n code crit m0 \<Longrightarrow> t < n \<Longrightarrow> u < n \<Longrightarrow> crit (pcs m t) \<Longrightarrow> crit (pcs m u) \<Longrightarrow> t = u"
  by (rule protected_owner [OF protected_reach])

lemma reach_invariant:
  assumes "reach n code m0 m" "protected n code crit m0" "I m0"
    and "\<And>m m'. step n code m m' \<Longrightarrow> protected n code crit m \<Longrightarrow> I m \<Longrightarrow> I m'"
  shows "I m"
  using assms(1) by (induction rule: reach.induct) (auto intro: assms protected_reach)

end

end
