(* ===== verification/Pth_Zemaphore.thy ===== *)
theory Pth_Zemaphore
  imports Pth_Monitor
begin

text \<open>
  The semaphore of \<^verbatim>\<open>zemaphore.c\<close>, used by any number of threads that call
  \<^verbatim>\<open>zem_down\<close> and \<^verbatim>\<open>zem_up\<close> in any order.  It implements the
  abstract counting semaphore, and a thread sleeps in it only while no permit is left.
\<close>

record zem = "value" :: int

datatype zem_cond = Condition

text \<open>The points of the two functions, named after the statement that is next.\<close>

datatype zem_pc = Outside
  | Down_lock | Down_while | Down_wait | Down_waiting | Down_dec | Down_unlock
  | Up_lock | Up_inc | Up_signal | Up_unlock

definition zem_init :: "int \<Rightarrow> zem" where
  "zem_init v = \<lparr>value = v\<rparr>"

primrec zem_code :: "zem_pc \<Rightarrow> (zem_cond, zem, zem_pc) instr" where
  "zem_code Outside = Choose [Down_lock, Up_lock]"
| "zem_code Down_lock = Lock Down_while"
| "zem_code Down_while = Test (\<lambda>s. value s \<le> 0) Down_wait Down_dec"
| "zem_code Down_wait = Wait Condition Down_waiting"
| "zem_code Down_waiting = Waiting Condition Down_while"
| "zem_code Down_dec = Set (\<lambda>s. s\<lparr>value := value s - 1\<rparr>) Down_unlock"
| "zem_code Down_unlock = Unlock Outside"
| "zem_code Up_lock = Lock Up_inc"
| "zem_code Up_inc = Set (\<lambda>s. s\<lparr>value := value s + 1\<rparr>) Up_signal"
| "zem_code Up_signal = Signal Condition Up_unlock"
| "zem_code Up_unlock = Unlock Outside"

definition zem_start :: "int \<Rightarrow> (zem_cond, zem, zem_pc) conf" where
  "zem_start v = \<lparr>owner = None, queue = (\<lambda>_. {}), vars = zem_init v, pcs = (\<lambda>_. Outside)\<rparr>"

section \<open>The discipline\<close>

primrec zem_crit :: "zem_pc \<Rightarrow> bool" where
  "zem_crit Outside = False" | "zem_crit Down_lock = False" | "zem_crit Down_while = True" | "zem_crit Down_wait = True"
| "zem_crit Down_waiting = False" | "zem_crit Down_dec = True" | "zem_crit Down_unlock = True" | "zem_crit Up_lock = False"
| "zem_crit Up_inc = True" | "zem_crit Up_signal = True" | "zem_crit Up_unlock = True"

interpretation zem: monitor n "\<lambda>_. zem_code" zem_crit for n
proof
  fix t p
  show "disciplined (\<lambda>_. zem_code) zem_crit t p" by (cases p) (simp_all add: sleep_point_def)
qed

lemma zem_start_protected: "protected n (\<lambda>_. zem_code) zem_crit (zem_start v)"
  by (simp add: protected_def zem_start_def)

section \<open>The abstract semaphore\<close>

datatype phase = Idle | Asking | Granted | Giving | Given

inductive sem_step :: "nat \<Rightarrow> int \<times> (tid \<Rightarrow> phase) \<Rightarrow> int \<times> (tid \<Rightarrow> phase) \<Rightarrow> bool" for n where
  ask: "t < n \<Longrightarrow> ph t = Idle \<Longrightarrow> sem_step n (v, ph) (v, ph(t := Asking))"
| take: "t < n \<Longrightarrow> ph t = Asking \<Longrightarrow> 0 < v \<Longrightarrow> sem_step n (v, ph) (v - 1, ph(t := Granted))"
| give: "t < n \<Longrightarrow> ph t = Idle \<Longrightarrow> sem_step n (v, ph) (v, ph(t := Giving))"
| add: "t < n \<Longrightarrow> ph t = Giving \<Longrightarrow> sem_step n (v, ph) (v + 1, ph(t := Given))"
| leave: "t < n \<Longrightarrow> ph t = Granted \<or> ph t = Given \<Longrightarrow> sem_step n (v, ph) (v, ph(t := Idle))"

primrec zem_phase :: "zem_pc \<Rightarrow> phase" where
  "zem_phase Outside = Idle" | "zem_phase Down_lock = Asking" | "zem_phase Down_while = Asking" | "zem_phase Down_wait = Asking"
| "zem_phase Down_waiting = Asking" | "zem_phase Down_dec = Asking" | "zem_phase Down_unlock = Granted" | "zem_phase Up_lock = Giving"
| "zem_phase Up_inc = Giving" | "zem_phase Up_signal = Given" | "zem_phase Up_unlock = Given"

definition zem_abs :: "(zem_cond, zem, zem_pc) conf \<Rightarrow> int \<times> (tid \<Rightarrow> phase)" where
  "zem_abs m = (value (vars m), \<lambda>t. zem_phase (pcs m t))"

definition zem_inv :: "nat \<Rightarrow> (zem_cond, zem, zem_pc) conf \<Rightarrow> bool" where
  "zem_inv n m \<longleftrightarrow> 0 \<le> value (vars m) \<and> (\<forall>t < n. pcs m t = Down_dec \<longrightarrow> 0 < value (vars m))"

lemma zem_inv_step: 
  assumes "step n (\<lambda>_. zem_code) m m'" "protected n (\<lambda>_. zem_code) zem_crit m" "zem_inv n m"
  shows "zem_inv n m'"
  using assms(1)
proof (cases rule: step_cases_act)
  case (act t)
  then show ?thesis using assms(3) zem.protected_other [OF assms(2) act(1), where p = Down_dec]
    by (cases "pcs m t") (auto simp: zem_inv_def split: if_splits)
qed (use assms(3) in \<open>simp add: zem_inv_def\<close>)

lemma zem_inv_reach: "reach n (\<lambda>_. zem_code) (zem_start v) m \<Longrightarrow> 0 \<le> v \<Longrightarrow> zem_inv n m"
  by (erule zem.reach_invariant [OF _ zem_start_protected])
     (simp add: zem_inv_def zem_start_def zem_init_def, rule zem_inv_step)

lemma zem_abs_goto: "zem_abs (goto t q m) = (value (vars m), (\<lambda>u. zem_phase (pcs m u))(t := zem_phase q))"
  by (auto simp: zem_abs_def)



section \<open>No lost wakeup\<close>

text \<open>The threads that will look at the count or pass a signal on.\<close>

definition zem_active :: "(zem_cond, zem, zem_pc) conf \<Rightarrow> tid \<Rightarrow> bool" where
  "zem_active m t \<longleftrightarrow> pcs m t = Up_signal \<or> pcs m t = Down_while \<or> pcs m t = Down_dec
     \<or> pcs m t = Down_waiting \<and> t \<notin> queue m Condition"

definition zem_served :: "nat \<Rightarrow> (zem_cond, zem, zem_pc) conf \<Rightarrow> bool" where
  "zem_served n m \<longleftrightarrow> (queue m Condition \<noteq> {} \<longrightarrow> value (vars m) \<le> cnt n (\<lambda>b. b) (zem_active m))
     \<and> (\<forall>t < n. pcs m t = Down_wait \<longrightarrow> value (vars m) \<le> 0)"

lemma zem_active_upd:
  "zem_active (goto t q m) = (zem_active m)(t := q = Up_signal \<or> q = Down_while \<or> q = Down_dec \<or> q = Down_waiting \<and> t \<notin> queue m Condition)"
  "u \<in> queue m Condition \<Longrightarrow> pcs m u = Down_waiting \<Longrightarrow> zem_active (dequeue Condition u m) = (zem_active m)(u := True)"
  "pcs m t \<noteq> Down_waiting \<Longrightarrow> zem_active (enqueue Condition t m) = zem_active m"
  "zem_active (m\<lparr>owner := o'\<rparr>) = zem_active m" "zem_active (m\<lparr>vars := x\<rparr>) = zem_active m"
  by (auto simp: zem_active_def fun_eq_iff)

lemma zem_asleep:
  assumes "protected n (\<lambda>_. zem_code) zem_crit m" "u \<in> queue m c"
  shows "u < n" "pcs m u = Down_waiting" "c = Condition"
  using zem.protected_queue [OF assms] by (cases "pcs m u"; cases c; simp)+

lemma zem_wake_count:
  assumes "protected n (\<lambda>_. zem_code) zem_crit m" "u \<in> queue m Condition"
  shows "cnt n (\<lambda>b. b) (zem_active (dequeue Condition u m)) = cnt n (\<lambda>b. b) (zem_active m) + 1"
  using zem_asleep [OF assms] assms(2) cnt_upd [of u n "\<lambda>b. b" "zem_active m" True]
  by (simp add: zem_active_upd) (simp add: zem_active_def)

lemma zem_served_step: 
  assumes "step n (\<lambda>_. zem_code) m m'" "protected n (\<lambda>_. zem_code) zem_crit m" "zem_served n m"
  shows "zem_served n m'"
  using assms(1)
proof (cases rule: step_cases_act)
  case (act t)
  have up: "cnt n (\<lambda>b. b) (f(t := b)) = cnt n (\<lambda>b. b) f - of_bool (f t) + of_bool b" for b and f :: "tid \<Rightarrow> bool"
    using act(1) by (rule cnt_upd)
  have "zem_active (dequeue Condition u m) t = zem_active m t" if "u \<in> queue m Condition" "pcs m t = Up_signal" for u
    using that zem_asleep(2) [OF assms(2) that(1)] by (auto simp: zem_active_def)
  then show ?thesis
    using act assms(3) zem.protected_other [OF assms(2) act(1), where p = Down_wait] up zem_active_def [of m t]
      zem_wake_count [OF assms(2)] cnt_ge [OF act(1), of "\<lambda>b. b" "zem_active m"] order_trans [OF _ cnt_nonneg, of "value (vars m)" n "\<lambda>b. b" "zem_active m"]
    by (cases "pcs m t") (auto simp: zem_served_def zem_active_upd split: if_splits)
next
  case (spurious t c)
  then show ?thesis using assms(3) zem_asleep(3) [OF assms(2) spurious(2)] zem_wake_count [OF assms(2), of t]
    by (auto simp: zem_served_def)
qed

lemma zem_served_reach: "reach n (\<lambda>_. zem_code) (zem_start v) m \<Longrightarrow> zem_served n m"
  by (erule zem.reach_invariant [OF _ zem_start_protected])
     (simp add: zem_served_def zem_start_def, rule zem_served_step)

text \<open>
  C20. No wakeup is lost: in every reachable state in which each thread is outside the
  operations or asleep in \<^verbatim>\<open>zem_down\<close>, a thread that sleeps sleeps because no
  permit is left.
\<close>

theorem zem_sleeps_only_without_permit:
  assumes "reach n (\<lambda>_. zem_code) (zem_start v) m" "0 \<le> v"
    and "\<And>t. t < n \<Longrightarrow> pcs m t = Outside \<or> t \<in> queue m Condition" "u \<in> queue m Condition"
  shows "value (vars m) = 0"
proof -
  have p: "protected n (\<lambda>_. zem_code) zem_crit m" by (rule zem.protected_reach [OF assms(1) zem_start_protected])
  have "\<not> zem_active m t" if "t < n" for t
    using assms(3) [OF that] zem_asleep(2) [OF p, of t Condition] by (auto simp: zem_active_def)
  then have "cnt n (\<lambda>b. b) (zem_active m) = 0" by (simp add: cnt_zero)
  then show ?thesis
    using zem_served_reach [OF assms(1)] zem_inv_reach [OF assms(1,2)] assms(4) by (auto simp: zem_served_def zem_inv_def)
qed

theorem zem_sleeps_only_without_permit_witness:
  "\<exists>m. fires 1 (\<lambda>_. zem_code) [Pick 0 0, Run 0, Run 0, Run 0] (zem_start 0) = Some m
    \<and> 0 \<in> queue m Condition \<and> value (vars m) = 0"
proof -
  obtain m where m: "fires 1 (\<lambda>_. zem_code) [Pick 0 0, Run 0, Run 0, Run 0] (zem_start 0) = Some m" "0 \<in> queue m Condition"
    by (simp add: zem_start_def zem_init_def)
  have "value (vars m) = 0"
    by (rule zem_sleeps_only_without_permit [OF fires_reach [OF m(1) reach.start] _ _ m(2)]) (use m(2) in auto)
  then show ?thesis using m by blast
qed

end
