(* ===== verification/Pth_Rwlock.thy ===== *)
theory Pth_Rwlock
  imports Pth_Monitor
begin

text \<open>
  The readers-writer locks of \<^verbatim>\<open>rwlock-writer-pref.cpp\<close> and
  \<^verbatim>\<open>rwlock-reader-pref.cpp\<close>, used by any number of threads that read and write in
  any order.  Both exclude writers from everyone else, and neither leaves a thread asleep when
  nobody holds the lock.
\<close>

record read_write_lock =
  readers :: int
  writers :: int
  waiting_readers :: int
  waiting_writers :: int

datatype rw_cond = Read | Write

text \<open>The points of the four functions, named after the statement that is next.\<close>

datatype rw_pc = Idle
  | RL_lock | RL_while | RL_count | RL_wait | RL_waiting | RL_uncount | RL_inc | RL_unlock | Reading
  | RU_lock | RU_dec | RU_if | RU_signal | RU_else | RU_broadcast | RU_unlock
  | WL_lock | WL_while | WL_count | WL_wait | WL_waiting | WL_uncount | WL_inc | WL_unlock | Writing
  | WU_lock | WU_dec | WU_if | WU_signal | WU_else | WU_broadcast | WU_unlock

text \<open>Initialisation touches the mutex and the condition variables only, not the counters.\<close>

definition InitalizeReadWriteLock :: "read_write_lock \<Rightarrow> (rw_cond, read_write_lock, rw_pc) conf" where
  "InitalizeReadWriteLock rw = \<lparr>owner = None, queue = (\<lambda>_. {}), vars = rw, pcs = (\<lambda>_. Idle)\<rparr>"

primrec writer_pref :: "rw_pc \<Rightarrow> (rw_cond, read_write_lock, rw_pc) instr" where
  "writer_pref Idle = Choose [RL_lock, WL_lock]"
| "writer_pref RL_lock = Lock RL_while"
| "writer_pref RL_while = Test (\<lambda>rw. writers rw > 0 \<or> waiting_writers rw > 0) RL_count RL_inc"
| "writer_pref RL_count = Set (\<lambda>rw. rw\<lparr>waiting_readers := waiting_readers rw + 1\<rparr>) RL_wait"
| "writer_pref RL_wait = Wait Read RL_waiting"
| "writer_pref RL_waiting = Waiting Read RL_uncount"
| "writer_pref RL_uncount = Set (\<lambda>rw. rw\<lparr>waiting_readers := waiting_readers rw - 1\<rparr>) RL_while"
| "writer_pref RL_inc = Set (\<lambda>rw. rw\<lparr>readers := readers rw + 1\<rparr>) RL_unlock"
| "writer_pref RL_unlock = Unlock Reading"
| "writer_pref Reading = Choose [RU_lock]"
| "writer_pref RU_lock = Lock RU_dec"
| "writer_pref RU_dec = Set (\<lambda>rw. rw\<lparr>readers := readers rw - 1\<rparr>) RU_if"
| "writer_pref RU_if = Test (\<lambda>rw. readers rw = 0 \<and> waiting_writers rw > 0) RU_signal RU_else"
| "writer_pref RU_signal = Signal Write RU_unlock"
| "writer_pref RU_else = Test (\<lambda>rw. waiting_readers rw > 0) RU_broadcast RU_unlock"
| "writer_pref RU_broadcast = Broadcast Read RU_unlock"
| "writer_pref RU_unlock = Unlock Idle"
| "writer_pref WL_lock = Lock WL_while"
| "writer_pref WL_while = Test (\<lambda>rw. readers rw > 0 \<or> writers rw > 0) WL_count WL_inc"
| "writer_pref WL_count = Set (\<lambda>rw. rw\<lparr>waiting_writers := waiting_writers rw + 1\<rparr>) WL_wait"
| "writer_pref WL_wait = Wait Write WL_waiting"
| "writer_pref WL_waiting = Waiting Write WL_uncount"
| "writer_pref WL_uncount = Set (\<lambda>rw. rw\<lparr>waiting_writers := waiting_writers rw - 1\<rparr>) WL_while"
| "writer_pref WL_inc = Set (\<lambda>rw. rw\<lparr>writers := writers rw + 1\<rparr>) WL_unlock"
| "writer_pref WL_unlock = Unlock Writing"
| "writer_pref Writing = Choose [WU_lock]"
| "writer_pref WU_lock = Lock WU_dec"
| "writer_pref WU_dec = Set (\<lambda>rw. rw\<lparr>writers := writers rw - 1\<rparr>) WU_if"
| "writer_pref WU_if = Test (\<lambda>rw. waiting_writers rw > 0) WU_signal WU_else"
| "writer_pref WU_signal = Signal Write WU_unlock"
| "writer_pref WU_else = Test (\<lambda>rw. waiting_readers rw > 0) WU_broadcast WU_unlock"
| "writer_pref WU_broadcast = Broadcast Read WU_unlock"
| "writer_pref WU_unlock = Unlock Idle"

primrec reader_pref :: "rw_pc \<Rightarrow> (rw_cond, read_write_lock, rw_pc) instr" where
  "reader_pref Idle = Choose [RL_lock, WL_lock]"
| "reader_pref RL_lock = Lock RL_while"
| "reader_pref RL_while = Test (\<lambda>rw. writers rw > 0) RL_count RL_inc"
| "reader_pref RL_count = Set (\<lambda>rw. rw\<lparr>waiting_readers := waiting_readers rw + 1\<rparr>) RL_wait"
| "reader_pref RL_wait = Wait Read RL_waiting"
| "reader_pref RL_waiting = Waiting Read RL_uncount"
| "reader_pref RL_uncount = Set (\<lambda>rw. rw\<lparr>waiting_readers := waiting_readers rw - 1\<rparr>) RL_while"
| "reader_pref RL_inc = Set (\<lambda>rw. rw\<lparr>readers := readers rw + 1\<rparr>) RL_unlock"
| "reader_pref RL_unlock = Unlock Reading"
| "reader_pref Reading = Choose [RU_lock]"
| "reader_pref RU_lock = Lock RU_dec"
| "reader_pref RU_dec = Set (\<lambda>rw. rw\<lparr>readers := readers rw - 1\<rparr>) RU_if"
| "reader_pref RU_if = Test (\<lambda>rw. readers rw = 0) RU_signal RU_unlock"
| "reader_pref RU_signal = Signal Write RU_unlock"
| "reader_pref RU_else = Test (\<lambda>rw. waiting_readers rw > 0) RU_broadcast RU_unlock"
| "reader_pref RU_broadcast = Broadcast Read RU_unlock"
| "reader_pref RU_unlock = Unlock Idle"
| "reader_pref WL_lock = Lock WL_while"
| "reader_pref WL_while = Test (\<lambda>rw. readers rw > 0 \<or> writers rw > 0) WL_count WL_inc"
| "reader_pref WL_count = Set (\<lambda>rw. rw\<lparr>waiting_writers := waiting_writers rw + 1\<rparr>) WL_wait"
| "reader_pref WL_wait = Wait Write WL_waiting"
| "reader_pref WL_waiting = Waiting Write WL_uncount"
| "reader_pref WL_uncount = Set (\<lambda>rw. rw\<lparr>waiting_writers := waiting_writers rw - 1\<rparr>) WL_while"
| "reader_pref WL_inc = Set (\<lambda>rw. rw\<lparr>writers := writers rw + 1\<rparr>) WL_unlock"
| "reader_pref WL_unlock = Unlock Writing"
| "reader_pref Writing = Choose [WU_lock]"
| "reader_pref WU_lock = Lock WU_dec"
| "reader_pref WU_dec = Set (\<lambda>rw. rw\<lparr>writers := writers rw - 1\<rparr>) WU_if"
| "reader_pref WU_if = Test (\<lambda>rw. waiting_readers rw > 0) WU_broadcast WU_else"
| "reader_pref WU_signal = Signal Write WU_unlock"
| "reader_pref WU_else = Test (\<lambda>rw. waiting_writers rw > 0) WU_signal WU_unlock"
| "reader_pref WU_broadcast = Broadcast Read WU_unlock"
| "reader_pref WU_unlock = Unlock Idle"

definition rw_zero :: read_write_lock where
  "rw_zero = \<lparr>readers = 0, writers = 0, waiting_readers = 0, waiting_writers = 0\<rparr>"

section \<open>The discipline\<close>

primrec rw_crit :: "rw_pc \<Rightarrow> bool" where
  "rw_crit Idle = False"
| "rw_crit RL_lock = False" | "rw_crit RL_while = True" | "rw_crit RL_count = True" | "rw_crit RL_wait = True"
| "rw_crit RL_waiting = False" | "rw_crit RL_uncount = True" | "rw_crit RL_inc = True" | "rw_crit RL_unlock = True"
| "rw_crit Reading = False" | "rw_crit RU_lock = False" | "rw_crit RU_dec = True" | "rw_crit RU_if = True"
| "rw_crit RU_signal = True" | "rw_crit RU_else = True" | "rw_crit RU_broadcast = True" | "rw_crit RU_unlock = True"
| "rw_crit WL_lock = False" | "rw_crit WL_while = True" | "rw_crit WL_count = True" | "rw_crit WL_wait = True"
| "rw_crit WL_waiting = False" | "rw_crit WL_uncount = True" | "rw_crit WL_inc = True" | "rw_crit WL_unlock = True"
| "rw_crit Writing = False" | "rw_crit WU_lock = False" | "rw_crit WU_dec = True" | "rw_crit WU_if = True"
| "rw_crit WU_signal = True" | "rw_crit WU_else = True" | "rw_crit WU_broadcast = True" | "rw_crit WU_unlock = True"

interpretation wpref: monitor n "\<lambda>_. writer_pref" rw_crit for n
proof
  fix t p
  show "disciplined (\<lambda>_. writer_pref) rw_crit t p" by (cases p) (simp_all add: sleep_point_def)
qed

interpretation rpref: monitor n "\<lambda>_. reader_pref" rw_crit for n
proof
  fix t p
  show "disciplined (\<lambda>_. reader_pref) rw_crit t p" by (cases p) (simp_all add: sleep_point_def)
qed

lemma rw_start_protected: "protected n (\<lambda>_. code) rw_crit (InitalizeReadWriteLock rw)"
  by (simp add: protected_def InitalizeReadWriteLock_def)

section \<open>The counters count\<close>

definition holds_read :: "rw_pc \<Rightarrow> bool" where "holds_read p \<longleftrightarrow> p \<in> {RL_unlock, Reading, RU_lock, RU_dec}"
definition holds_write :: "rw_pc \<Rightarrow> bool" where "holds_write p \<longleftrightarrow> p \<in> {WL_unlock, Writing, WU_lock, WU_dec}"
definition waits_read :: "rw_pc \<Rightarrow> bool" where "waits_read p \<longleftrightarrow> p \<in> {RL_wait, RL_waiting, RL_uncount}"
definition waits_write :: "rw_pc \<Rightarrow> bool" where "waits_write p \<longleftrightarrow> p \<in> {WL_wait, WL_waiting, WL_uncount}"

lemmas rw_roles = holds_read_def holds_write_def waits_read_def waits_write_def

definition rw_counts :: "nat \<Rightarrow> (rw_cond, read_write_lock, rw_pc) conf \<Rightarrow> bool" where
  "rw_counts n m \<longleftrightarrow> readers (vars m) = cnt n holds_read (pcs m) \<and> writers (vars m) = cnt n holds_write (pcs m)
     \<and> waiting_readers (vars m) = cnt n waits_read (pcs m) \<and> waiting_writers (vars m) = cnt n waits_write (pcs m)"

definition rw_excl :: "(rw_cond, read_write_lock, rw_pc) conf \<Rightarrow> bool" where
  "rw_excl m \<longleftrightarrow> (\<forall>t. owner m = Some t \<longrightarrow> (pcs m t = RL_inc \<longrightarrow> writers (vars m) = 0)
       \<and> (pcs m t = WL_inc \<longrightarrow> readers (vars m) = 0 \<and> writers (vars m) = 0))
     \<and> writers (vars m) \<le> 1 \<and> (writers (vars m) = 0 \<or> readers (vars m) = 0)"

text \<open>What the two programs share, whichever of them runs.\<close>

definition rw_program :: "(rw_pc \<Rightarrow> (rw_cond, read_write_lock, rw_pc) instr) \<Rightarrow> bool" where
  "rw_program code \<longleftrightarrow> code = writer_pref \<or> code = reader_pref"

lemma rw_step_cases:
  assumes "step n (\<lambda>_. code) m m'" "rw_program code"
  obtains (common) t where "t < n" "act (writer_pref (pcs m t)) t m m'"
      "code = writer_pref \<or> pcs m t \<notin> {RL_while, RU_if, WU_if, WU_else}"
    | (special) t where "t < n" "pcs m t \<in> {RL_while, RU_if, WU_if, WU_else}" "act (reader_pref (pcs m t)) t m m'" "code = reader_pref"
    | (spurious) t c where "t < n" "t \<in> queue m c" "m' = dequeue c t m"
proof -
  have "reader_pref p = writer_pref p \<or> p \<in> {RL_while, RU_if, WU_if, WU_else}" for p by (cases p) simp_all
  then have "act (code p) t m m' \<Longrightarrow> act (writer_pref p) t m m' \<and> (code = writer_pref \<or> p \<notin> {RL_while, RU_if, WU_if, WU_else})
      \<or> p \<in> {RL_while, RU_if, WU_if, WU_else} \<and> act (reader_pref p) t m m' \<and> code = reader_pref" for p t
    using assms(2) by (metis rw_program_def)
  then show ?thesis using assms(1) common special spurious by (metis step_cases_act)
qed

lemma rw_counts_step:
  assumes "step n (\<lambda>_. code) m m'" "rw_program code" "rw_counts n m"
  shows "rw_counts n m'"
  using assms(1,2)
proof (cases rule: rw_step_cases)
  case (common t)
  then show ?thesis using assms(3) by (cases "pcs m t") (auto simp: rw_counts_def cnt_upd rw_roles)
next
  case (special t)
  then show ?thesis using assms(3) by (auto simp: rw_counts_def cnt_upd rw_roles)
qed (use assms(3) in \<open>simp add: rw_counts_def\<close>)

lemma rw_nonneg:
  "rw_counts n m \<Longrightarrow> 0 \<le> readers (vars m) \<and> 0 \<le> writers (vars m) \<and> 0 \<le> waiting_readers (vars m) \<and> 0 \<le> waiting_writers (vars m)"
  by (simp add: rw_counts_def)

lemma rw_held:
  assumes "rw_counts n m" "t < n"
  shows "pcs m t = RU_dec \<Longrightarrow> 1 \<le> readers (vars m)" "pcs m t = WU_dec \<Longrightarrow> 1 \<le> writers (vars m)"
  using cnt_ge [OF assms(2), of holds_read "pcs m"] cnt_ge [OF assms(2), of holds_write "pcs m"] assms(1)
  by (simp_all add: rw_counts_def rw_roles)

lemma rw_excl_step:
  assumes "step n (\<lambda>_. code) m m'" "rw_program code" "rw_counts n m" "protected n (\<lambda>_. code) rw_crit m" "rw_excl m"
  shows "rw_excl m'"
proof -
  have o: "owner m = Some t \<longleftrightarrow> rw_crit (pcs m t)" if "t < n" for t using assms(4) that by (simp add: protected_def)
  show ?thesis using assms(1,2)
  proof (cases rule: rw_step_cases)
    case (common t)
    then show ?thesis using o [OF common(1)] assms(5) rw_nonneg [OF assms(3)] rw_held [OF assms(3) common(1)]
      by (cases "pcs m t") (auto simp: rw_excl_def split: if_splits)
  next
    case (special t)
    then show ?thesis using o [OF special(1)] assms(5) rw_nonneg [OF assms(3)]
      by (auto simp: rw_excl_def split: if_splits)
  qed (use assms(5) in \<open>simp add: rw_excl_def\<close>)
qed

lemma rw_reach_invariant:
  assumes "reach n (\<lambda>_. code) (InitalizeReadWriteLock rw_zero) m" "rw_program code" "I (InitalizeReadWriteLock rw_zero)"
    and "\<And>m m'. step n (\<lambda>_. code) m m' \<Longrightarrow> protected n (\<lambda>_. code) rw_crit m \<Longrightarrow> I m \<Longrightarrow> I m'"
  shows "protected n (\<lambda>_. code) rw_crit m \<and> I m"
  using assms wpref.reach_invariant [OF _ rw_start_protected, of n rw_zero m I] wpref.protected_reach [OF _ rw_start_protected, of n rw_zero m]
    rpref.reach_invariant [OF _ rw_start_protected, of n rw_zero m I] rpref.protected_reach [OF _ rw_start_protected, of n rw_zero m]
  unfolding rw_program_def by blast

lemma rw_reach:
  assumes "reach n (\<lambda>_. code) (InitalizeReadWriteLock rw_zero) m" "rw_program code"
  shows "protected n (\<lambda>_. code) rw_crit m \<and> rw_counts n m \<and> rw_excl m"
proof (rule rw_reach_invariant [OF assms])
  show "rw_counts n (InitalizeReadWriteLock rw_zero) \<and> rw_excl (InitalizeReadWriteLock rw_zero)"
    by (simp add: rw_counts_def rw_excl_def InitalizeReadWriteLock_def rw_zero_def cnt_def rw_roles)
next
  fix m m' assume "step n (\<lambda>_. code) m m'" "protected n (\<lambda>_. code) rw_crit m" "rw_counts n m \<and> rw_excl m"
  then show "rw_counts n m' \<and> rw_excl m'"
    using rw_counts_step rw_excl_step assms(2) by metis
qed

text \<open>
  C21. Both readers-writer locks, started with zero counters, exclude writers: in every
  interleaving of any number of threads, while a thread writes no other thread reads or
  writes, and the counters of the lock are the numbers of threads that hold it for reading
  and for writing.
\<close>

theorem rwlock_excludes_writers:
  assumes "reach n (\<lambda>_. code) (InitalizeReadWriteLock rw_zero) m" "rw_program code"
  shows "(\<forall>t < n. \<forall>u < n. pcs m t = Writing \<longrightarrow> u \<noteq> t \<longrightarrow> pcs m u \<noteq> Reading \<and> pcs m u \<noteq> Writing)
    \<and> readers (vars m) = cnt n holds_read (pcs m) \<and> writers (vars m) = cnt n holds_write (pcs m)"
proof -
  have c: "rw_counts n m" and x: "rw_excl m" using rw_reach [OF assms] by auto
  have "pcs m u \<noteq> Reading \<and> pcs m u \<noteq> Writing" if "t < n" "u < n" "pcs m t = Writing" "u \<noteq> t" for t u
  proof -
    have "1 \<le> writers (vars m)" using cnt_ge [of t n holds_write "pcs m"] that c by (simp add: rw_counts_def rw_roles)
    then have one: "cnt n holds_write (pcs m) = 1" "cnt n holds_read (pcs m) = 0"
      using x c by (simp_all add: rw_excl_def rw_counts_def)
    have "pcs m u \<noteq> Writing"
    proof
      assume "pcs m u = Writing"
      then have "2 \<le> cnt n holds_write (pcs m)" using that by (intro cnt_two [of t n u _ _ Idle]) (simp_all add: rw_roles)
      then show False using one by simp
    qed
    moreover have "pcs m u \<noteq> Reading" using one(2) that(2) by (auto simp: cnt_zero rw_roles)
    ultimately show ?thesis by simp
  qed
  then show ?thesis using c unfolding rw_counts_def by blast
qed

theorem rwlock_excludes_writers_witness:
  "\<exists>m. fires 2 (\<lambda>_. writer_pref) (Pick 0 1 # replicate 4 (Run 0)) (InitalizeReadWriteLock rw_zero) = Some m
    \<and> pcs m 0 = Writing \<and> pcs m 1 \<noteq> Reading \<and> pcs m 1 \<noteq> Writing \<and> cnt 2 holds_read (pcs m) = 0"
proof -
  obtain m where m: "fires 2 (\<lambda>_. writer_pref) (Pick 0 1 # replicate 4 (Run 0)) (InitalizeReadWriteLock rw_zero) = Some m"
    "pcs m 0 = Writing" "readers (vars m) = 0"
    by (simp add: numeral_eq_Suc InitalizeReadWriteLock_def rw_zero_def)
  have x: "(\<forall>t < 2. \<forall>u < 2. pcs m t = Writing \<longrightarrow> u \<noteq> t \<longrightarrow> pcs m u \<noteq> Reading \<and> pcs m u \<noteq> Writing)
    \<and> readers (vars m) = cnt 2 holds_read (pcs m) \<and> writers (vars m) = cnt 2 holds_write (pcs m)"
    by (rule rwlock_excludes_writers [OF fires_reach [OF m(1) reach.start]]) (simp add: rw_program_def)
  have "pcs m 1 \<noteq> Reading \<and> pcs m 1 \<noteq> Writing"
    using x [THEN conjunct1, rule_format, of 0 1] m(2) by simp
  then show ?thesis using m x by simp
qed

section \<open>No lost wakeup\<close>

text \<open>What the thread in the critical section has found out and still relies on.\<close>

definition rw_guard :: "(rw_pc \<Rightarrow> (rw_cond, read_write_lock, rw_pc) instr) \<Rightarrow> (rw_cond, read_write_lock, rw_pc) conf \<Rightarrow> bool" where
  "rw_guard code m \<longleftrightarrow> (\<forall>t. owner m = Some t \<longrightarrow>
       (pcs m t \<in> {WL_count, WL_wait} \<longrightarrow> readers (vars m) > 0 \<or> writers (vars m) > 0)
     \<and> (pcs m t \<in> {RL_count, RL_wait} \<longrightarrow> writers (vars m) > 0 \<or> code = writer_pref \<and> waiting_writers (vars m) > 0)
     \<and> (pcs m t = WU_signal \<longrightarrow> waiting_writers (vars m) > 0)
     \<and> (pcs m t = WU_broadcast \<longrightarrow> waiting_readers (vars m) > 0))"

lemma rw_guard_step:
  assumes "step n (\<lambda>_. code) m m'" "rw_program code" "protected n (\<lambda>_. code) rw_crit m" "rw_guard code m"
  shows "rw_guard code m'"
proof -
  have o: "owner m = Some t \<longleftrightarrow> rw_crit (pcs m t)" if "t < n" for t using assms(3) that by (simp add: protected_def)
  show ?thesis using assms(1,2)
  proof (cases rule: rw_step_cases)
    case (common t)
    then show ?thesis using o [OF common(1)] assms(4) by (cases "pcs m t") (auto simp: rw_guard_def split: if_splits)
  next
    case (special t)
    then show ?thesis using o [OF special(1)] assms(4) by (auto simp: rw_guard_def split: if_splits)
  qed (use assms(4) in \<open>simp add: rw_guard_def\<close>)
qed

text \<open>
  A sleeping thread is owed a wakeup: some thread is at a point from which it will pass one
  on.  The second argument tells whether the thread itself is asleep.
\<close>

definition asleep :: "('c, 's, 'p) conf \<Rightarrow> tid \<Rightarrow> bool" where
  "asleep m t \<longleftrightarrow> (\<exists>c. t \<in> queue m c)"

definition owed :: "nat \<Rightarrow> (rw_pc \<Rightarrow> bool \<Rightarrow> bool) \<Rightarrow> rw_cond \<Rightarrow> (rw_cond, read_write_lock, rw_pc) conf \<Rightarrow> bool" where
  "owed n L c m \<longleftrightarrow> (queue m c \<noteq> {} \<longrightarrow> (\<exists>t < n. L (pcs m t) (asleep m t)))"

definition wakes_writer_w :: "rw_pc \<Rightarrow> bool \<Rightarrow> bool" where
  "wakes_writer_w p b \<longleftrightarrow> p \<in> {RL_inc, RL_unlock, Reading, RU_lock, RU_dec, RU_if, RU_signal, WL_uncount, WL_while, WL_inc,
     WL_unlock, Writing, WU_lock, WU_dec, WU_if, WU_signal} \<or> p = WL_waiting \<and> \<not> b"

definition wakes_reader_w :: "rw_pc \<Rightarrow> bool \<Rightarrow> bool" where
  "wakes_reader_w p b \<longleftrightarrow> p \<in> {WL_while, WL_count, WL_wait, WL_waiting, WL_uncount, WL_inc, WL_unlock, Writing, WU_lock,
     WU_dec, WU_if, WU_signal, WU_else, WU_broadcast}"

definition wakes_writer_r :: "rw_pc \<Rightarrow> bool \<Rightarrow> bool" where
  "wakes_writer_r p b \<longleftrightarrow> wakes_writer_w p b \<or> p \<in> {RL_uncount, RL_while, WU_else, WU_broadcast} \<or> p = RL_waiting \<and> \<not> b"

definition wakes_reader_r :: "rw_pc \<Rightarrow> bool \<Rightarrow> bool" where
  "wakes_reader_r p b \<longleftrightarrow> p \<in> {WL_unlock, Writing, WU_lock, WU_dec, WU_if, WU_broadcast}"

lemma owed_move:
  assumes "act i t m m'" "t < n" "\<And>p. L p True \<Longrightarrow> L p False"
    and "owed n L c m"
    and "queue m' c \<noteq> {} \<Longrightarrow> (\<And>u. u < n \<Longrightarrow> u \<noteq> t \<Longrightarrow> \<not> L (pcs m u) (asleep m u)) \<Longrightarrow> queue m c = {} \<or> L (pcs m t) (asleep m t)
      \<Longrightarrow> \<exists>u < n. L (pcs m' u) (asleep m' u)"
  shows "owed n L c m'"
proof (cases "\<exists>u < n. u \<noteq> t \<and> L (pcs m u) (asleep m u)")
  case True
  then obtain u where u: "u < n" "u \<noteq> t" "L (pcs m u) (asleep m u)" by blast
  have "pcs m' u = pcs m u" "asleep m' u \<longrightarrow> asleep m u" using act_other [OF assms(1) u(2)] by (auto simp: asleep_def)
  then have "L (pcs m' u) (asleep m' u)" using u(3) assms(3) by (cases "asleep m' u"; cases "asleep m u") auto
  then show ?thesis using u(1) by (auto simp: owed_def)
next
  case False
  then have "queue m c = {} \<or> L (pcs m t) (asleep m t)" using assms(4) by (auto simp: owed_def)
  then show ?thesis using assms(5) False by (auto simp: owed_def)
qed

lemma owed_wake:
  assumes "owed n L c m" "\<And>p. L p True \<Longrightarrow> L p False"
  shows "owed n L c (dequeue d u m)"
proof (cases "queue m c = {}")
  case False
  then obtain t where t: "t < n" "L (pcs m t) (asleep m t)" using assms(1) by (auto simp: owed_def)
  have "asleep (dequeue d u m) t \<longrightarrow> asleep m t" by (auto simp: asleep_def split: if_splits)
  then have "L (pcs m t) (asleep (dequeue d u m) t)"
    using t(2) assms(2) by (cases "asleep (dequeue d u m) t"; cases "asleep m t") auto
  then show ?thesis using t(1) by (auto simp: owed_def)
qed (auto simp: owed_def)

lemma rw_someone:
  assumes "rw_counts n m"
  shows "0 < readers (vars m) \<Longrightarrow> \<exists>u < n. holds_read (pcs m u)" "0 < writers (vars m) \<Longrightarrow> \<exists>u < n. holds_write (pcs m u)"
    "0 < waiting_readers (vars m) \<Longrightarrow> \<exists>u < n. waits_read (pcs m u)" "0 < waiting_writers (vars m) \<Longrightarrow> \<exists>u < n. waits_write (pcs m u)"
  using assms by (simp_all add: rw_counts_def cnt_pos)

lemma rw_sleeper:
  assumes "protected n (\<lambda>_. code) rw_crit m" "rw_program code" "rw_counts n m" "u \<in> queue m c"
  shows "u < n" "pcs m u = (if c = Read then RL_waiting else WL_waiting)"
    "if c = Read then 0 < waiting_readers (vars m) else 0 < waiting_writers (vars m)"
proof -
  show u: "u < n" using assms(1,4) by (auto simp: protected_def)
  show p: "pcs m u = (if c = Read then RL_waiting else WL_waiting)"
  proof -
    obtain q where "code (pcs m u) = Waiting c q" using assms(1,4) unfolding protected_def by blast
    then show ?thesis using assms(2) unfolding rw_program_def by (elim disjE; cases "pcs m u") simp_all
  qed
  show "if c = Read then 0 < waiting_readers (vars m) else 0 < waiting_writers (vars m)"
    using cnt_ge [OF u, of waits_read "pcs m"] cnt_ge [OF u, of waits_write "pcs m"] p assms(3)
    by (auto simp: rw_counts_def rw_roles split: if_splits)
qed

lemma rw_signalled:
  assumes "protected n (\<lambda>_. code) rw_crit m" "rw_program code" "rw_counts n m" "act (code (pcs m t)) t m m'"
    and "pcs m t = RU_signal \<or> pcs m t = WU_signal" "queue m' Write \<noteq> {}"
  shows "\<exists>u < n. pcs m' u = WL_waiting \<and> \<not> asleep m' u"
proof -
  have "\<exists>u \<in> queue m Write. \<exists>q. m' = goto t q (dequeue Write u m)"
    using assms(2,4-6) by (auto simp: rw_program_def)
  then obtain u q where u: "u \<in> queue m Write" "m' = goto t q (dequeue Write u m)" by blast
  note s = rw_sleeper [OF assms(1-3), of u]
  have p: "u < n" "pcs m u = WL_waiting" using s(1,2) [OF u(1)] by auto
  then have "u \<noteq> t" using assms(5) by auto
  moreover have "u \<notin> queue m Read" using s(2) [of Read] p by auto
  then have "\<not> asleep m' u" unfolding asleep_def using u by (auto split: if_splits) (metis rw_cond.exhaust)
  ultimately show ?thesis using p u by auto
qed

lemma owed_writer_w:
  assumes "act (writer_pref (pcs m t)) t m m'" "t < n" "protected n (\<lambda>_. writer_pref) rw_crit m" "rw_counts n m"
    and "rw_guard writer_pref m" "owed n wakes_writer_w Write m"
  shows "owed n wakes_writer_w Write m'"
proof (rule owed_move [OF assms(1,2) _ assms(6)])
  show "wakes_writer_w p True \<Longrightarrow> wakes_writer_w p False" for p by (auto simp: wakes_writer_w_def)
next
  assume q: "queue m' Write \<noteq> {}" and none: "\<And>u. u < n \<Longrightarrow> u \<noteq> t \<Longrightarrow> \<not> wakes_writer_w (pcs m u) (asleep m u)"
    and d: "queue m Write = {} \<or> wakes_writer_w (pcs m t) (asleep m t)"
  have prog: "rw_program writer_pref" by (simp add: rw_program_def)
  have o: "owner m = Some t \<longleftrightarrow> rw_crit (pcs m t)" using assms(2,3) by (simp add: protected_def)
  have h: "0 < readers (vars m) \<Longrightarrow> holds_read (pcs m t)" "0 < writers (vars m) \<Longrightarrow> holds_write (pcs m t)"
    using rw_someone(1,2) [OF assms(4)] none unfolding wakes_writer_w_def rw_roles by blast+
  have w: "queue m Write \<noteq> {} \<Longrightarrow> 0 < waiting_writers (vars m)" using rw_sleeper(3) [OF assms(3) prog assms(4), of _ Write] by auto
  have "wakes_writer_w (pcs m' t) (asleep m' t) \<or> pcs m t = RU_signal \<or> pcs m t = WU_signal"
    using assms(1,5) q d o h w rw_nonneg [OF assms(4)]
    by (cases "pcs m t") (auto simp: wakes_writer_w_def rw_guard_def rw_roles split: if_splits)
  then show "\<exists>u < n. wakes_writer_w (pcs m' u) (asleep m' u)"
    using assms(2) rw_signalled [OF assms(3) prog assms(4,1) _ q] unfolding wakes_writer_w_def by blast
qed

lemma owed_reader_w:
  assumes "act (writer_pref (pcs m t)) t m m'" "t < n" "protected n (\<lambda>_. writer_pref) rw_crit m" "rw_counts n m"
    and "rw_guard writer_pref m" "owed n wakes_reader_w Read m"
  shows "owed n wakes_reader_w Read m'"
proof (rule owed_move [OF assms(1,2) _ assms(6)])
  show "wakes_reader_w p True \<Longrightarrow> wakes_reader_w p False" for p by (auto simp: wakes_reader_w_def)
next
  assume q: "queue m' Read \<noteq> {}" and none: "\<And>u. u < n \<Longrightarrow> u \<noteq> t \<Longrightarrow> \<not> wakes_reader_w (pcs m u) (asleep m u)"
    and d: "queue m Read = {} \<or> wakes_reader_w (pcs m t) (asleep m t)"
  have prog: "rw_program writer_pref" by (simp add: rw_program_def)
  have o: "owner m = Some t \<longleftrightarrow> rw_crit (pcs m t)" using assms(2,3) by (simp add: protected_def)
  have h: "0 < writers (vars m) \<Longrightarrow> holds_write (pcs m t)" "0 < waiting_writers (vars m) \<Longrightarrow> waits_write (pcs m t)"
    using rw_someone(2,4) [OF assms(4)] none unfolding wakes_reader_w_def rw_roles by blast+
  have w: "queue m Read \<noteq> {} \<Longrightarrow> 0 < waiting_readers (vars m)" using rw_sleeper(3) [OF assms(3) prog assms(4), of _ Read] by auto
  have "wakes_reader_w (pcs m' t) (asleep m' t)"
    using assms(1,5) q d o h w
    by (cases "pcs m t") (auto simp: wakes_reader_w_def rw_guard_def rw_roles split: if_splits)
  then show "\<exists>u < n. wakes_reader_w (pcs m' u) (asleep m' u)" using assms(2) by blast
qed

lemma owed_reader_r:
  assumes "act (reader_pref (pcs m t)) t m m'" "t < n" "protected n (\<lambda>_. reader_pref) rw_crit m" "rw_counts n m"
    and "rw_guard reader_pref m" "owed n wakes_reader_r Read m"
  shows "owed n wakes_reader_r Read m'"
proof (rule owed_move [OF assms(1,2) _ assms(6)])
  show "wakes_reader_r p True \<Longrightarrow> wakes_reader_r p False" for p by (auto simp: wakes_reader_r_def)
next
  assume q: "queue m' Read \<noteq> {}" and none: "\<And>u. u < n \<Longrightarrow> u \<noteq> t \<Longrightarrow> \<not> wakes_reader_r (pcs m u) (asleep m u)"
    and d: "queue m Read = {} \<or> wakes_reader_r (pcs m t) (asleep m t)"
  have prog: "rw_program reader_pref" "reader_pref \<noteq> writer_pref" by (auto simp: rw_program_def dest: fun_cong [of _ _ WU_if])
  have o: "owner m = Some t \<longleftrightarrow> rw_crit (pcs m t)" using assms(2,3) by (simp add: protected_def)
  have h: "0 < writers (vars m) \<Longrightarrow> holds_write (pcs m t)"
    using rw_someone(2) [OF assms(4)] none unfolding wakes_reader_r_def rw_roles by blast
  have w: "queue m Read \<noteq> {} \<Longrightarrow> 0 < waiting_readers (vars m)" using rw_sleeper(3) [OF assms(3) prog(1) assms(4), of _ Read] by auto
  have "wakes_reader_r (pcs m' t) (asleep m' t)"
    using assms(1,5) q d o h w prog(2)
    by (cases "pcs m t") (auto simp: wakes_reader_r_def rw_guard_def rw_roles split: if_splits)
  then show "\<exists>u < n. wakes_reader_r (pcs m' u) (asleep m' u)" using assms(2) by blast
qed

lemma rw_broadcasted:
  assumes "protected n (\<lambda>_. reader_pref) rw_crit m" "rw_counts n m" "rw_guard reader_pref m"
    and "act (reader_pref (pcs m t)) t m m'" "t < n" "pcs m t = WU_broadcast"
  shows "\<exists>u < n. pcs m' u = RL_waiting \<and> \<not> asleep m' u"
proof -
  have "owner m = Some t" using assms(1,5,6) by (simp add: protected_def)
  then have "0 < waiting_readers (vars m)" using assms(3,6) by (simp add: rw_guard_def)
  then obtain u where u: "u < n" "waits_read (pcs m u)" using rw_someone(3) [OF assms(2)] by blast
  have "u \<noteq> t" using u assms(6) by (auto simp: rw_roles)
  then have w: "pcs m u = RL_waiting"
    using u(2) rpref.protected_owner [OF assms(1) u(1) assms(5)] assms(6) by (auto simp: rw_roles)
  have "u \<notin> queue m Write" using rw_sleeper(2) [OF assms(1) _ assms(2), of u Write] w by (auto simp: rw_program_def)
  then have "\<not> asleep m' u" using assms(4,6) unfolding asleep_def by (auto split: if_splits) (metis rw_cond.exhaust)
  then show ?thesis using u(1) w \<open>u \<noteq> t\<close> assms(4,6) by auto
qed

lemma owed_writer_r:
  assumes "act (reader_pref (pcs m t)) t m m'" "t < n" "protected n (\<lambda>_. reader_pref) rw_crit m" "rw_counts n m"
    and "rw_guard reader_pref m" "owed n wakes_writer_r Write m"
  shows "owed n wakes_writer_r Write m'"
proof (rule owed_move [OF assms(1,2) _ assms(6)])
  show "wakes_writer_r p True \<Longrightarrow> wakes_writer_r p False" for p by (auto simp: wakes_writer_r_def wakes_writer_w_def)
next
  assume q: "queue m' Write \<noteq> {}" and none: "\<And>u. u < n \<Longrightarrow> u \<noteq> t \<Longrightarrow> \<not> wakes_writer_r (pcs m u) (asleep m u)"
    and d: "queue m Write = {} \<or> wakes_writer_r (pcs m t) (asleep m t)"
  have prog: "rw_program reader_pref" by (simp add: rw_program_def)
  have o: "owner m = Some t \<longleftrightarrow> rw_crit (pcs m t)" using assms(2,3) by (simp add: protected_def)
  have h: "0 < readers (vars m) \<Longrightarrow> holds_read (pcs m t)" "0 < writers (vars m) \<Longrightarrow> holds_write (pcs m t)"
    using rw_someone(1,2) [OF assms(4)] none unfolding wakes_writer_r_def wakes_writer_w_def rw_roles by blast+
  have w: "queue m Write \<noteq> {} \<Longrightarrow> 0 < waiting_writers (vars m)" using rw_sleeper(3) [OF assms(3) prog assms(4), of _ Write] by auto
  have "wakes_writer_r (pcs m' t) (asleep m' t) \<or> pcs m t = RU_signal \<or> pcs m t = WU_signal \<or> pcs m t = WU_broadcast"
    using assms(1,5) q d o h w rw_nonneg [OF assms(4)]
    by (cases "pcs m t") (auto simp: wakes_writer_r_def wakes_writer_w_def rw_guard_def rw_roles split: if_splits)
  then show "\<exists>u < n. wakes_writer_r (pcs m' u) (asleep m' u)"
    using assms(2) rw_signalled [OF assms(3) prog assms(4,1) _ q] rw_broadcasted [OF assms(3-5,1,2)]
    unfolding wakes_writer_r_def wakes_writer_w_def by blast
qed

definition rw_owed :: "nat \<Rightarrow> (rw_pc \<Rightarrow> (rw_cond, read_write_lock, rw_pc) instr) \<Rightarrow> (rw_cond, read_write_lock, rw_pc) conf \<Rightarrow> bool" where
  "rw_owed n code m \<longleftrightarrow> (code = writer_pref \<longrightarrow> owed n wakes_writer_w Write m \<and> owed n wakes_reader_w Read m)
     \<and> (code = reader_pref \<longrightarrow> owed n wakes_writer_r Write m \<and> owed n wakes_reader_r Read m)"

lemma rw_owed_step:
  assumes "step n (\<lambda>_. code) m m'" "rw_program code" "protected n (\<lambda>_. code) rw_crit m" "rw_counts n m" "rw_guard code m" "rw_owed n code m"
  shows "rw_owed n code m'"
  using assms(1)
proof (cases rule: step_cases_act)
  case (act t)
  then show ?thesis using assms(3-6) owed_writer_w owed_reader_w owed_writer_r owed_reader_r unfolding rw_owed_def by blast
next
  case (spurious t c)
  then show ?thesis using assms(6)
    by (auto simp: rw_owed_def wakes_writer_w_def wakes_writer_r_def wakes_reader_w_def wakes_reader_r_def intro: owed_wake)
qed

lemma rw_reach_owed:
  assumes "reach n (\<lambda>_. code) (InitalizeReadWriteLock rw_zero) m" "rw_program code"
  shows "protected n (\<lambda>_. code) rw_crit m \<and> (rw_counts n m \<and> rw_guard code m) \<and> rw_owed n code m"
proof (rule rw_reach_invariant [OF assms, where I = "\<lambda>m. (rw_counts n m \<and> rw_guard code m) \<and> rw_owed n code m"])
  show "(rw_counts n (InitalizeReadWriteLock rw_zero) \<and> rw_guard code (InitalizeReadWriteLock rw_zero)) \<and> rw_owed n code (InitalizeReadWriteLock rw_zero)"
    by (simp add: rw_counts_def rw_guard_def rw_owed_def owed_def InitalizeReadWriteLock_def rw_zero_def cnt_def rw_roles)
next
  fix m m' assume "step n (\<lambda>_. code) m m'" "protected n (\<lambda>_. code) rw_crit m" "(rw_counts n m \<and> rw_guard code m) \<and> rw_owed n code m"
  then show "(rw_counts n m' \<and> rw_guard code m') \<and> rw_owed n code m'"
    using rw_counts_step rw_guard_step rw_owed_step assms(2) by metis
qed

text \<open>
  C22. Neither readers-writer lock loses a wakeup: in a reachable state in which every thread
  is outside the lock or asleep in it, and so nobody holds it, no thread is asleep.
\<close>

theorem rwlock_no_lost_wakeup:
  assumes "reach n (\<lambda>_. code) (InitalizeReadWriteLock rw_zero) m" "rw_program code"
    and "\<And>t. t < n \<Longrightarrow> pcs m t = Idle \<or> t \<in> queue m Read \<or> t \<in> queue m Write"
  shows "queue m Read = {} \<and> queue m Write = {}"
proof -
  have p: "protected n (\<lambda>_. code) rw_crit m" and c: "rw_counts n m" and o: "rw_owed n code m"
    using rw_reach_owed [OF assms(1,2)] by auto
  have quiet: "pcs m t = Idle \<or> pcs m t = RL_waiting \<and> asleep m t \<or> pcs m t = WL_waiting \<and> asleep m t" if "t < n" for t
    using assms(3) [OF that] rw_sleeper(2) [OF p assms(2) c, of t] by (auto simp: asleep_def)
  then have "\<not> wakes_writer_w (pcs m t) (asleep m t)" "\<not> wakes_writer_r (pcs m t) (asleep m t)" if "t < n" for t
    using quiet [OF that] by (auto simp: wakes_writer_w_def wakes_writer_r_def)
  then have w: "queue m Write = {}"
    using assms(2) o unfolding rw_program_def rw_owed_def owed_def by blast
  have "\<not> wakes_reader_w (pcs m t) (asleep m t)" "\<not> wakes_reader_r (pcs m t) (asleep m t)" if "t < n" for t
    using assms(3) [OF that] w rw_sleeper(2) [OF p assms(2) c, of t Read]
    by (auto simp: wakes_reader_w_def wakes_reader_r_def)
  then have "queue m Read = {}"
    using assms(2) o unfolding rw_program_def rw_owed_def owed_def by blast
  then show ?thesis using w by blast
qed

theorem rwlock_no_lost_wakeup_witness:
  "\<exists>m. fires 2 (\<lambda>_. writer_pref) (Pick 0 0 # replicate 4 (Run 0) @ Pick 1 1 # replicate 4 (Run 1)
      @ [Pick 0 0, Run 0, Run 0, Run 0, Pick 0 1, Run 0] @ replicate 5 (Run 1) @ Pick 1 0 # replicate 5 (Run 1))
      (InitalizeReadWriteLock rw_zero) = Some m \<and> queue m Read = {} \<and> queue m Write = {}"
proof -
  obtain m where m: "fires 2 (\<lambda>_. writer_pref) (Pick 0 0 # replicate 4 (Run 0) @ Pick 1 1 # replicate 4 (Run 1)
      @ [Pick 0 0, Run 0, Run 0, Run 0, Pick 0 1, Run 0] @ replicate 5 (Run 1) @ Pick 1 0 # replicate 5 (Run 1))
      (InitalizeReadWriteLock rw_zero) = Some m" "pcs m 0 = Idle" "pcs m 1 = Idle"
    by (simp add: numeral_eq_Suc InitalizeReadWriteLock_def rw_zero_def)
  have "queue m Read = {} \<and> queue m Write = {}"
    by (rule rwlock_no_lost_wakeup [OF fires_reach [OF m(1) reach.start]])
       (use m(2,3) in \<open>auto simp: rw_program_def less_2_cases_iff\<close>)
  then show ?thesis using m(1) by blast
qed

end
