(* ===== verification/Pth_Master_Worker.thy ===== *)
theory Pth_Master_Worker
  imports Pth_Monitor "HOL-Library.Multiset"
begin

text \<open>
  The bounded buffer of \<^verbatim>\<open>master-worker.c\<close>: masters number the items and put
  them on a stack of bounded size, workers take them off.  Every item is produced once and
  consumed once, the buffer is never overrun, and the threads cannot all fall asleep.
\<close>

datatype print = Produced int tid | Consumed int tid

text \<open>The global variables and what has been printed so far.\<close>

record mw =
  item_to_produce :: int
  item_to_consume :: int
  curr_buf_size :: int
  buffer :: "int \<Rightarrow> int"
  out :: "print list"

datatype mw_cond = Fill | Empty

datatype mw_pc =
    M_outer | M_lock | M_while | M_wait | M_waiting | M_if | M_break | M_store | M_print | M_inc | M_broadcast | M_unlock | M_return
  | W_outer | W_lock | W_while | W_wait | W_waiting | W_if | W_break | W_take | W_print | W_inc | W_broadcast | W_unlock | W_return

definition print_produced :: "tid \<Rightarrow> mw \<Rightarrow> mw" where
  "print_produced t s = s\<lparr>out := out s @ [Produced (item_to_produce s) t]\<rparr>"

definition print_consumed :: "tid \<Rightarrow> mw \<Rightarrow> mw" where
  "print_consumed t s = s\<lparr>out := out s @ [Consumed (buffer s (curr_buf_size s)) t]\<rparr>"

text \<open>Both loops, for \<open>total_items\<close> items, a buffer of \<open>max_buf_size\<close> items and \<open>nm\<close> masters.\<close>

primrec mw_code :: "int \<Rightarrow> int \<Rightarrow> nat \<Rightarrow> tid \<Rightarrow> mw_pc \<Rightarrow> (mw_cond, mw, mw_pc) instr" where
  "mw_code total_items max_buf_size nm t M_outer = Test (\<lambda>s. item_to_produce s < total_items) M_lock M_return"
| "mw_code total_items max_buf_size nm t M_lock = Lock M_while"
| "mw_code total_items max_buf_size nm t M_while = Test (\<lambda>s. curr_buf_size s \<ge> max_buf_size \<and> item_to_produce s < total_items) M_wait M_if"
| "mw_code total_items max_buf_size nm t M_wait = Wait Empty M_waiting"
| "mw_code total_items max_buf_size nm t M_waiting = Waiting Empty M_while"
| "mw_code total_items max_buf_size nm t M_if = Test (\<lambda>s. item_to_produce s = total_items) M_break M_store"
| "mw_code total_items max_buf_size nm t M_break = Unlock M_return"
| "mw_code total_items max_buf_size nm t M_store = Set (\<lambda>s. s\<lparr>buffer := (buffer s)(curr_buf_size s := item_to_produce s),
     curr_buf_size := curr_buf_size s + 1\<rparr>) M_print"
| "mw_code total_items max_buf_size nm t M_print = Set (print_produced t) M_inc"
| "mw_code total_items max_buf_size nm t M_inc = Set (\<lambda>s. s\<lparr>item_to_produce := item_to_produce s + 1\<rparr>) M_broadcast"
| "mw_code total_items max_buf_size nm t M_broadcast = Broadcast Fill M_unlock"
| "mw_code total_items max_buf_size nm t M_unlock = Unlock M_outer"
| "mw_code total_items max_buf_size nm t M_return = Return"
| "mw_code total_items max_buf_size nm t W_outer = Test (\<lambda>s. item_to_consume s < total_items) W_lock W_return"
| "mw_code total_items max_buf_size nm t W_lock = Lock W_while"
| "mw_code total_items max_buf_size nm t W_while = Test (\<lambda>s. curr_buf_size s = 0 \<and> item_to_consume s < total_items) W_wait W_if"
| "mw_code total_items max_buf_size nm t W_wait = Wait Fill W_waiting"
| "mw_code total_items max_buf_size nm t W_waiting = Waiting Fill W_while"
| "mw_code total_items max_buf_size nm t W_if = Test (\<lambda>s. item_to_consume s = total_items) W_break W_take"
| "mw_code total_items max_buf_size nm t W_break = Unlock W_return"
| "mw_code total_items max_buf_size nm t W_take = Set (\<lambda>s. s\<lparr>curr_buf_size := curr_buf_size s - 1\<rparr>) W_print"
| "mw_code total_items max_buf_size nm t W_print = Set (print_consumed (t - nm)) W_inc"
| "mw_code total_items max_buf_size nm t W_inc = Set (\<lambda>s. s\<lparr>item_to_consume := item_to_consume s + 1\<rparr>) W_broadcast"
| "mw_code total_items max_buf_size nm t W_broadcast = Broadcast Empty W_unlock"
| "mw_code total_items max_buf_size nm t W_unlock = Unlock W_outer"
| "mw_code total_items max_buf_size nm t W_return = Return"

text \<open>What \<^verbatim>\<open>main\<close> sets up: threads 0, ..., nm - 1 are masters, the others workers.\<close>

definition mw_main :: "nat \<Rightarrow> (mw_cond, mw, mw_pc) conf" where
  "mw_main nm = \<lparr>owner = None, queue = (\<lambda>_. {}),
     vars = \<lparr>item_to_produce = 0, item_to_consume = 0, curr_buf_size = 0, buffer = (\<lambda>_. 0), out = []\<rparr>,
     pcs = (\<lambda>t. if t < nm then M_outer else W_outer)\<rparr>"

section \<open>The discipline\<close>

primrec mw_crit :: "mw_pc \<Rightarrow> bool" where
  "mw_crit M_outer = False" | "mw_crit M_lock = False" | "mw_crit M_while = True" | "mw_crit M_wait = True" | "mw_crit M_waiting = False"
| "mw_crit M_if = True" | "mw_crit M_break = True" | "mw_crit M_store = True" | "mw_crit M_print = True" | "mw_crit M_inc = True"
| "mw_crit M_broadcast = True" | "mw_crit M_unlock = True" | "mw_crit M_return = False" | "mw_crit W_outer = False"
| "mw_crit W_lock = False" | "mw_crit W_while = True" | "mw_crit W_wait = True" | "mw_crit W_waiting = False" | "mw_crit W_if = True"
| "mw_crit W_break = True" | "mw_crit W_take = True" | "mw_crit W_print = True" | "mw_crit W_inc = True" | "mw_crit W_broadcast = True"
| "mw_crit W_unlock = True" | "mw_crit W_return = False"

interpretation mw: monitor n "mw_code total_items max_buf_size nm" mw_crit for n total_items max_buf_size nm
proof
  fix t p
  show "disciplined (mw_code total_items max_buf_size nm) mw_crit t p" by (cases p) (simp_all add: sleep_point_def)
qed

lemma mw_main_protected: "protected n (mw_code total_items max_buf_size nm) mw_crit (mw_main nm)"
  by (simp add: protected_def mw_main_def)

section \<open>What holds between the critical sections\<close>

fun produced :: "print list \<Rightarrow> int list" where
  "produced [] = []" | "produced (Produced i t # ps) = i # produced ps" | "produced (Consumed i t # ps) = produced ps"

fun consumed :: "print list \<Rightarrow> int list" where
  "consumed [] = []" | "consumed (Consumed i t # ps) = i # consumed ps" | "consumed (Produced i t # ps) = consumed ps"

lemma produced_append [simp]: "produced (xs @ ys) = produced xs @ produced ys"
  by (induction xs rule: produced.induct) auto

lemma consumed_append [simp]: "consumed (xs @ ys) = consumed xs @ consumed ys"
  by (induction xs rule: consumed.induct) auto

text \<open>The variables as they will be when the thread in the critical section is done with its item.\<close>

definition rest :: "nat \<Rightarrow> tid \<Rightarrow> mw_pc \<Rightarrow> mw \<Rightarrow> mw" where
  "rest nm t p s = (case p of
       M_print \<Rightarrow> (print_produced t s)\<lparr>item_to_produce := item_to_produce s + 1\<rparr>
     | M_inc \<Rightarrow> s\<lparr>item_to_produce := item_to_produce s + 1\<rparr>
     | W_print \<Rightarrow> (print_consumed (t - nm) s)\<lparr>item_to_consume := item_to_consume s + 1\<rparr>
     | W_inc \<Rightarrow> s\<lparr>item_to_consume := item_to_consume s + 1\<rparr>
     | _ \<Rightarrow> s)"

definition settled :: "nat \<Rightarrow> (mw_cond, mw, mw_pc) conf \<Rightarrow> mw" where
  "settled nm m = (case owner m of None \<Rightarrow> vars m | Some t \<Rightarrow> rest nm t (pcs m t) (vars m))"

definition accounted :: "int \<Rightarrow> int \<Rightarrow> mw \<Rightarrow> bool" where
  "accounted total_items max_buf_size s \<longleftrightarrow> 0 \<le> curr_buf_size s \<and> curr_buf_size s \<le> max_buf_size
     \<and> 0 \<le> item_to_produce s \<and> item_to_produce s \<le> total_items
     \<and> produced (out s) = [0..item_to_produce s - 1]
     \<and> item_to_consume s = int (length (consumed (out s)))
     \<and> mset (consumed (out s)) + mset (map (buffer s) [0..curr_buf_size s - 1]) = mset [0..item_to_produce s - 1]"

definition checked :: "int \<Rightarrow> int \<Rightarrow> (mw_cond, mw, mw_pc) conf \<Rightarrow> bool" where
  "checked total_items max_buf_size m \<longleftrightarrow> (\<forall>t. owner m = Some t \<longrightarrow>
       (pcs m t = M_if \<longrightarrow> \<not> (curr_buf_size (vars m) \<ge> max_buf_size \<and> item_to_produce (vars m) < total_items))
     \<and> (pcs m t = M_wait \<longrightarrow> curr_buf_size (vars m) \<ge> max_buf_size \<and> item_to_produce (vars m) < total_items)
     \<and> (pcs m t = W_wait \<longrightarrow> curr_buf_size (vars m) = 0 \<and> item_to_consume (vars m) < total_items)
     \<and> (pcs m t = M_store \<longrightarrow> curr_buf_size (vars m) < max_buf_size \<and> item_to_produce (vars m) < total_items)
     \<and> (pcs m t = W_if \<longrightarrow> \<not> (curr_buf_size (vars m) = 0 \<and> item_to_consume (vars m) < total_items))
     \<and> (pcs m t = W_take \<longrightarrow> 0 < curr_buf_size (vars m)))"

lemma accounted_size:
  assumes "accounted total_items max_buf_size s"
  shows "item_to_consume s + curr_buf_size s = item_to_produce s"
proof -
  have "size (mset (consumed (out s)) + mset (map (buffer s) [0..curr_buf_size s - 1])) = size (mset [0..item_to_produce s - 1])"
    using assms unfolding accounted_def by (elim conjE) (rule arg_cong)
  then have "length (consumed (out s)) + nat (curr_buf_size s) = nat (item_to_produce s)" by simp
  moreover have "0 \<le> curr_buf_size s" "0 \<le> item_to_produce s" "item_to_consume s = int (length (consumed (out s)))"
    using assms by (simp_all add: accounted_def)
  ultimately show ?thesis by linarith
qed

lemma accounted_store:
  assumes "accounted total_items max_buf_size s" "curr_buf_size s < max_buf_size" "item_to_produce s < total_items"
  shows "accounted total_items max_buf_size (s\<lparr>buffer := (buffer s)(curr_buf_size s := item_to_produce s),
    curr_buf_size := curr_buf_size s + 1, out := out s @ [Produced (item_to_produce s) t], item_to_produce := item_to_produce s + 1\<rparr>)"
proof -
  have "[0..curr_buf_size s] = [0..curr_buf_size s - 1] @ [curr_buf_size s]"
    "[0..item_to_produce s] = [0..item_to_produce s - 1] @ [item_to_produce s]"
    using assms(1) by (simp_all add: accounted_def upto_rec2)
  moreover have "map ((buffer s)(curr_buf_size s := x)) [0..curr_buf_size s - 1] = map (buffer s) [0..curr_buf_size s - 1]" for x
    by simp
  ultimately show ?thesis using assms by (simp add: accounted_def)
qed

lemma accounted_take:
  assumes "accounted total_items max_buf_size s" "0 < curr_buf_size s"
  shows "accounted total_items max_buf_size (s\<lparr>curr_buf_size := curr_buf_size s - 1,
    out := out s @ [Consumed (buffer s (curr_buf_size s - 1)) t], item_to_consume := item_to_consume s + 1\<rparr>)"
proof -
  have "[0..curr_buf_size s - 1] = [0..curr_buf_size s - 1 - 1] @ [curr_buf_size s - 1]"
    using assms(2) by (simp add: upto_rec2)
  then show ?thesis using assms by (simp add: accounted_def)
qed

lemma settled_frame:
  assumes "act (mw_code total_items max_buf_size nm t (pcs m t)) t m m'" "owner m = Some t \<longleftrightarrow> mw_crit (pcs m t)"
    and "pcs m t \<noteq> M_store" "pcs m t \<noteq> W_take"
  shows "settled nm m' = settled nm m"
  using assms by (cases "pcs m t") (auto simp: settled_def rest_def print_produced_def print_consumed_def split: option.splits)

lemma mw_data_step:
  assumes "step n (mw_code total_items max_buf_size nm) m m'" "protected n (mw_code total_items max_buf_size nm) mw_crit m"
    and "accounted total_items max_buf_size (settled nm m)" "checked total_items max_buf_size m"
  shows "accounted total_items max_buf_size (settled nm m')"
  using assms(1)
proof (cases rule: step_cases_act)
  case (act t)
  have o: "owner m = Some t \<longleftrightarrow> mw_crit (pcs m t)" using assms(2) act(1) by (simp add: protected_def)
  show ?thesis
  proof (cases "pcs m t = M_store \<or> pcs m t = W_take")
    case True
    then show ?thesis
      using act(2) o assms(3,4) accounted_store [of total_items max_buf_size "vars m"] accounted_take [of total_items max_buf_size "vars m"]
      by (auto simp: settled_def rest_def checked_def print_produced_def print_consumed_def)
  next
    case False
    then show ?thesis using assms(3) settled_frame [OF act(2) o] by simp
  qed
qed (use assms(3) in \<open>simp add: settled_def cong: option.case_cong\<close>)

lemma mw_checked_step:
  assumes "step n (mw_code total_items max_buf_size nm) m m'" "protected n (mw_code total_items max_buf_size nm) mw_crit m"
    and "accounted total_items max_buf_size (settled nm m)" "checked total_items max_buf_size m"
  shows "checked total_items max_buf_size m'"
  using assms(1)
proof (cases rule: step_cases_act)
  case (act t)
  have o: "owner m = Some t \<longleftrightarrow> mw_crit (pcs m t)" using assms(2) act(1) by (simp add: protected_def)
  have v: "item_to_consume (vars m) + curr_buf_size (vars m) = item_to_produce (vars m) \<and> 0 \<le> curr_buf_size (vars m)
      \<and> item_to_produce (vars m) \<le> total_items" if "pcs m t = M_if \<or> pcs m t = W_if"
    using that o assms(3) accounted_size [OF assms(3)] by (auto simp: settled_def rest_def accounted_def)
  show ?thesis using act(2) o v assms(4)
    by (cases "pcs m t") (auto simp: checked_def split: if_splits)
qed (use assms(4) in \<open>simp add: checked_def\<close>)

section \<open>Sleepers and leavers\<close>

definition mw_owed :: "int \<Rightarrow> int \<Rightarrow> nat \<Rightarrow> (mw_cond, mw, mw_pc) conf \<Rightarrow> bool" where
  "mw_owed total_items max_buf_size nm m \<longleftrightarrow>
     (queue m Fill \<noteq> {} \<longrightarrow> curr_buf_size (settled nm m) = 0 \<and> item_to_consume (settled nm m) < total_items
        \<or> (\<exists>t. owner m = Some t \<and> pcs m t \<in> {M_print, M_inc, M_broadcast}))
   \<and> (queue m Empty \<noteq> {} \<longrightarrow> max_buf_size \<le> curr_buf_size (settled nm m) \<and> item_to_produce (settled nm m) < total_items
        \<or> (\<exists>t. owner m = Some t \<and> pcs m t \<in> {W_print, W_inc, W_broadcast}))"

lemma settled_owner: "owner m = Some t \<Longrightarrow> settled nm m = rest nm t (pcs m t) (vars m)"
  by (simp add: settled_def)

lemma mw_owed_step:
  assumes "step n (mw_code total_items max_buf_size nm) m m'" "protected n (mw_code total_items max_buf_size nm) mw_crit m"
    and "checked total_items max_buf_size m" "mw_owed total_items max_buf_size nm m"
  shows "mw_owed total_items max_buf_size nm m'"
  using assms(1)
proof (cases rule: step_cases_act)
  case (act t)
  have o: "owner m = Some t \<longleftrightarrow> mw_crit (pcs m t)" using assms(2) act(1) by (simp add: protected_def)
  note f = settled_frame [OF act(2) o]
  show ?thesis
  proof (cases "mw_crit (pcs m t)")
    case True
    then have "owner m = Some t" using o by simp
    then show ?thesis using act(2) f settled_owner [of m t nm] assms(3,4) True
      by (cases "pcs m t") (auto simp: mw_owed_def checked_def rest_def)
  next
    case False
    then show ?thesis using act(2) f assms(4) o by (cases "pcs m t") (auto simp: mw_owed_def)
  qed
next
  case (spurious t c)
  then show ?thesis using assms(4) by (auto simp: mw_owed_def settled_def cong: option.case_cong)
qed

definition is_master :: "mw_pc \<Rightarrow> bool" where
  "is_master p \<longleftrightarrow> p \<in> {M_outer, M_lock, M_while, M_wait, M_waiting, M_if, M_break, M_store, M_print, M_inc, M_broadcast, M_unlock, M_return}"

definition mw_left :: "int \<Rightarrow> nat \<Rightarrow> nat \<Rightarrow> (mw_cond, mw, mw_pc) conf \<Rightarrow> bool" where
  "mw_left total_items nm n m \<longleftrightarrow> (\<forall>t < n. is_master (pcs m t) = (t < nm))
     \<and> (\<forall>t < n. pcs m t \<in> {M_break, M_return} \<longrightarrow> total_items \<le> item_to_produce (vars m))
     \<and> (\<forall>t < n. pcs m t \<in> {W_break, W_return} \<longrightarrow> total_items \<le> item_to_consume (vars m))"

lemma mw_left_step:
  assumes "step n (mw_code total_items max_buf_size nm) m m'" "mw_left total_items nm n m"
  shows "mw_left total_items nm n m'"
  using assms(1)
proof (cases rule: step_cases_act)
  case (act t)
  have grow: "item_to_produce (vars m) \<le> item_to_produce (vars m')" "item_to_consume (vars m) \<le> item_to_consume (vars m')"
    using act(2) by (cases "pcs m t"; auto simp: print_produced_def print_consumed_def)+
  have new: "is_master (pcs m' t) = is_master (pcs m t)"
    "pcs m' t \<in> {M_break, M_return} \<Longrightarrow> pcs m t \<in> {M_break, M_return} \<or> total_items \<le> item_to_produce (vars m)"
    "pcs m' t \<in> {W_break, W_return} \<Longrightarrow> pcs m t \<in> {W_break, W_return} \<or> total_items \<le> item_to_consume (vars m)"
    using act(2) by (cases "pcs m t"; auto simp: is_master_def split: if_splits)+
  note old = act_other(1) [OF act(2)]
  have l: "u < n \<Longrightarrow> is_master (pcs m u) = (u < nm)" "u < n \<Longrightarrow> pcs m u \<in> {M_break, M_return} \<Longrightarrow> total_items \<le> item_to_produce (vars m)"
    "u < n \<Longrightarrow> pcs m u \<in> {W_break, W_return} \<Longrightarrow> total_items \<le> item_to_consume (vars m)" for u
    using assms(2) unfolding mw_left_def by blast+
  show ?thesis unfolding mw_left_def
  proof (intro conjI allI impI)
    fix u assume u: "u < n"
    show "is_master (pcs m' u) = (u < nm)" using l(1) [OF u] new(1) old by (cases "u = t") auto
  next
    fix u assume u: "u < n" "pcs m' u \<in> {M_break, M_return}"
    have "total_items \<le> item_to_produce (vars m)" using u l(2) new(2) old by (cases "u = t") metis+
    then show "total_items \<le> item_to_produce (vars m')" using grow(1) by simp
  next
    fix u assume u: "u < n" "pcs m' u \<in> {W_break, W_return}"
    have "total_items \<le> item_to_consume (vars m)" using u l(3) new(3) old by (cases "u = t") metis+
    then show "total_items \<le> item_to_consume (vars m')" using grow(2) by simp
  qed
qed (use assms(2) in \<open>simp add: mw_left_def\<close>)

definition mw_inv :: "int \<Rightarrow> int \<Rightarrow> nat \<Rightarrow> nat \<Rightarrow> (mw_cond, mw, mw_pc) conf \<Rightarrow> bool" where
  "mw_inv total_items max_buf_size nm n m \<longleftrightarrow> accounted total_items max_buf_size (settled nm m) \<and> checked total_items max_buf_size m
     \<and> mw_owed total_items max_buf_size nm m \<and> mw_left total_items nm n m"

lemma mw_inv_reach:
  assumes "reach n (mw_code total_items max_buf_size nm) (mw_main nm) m" "0 \<le> total_items" "0 \<le> max_buf_size"
  shows "mw_inv total_items max_buf_size nm n m"
  using assms(1)
proof (rule mw.reach_invariant [OF _ mw_main_protected])
  show "mw_inv total_items max_buf_size nm n (mw_main nm)"
    using assms(2,3) by (simp add: mw_inv_def mw_main_def settled_def accounted_def checked_def mw_owed_def mw_left_def is_master_def)
next
  fix m m'
  assume "step n (mw_code total_items max_buf_size nm) m m'" "protected n (mw_code total_items max_buf_size nm) mw_crit m"
    "mw_inv total_items max_buf_size nm n m"
  then show "mw_inv total_items max_buf_size nm n m'"
    unfolding mw_inv_def by (auto intro: mw_data_step mw_checked_step mw_owed_step mw_left_step)
qed

lemma rest_out: "\<exists>ps. out (rest nm t p s) = out s @ ps"
  by (cases p) (simp_all add: rest_def print_produced_def print_consumed_def)

lemma settled_prefix: "\<exists>ps. out (settled nm m) = out (vars m) @ ps"
  by (cases "owner m") (simp_all add: settled_def rest_out)

lemma settled_counts:
  "item_to_consume (vars m) \<le> item_to_consume (settled nm m)" "item_to_produce (vars m) \<le> item_to_produce (settled nm m)"
  by (cases "owner m"; cases "pcs m (the (owner m))"; simp add: settled_def rest_def print_produced_def print_consumed_def)+

lemma settled_consumed:
  "item_to_consume (vars m) = item_to_consume (settled nm m) \<Longrightarrow> consumed (out (settled nm m)) = consumed (out (vars m))"
  by (cases "owner m"; cases "pcs m (the (owner m))"; simp add: settled_def rest_def print_produced_def print_consumed_def)

lemma upto_prefix: "xs @ ys = [0..k - 1] \<Longrightarrow> xs = [0..int (length xs) - 1]"
proof -
  assume a: "xs @ ys = [0..k - 1]"
  then have l: "length xs \<le> length [0..k - 1]" by (metis length_append le_add1)
  have "xs = take (length xs) [0..k - 1]" using a by (metis append_eq_conv_conj)
  also have "\<dots> = [0..int (length xs) - 1]"
    using l by (intro nth_equalityI) (auto simp: nth_upto)
  finally show ?thesis .
qed

lemma mw_buffer_in_range:
  assumes "protected n (mw_code total_items max_buf_size nm) mw_crit m" "mw_inv total_items max_buf_size nm n m" "t < n"
  shows "pcs m t = M_store \<Longrightarrow> 0 \<le> curr_buf_size (vars m) \<and> curr_buf_size (vars m) < max_buf_size"
    and "pcs m t = W_print \<Longrightarrow> 0 \<le> curr_buf_size (vars m)"
proof -
  assume p: "pcs m t = M_store"
  then have o: "owner m = Some t" using assms(1,3) by (simp add: protected_def)
  then show "0 \<le> curr_buf_size (vars m) \<and> curr_buf_size (vars m) < max_buf_size"
    using assms(2) p by (simp add: mw_inv_def accounted_def checked_def settled_def rest_def)
next
  assume p: "pcs m t = W_print"
  then have o: "owner m = Some t" using assms(1,3) by (simp add: protected_def)
  then show "0 \<le> curr_buf_size (vars m)"
    using assms(2) p by (simp add: mw_inv_def accounted_def settled_def rest_def print_consumed_def)
qed

lemma mw_all_consumed:
  assumes "mw_inv total_items max_buf_size nm n m" "total_items \<le> item_to_consume (vars m)"
  shows "mset (consumed (out (vars m))) = mset [0..total_items - 1]"
proof -
  let ?s = "settled nm m"
  have a: "accounted total_items max_buf_size ?s" using assms(1) by (simp add: mw_inv_def)
  then have b: "item_to_consume ?s = total_items" "curr_buf_size ?s = 0" "item_to_produce ?s = total_items" "item_to_consume (vars m) = item_to_consume ?s"
    using accounted_size [OF a] assms(2) settled_counts [of m nm] by (auto simp: accounted_def)
  have "mset (consumed (out ?s)) = mset [0..total_items - 1]" using a b(2,3) by (simp add: accounted_def)
  then show ?thesis using settled_consumed [OF b(4)] by simp
qed

lemma accounted_range: "accounted total_items max_buf_size s \<Longrightarrow> 0 \<le> item_to_produce s \<and> item_to_produce s \<le> total_items"
  by (simp add: accounted_def)

lemma accounted_distinct:
  assumes "accounted total_items max_buf_size s"
  shows "distinct (consumed (out s))"
proof -
  have "mset (consumed (out s) @ map (buffer s) [0..curr_buf_size s - 1]) = mset [0..item_to_produce s - 1]"
    using assms by (simp add: accounted_def)
  then have "distinct (consumed (out s) @ map (buffer s) [0..curr_buf_size s - 1])"
    using mset_eq_imp_distinct_iff by (metis distinct_upto)
  then show ?thesis by simp
qed

text \<open>
  C23. Masters and workers hand every item over exactly once: in every interleaving of any
  number of masters and workers, the items are produced in the order 0, 1, 2, ..., none is
  consumed twice, whenever the mutex is free the items consumed and those in the buffer
  together are the items produced, the buffer is accessed only within its bounds, and when a
  worker has returned every item below the total has been consumed.
\<close>

theorem master_worker_exactly_once:
  assumes "reach n (mw_code total_items max_buf_size nm) (mw_main nm) m" "0 \<le> total_items" "0 \<le> max_buf_size"
  shows "(\<exists>k \<le> total_items. produced (out (vars m)) = [0..k - 1]) \<and> distinct (consumed (out (vars m)))
    \<and> (owner m = None \<longrightarrow> mset (consumed (out (vars m))) + mset (map (buffer (vars m)) [0..curr_buf_size (vars m) - 1])
         = mset (produced (out (vars m))))
    \<and> (\<forall>t < n. pcs m t = M_store \<longrightarrow> 0 \<le> curr_buf_size (vars m) \<and> curr_buf_size (vars m) < max_buf_size)
    \<and> (\<forall>t < n. pcs m t = W_print \<longrightarrow> 0 \<le> curr_buf_size (vars m))
    \<and> (\<forall>t < n. pcs m t = W_return \<longrightarrow> mset (consumed (out (vars m))) = mset [0..total_items - 1])"
proof -
  let ?s = "settled nm m"
  have p: "protected n (mw_code total_items max_buf_size nm) mw_crit m" by (rule mw.protected_reach [OF assms(1) mw_main_protected])
  have i: "mw_inv total_items max_buf_size nm n m" by (rule mw_inv_reach [OF assms])
  then have a: "accounted total_items max_buf_size ?s" by (simp add: mw_inv_def)
  obtain ps where ps: "out ?s = out (vars m) @ ps" using settled_prefix by blast
  have pr: "produced (out (vars m)) @ produced ps = [0..item_to_produce ?s - 1]" using a ps by (simp add: accounted_def)
  have "length (produced (out (vars m))) + length (produced ps) = nat (item_to_produce ?s)" using arg_cong [OF pr, of length] by simp
  then have "int (length (produced (out (vars m)))) \<le> total_items" using accounted_range [OF a] by linarith
  then have "\<exists>k \<le> total_items. produced (out (vars m)) = [0..k - 1]" using upto_prefix [OF pr] by blast
  moreover have "distinct (consumed (out ?s))" by (rule accounted_distinct [OF a])
  then have "distinct (consumed (out (vars m)))" using ps by simp
  moreover have "owner m = None \<longrightarrow> mset (consumed (out (vars m))) + mset (map (buffer (vars m)) [0..curr_buf_size (vars m) - 1])
      = mset (produced (out (vars m)))" using a by (auto simp: accounted_def settled_def)
  moreover have "mset (consumed (out (vars m))) = mset [0..total_items - 1]" if "t < n" "pcs m t = W_return" for t
    using mw_all_consumed [OF i] i that by (auto simp: mw_inv_def mw_left_def)
  ultimately show ?thesis using mw_buffer_in_range [OF p i] by blast
qed

theorem master_worker_exactly_once_witness:
  "\<exists>m. fires 2 (mw_code 1 1 1) (replicate 10 (Run 0) @ replicate 10 (Run 1)) (mw_main 1) = Some m
    \<and> out (vars m) = [Produced 0 0, Consumed 0 0] \<and> mset (consumed (out (vars m))) = mset [0..1 - 1]"
proof -
  obtain m where m: "fires 2 (mw_code 1 1 1) (replicate 10 (Run 0) @ replicate 10 (Run 1)) (mw_main 1) = Some m"
    "out (vars m) = [Produced 0 0, Consumed 0 0]" "pcs m 1 = W_return"
    by (simp add: numeral_eq_Suc mw_main_def print_produced_def print_consumed_def)
  note master_worker_exactly_once [OF fires_reach [OF m(1) reach.start]]
  then have "\<forall>t < 2. pcs m t = W_return \<longrightarrow> mset (consumed (out (vars m))) = mset [0..1 - 1]" by auto
  then show ?thesis using m by fastforce
qed

text \<open>
  C24. The threads cannot all get stuck: with at least one master, one worker and one slot in
  the buffer, in a reachable state in which every thread has returned or is asleep, none is
  asleep.
\<close>

theorem master_worker_no_deadlock:
  assumes "reach n (mw_code total_items max_buf_size nm) (mw_main nm) m" "0 \<le> total_items" "0 < max_buf_size" "0 < nm" "nm < n"
    and "\<And>t. t < n \<Longrightarrow> pcs m t = M_return \<or> pcs m t = W_return \<or> t \<in> queue m Fill \<or> t \<in> queue m Empty"
  shows "\<forall>t < n. pcs m t = M_return \<or> pcs m t = W_return"
proof -
  have p: "protected n (mw_code total_items max_buf_size nm) mw_crit m" by (rule mw.protected_reach [OF assms(1) mw_main_protected])
  have i: "mw_inv total_items max_buf_size nm n m" using mw_inv_reach [OF assms(1,2)] assms(3) by simp
  have w: "pcs m t = W_waiting" if "t \<in> queue m Fill" for t using mw.protected_queue [OF p that] by (cases "pcs m t") auto
  have e: "pcs m t = M_waiting" if "t \<in> queue m Empty" for t using mw.protected_queue [OF p that] by (cases "pcs m t") auto
  have "owner m \<noteq> Some t" for t using p assms(6) [of t] w [of t] e [of t] by (auto simp: protected_def)
  then have o: "owner m = None" by (cases "owner m") auto
  then have s: "settled nm m = vars m" by (simp add: settled_def)
  have a: "accounted total_items max_buf_size (vars m)" using i s by (simp add: mw_inv_def)
  have f: "queue m Fill \<noteq> {} \<Longrightarrow> curr_buf_size (vars m) = 0 \<and> item_to_consume (vars m) < total_items"
    and g: "queue m Empty \<noteq> {} \<Longrightarrow> max_buf_size \<le> curr_buf_size (vars m) \<and> item_to_produce (vars m) < total_items"
    using i o s by (auto simp: mw_inv_def mw_owed_def)
  have "is_master (pcs m 0)" "\<not> is_master (pcs m nm)" using i assms(4,5) by (auto simp: mw_inv_def mw_left_def)
  then have m: "pcs m 0 = M_return \<or> queue m Empty \<noteq> {}" and k: "pcs m nm = W_return \<or> queue m Fill \<noteq> {}"
    using assms(4,5) assms(6) [of 0] assms(6) [of nm] w [of 0] e [of nm] by (auto simp: is_master_def)
  have l: "pcs m 0 = M_return \<longrightarrow> total_items \<le> item_to_produce (vars m)" "pcs m nm = W_return \<longrightarrow> total_items \<le> item_to_consume (vars m)"
    using i assms(4,5) by (auto simp: mw_inv_def mw_left_def)
  have "queue m Fill = {} \<and> queue m Empty = {}"
    using f g m k l accounted_size [OF a] accounted_range [OF a] assms(3) by (cases "queue m Fill = {}"; cases "queue m Empty = {}") auto
  then show ?thesis using assms(6) by blast
qed

theorem master_worker_no_deadlock_witness:
  "\<exists>m. fires 2 (mw_code 1 1 1) (replicate 4 (Run 1) @ replicate 10 (Run 0) @ replicate 9 (Run 1)) (mw_main 1) = Some m
    \<and> (\<forall>t < 2. pcs m t = M_return \<or> pcs m t = W_return)"
proof -
  obtain m where m: "fires 2 (mw_code 1 1 1) (replicate 4 (Run 1) @ replicate 10 (Run 0) @ replicate 9 (Run 1)) (mw_main 1) = Some m"
    "pcs m 0 = M_return" "pcs m 1 = W_return"
    by (simp add: numeral_eq_Suc mw_main_def print_produced_def print_consumed_def)
  have "\<forall>t < 2. pcs m t = M_return \<or> pcs m t = W_return"
    by (rule master_worker_no_deadlock [OF fires_reach [OF m(1) reach.start]]) (use m(2,3) in \<open>auto simp: less_2_cases_iff\<close>)
  then show ?thesis using m(1) by blast
qed

end
