(* ===== verification/Pth_Barber.thy ===== *)
theory Pth_Barber
  imports Pth_Monitor
begin

text \<open>
  The sleeping barber of \<^verbatim>\<open>barbershop_pthread.c\<close>: thread 0 is the barber, the
  others are customers.  With at least one chair the waiting room is never over-full and the
  barber never serves a customer who is not there, and everyone goes home; without chairs the
  barber can be left asleep for ever.
\<close>

datatype notice = Serving | No_more | Here nat | Leaving nat | Waits nat | Got_haircut nat

record shop =
  waiting :: int
  customer_coming :: int
  notices :: "notice list"

datatype shop_cond = Customer_ready | Barber_ready

datatype shop_pc =
    B_lock | B_while | B_wait | B_waiting | B_dec | B_signal | B_print | B_unlock | B_if_coming | B_if_waiting | B_no_more | B_return
  | C_lock | C_here | C_if | C_leaving | C_gone | C_leave_unlock | C_inc | C_dec | C_waits | C_signal | C_wait | C_waiting
  | C_haircut | C_unlock | C_return

definition say :: "notice \<Rightarrow> shop \<Rightarrow> shop" where
  "say x s = s\<lparr>notices := notices s @ [x]\<rparr>"

primrec shop_code :: "int \<Rightarrow> tid \<Rightarrow> shop_pc \<Rightarrow> (shop_cond, shop, shop_pc) instr" where
  "shop_code chairs t B_lock = Lock B_while"
| "shop_code chairs t B_while = Test (\<lambda>s. waiting s = 0 \<and> customer_coming s > 0) B_wait B_dec"
| "shop_code chairs t B_wait = Wait Customer_ready B_waiting"
| "shop_code chairs t B_waiting = Waiting Customer_ready B_while"
| "shop_code chairs t B_dec = Set (\<lambda>s. s\<lparr>waiting := waiting s - 1\<rparr>) B_signal"
| "shop_code chairs t B_signal = Signal Barber_ready B_print"
| "shop_code chairs t B_print = Set (say Serving) B_unlock"
| "shop_code chairs t B_unlock = Unlock B_if_coming"
| "shop_code chairs t B_if_coming = Test (\<lambda>s. customer_coming s \<le> 0) B_if_waiting B_lock"
| "shop_code chairs t B_if_waiting = Test (\<lambda>s. waiting s = 0) B_no_more B_lock"
| "shop_code chairs t B_no_more = Set (say No_more) B_return"
| "shop_code chairs t B_return = Return"
| "shop_code chairs t C_lock = Lock C_here"
| "shop_code chairs t C_here = Set (say (Here (t - 1))) C_if"
| "shop_code chairs t C_if = Test (\<lambda>s. waiting s = chairs) C_leaving C_inc"
| "shop_code chairs t C_leaving = Set (say (Leaving (t - 1))) C_gone"
| "shop_code chairs t C_gone = Set (\<lambda>s. s\<lparr>customer_coming := customer_coming s - 1\<rparr>) C_leave_unlock"
| "shop_code chairs t C_leave_unlock = Unlock C_return"
| "shop_code chairs t C_inc = Set (\<lambda>s. s\<lparr>waiting := waiting s + 1\<rparr>) C_dec"
| "shop_code chairs t C_dec = Set (\<lambda>s. s\<lparr>customer_coming := customer_coming s - 1\<rparr>) C_waits"
| "shop_code chairs t C_waits = Set (say (Waits (t - 1))) C_signal"
| "shop_code chairs t C_signal = Signal Customer_ready C_wait"
| "shop_code chairs t C_wait = Wait Barber_ready C_waiting"
| "shop_code chairs t C_waiting = Waiting Barber_ready C_haircut"
| "shop_code chairs t C_haircut = Set (say (Got_haircut (t - 1))) C_unlock"
| "shop_code chairs t C_unlock = Unlock C_return"
| "shop_code chairs t C_return = Return"

text \<open>What \<^verbatim>\<open>main\<close> sets up for \<open>customers\<close> customers.\<close>

definition shop_main :: "nat \<Rightarrow> (shop_cond, shop, shop_pc) conf" where
  "shop_main customers = \<lparr>owner = None, queue = (\<lambda>_. {}),
     vars = \<lparr>waiting = 0, customer_coming = int customers, notices = []\<rparr>,
     pcs = (\<lambda>t. if t = 0 then B_lock else C_lock)\<rparr>"

section \<open>The discipline\<close>

primrec shop_crit :: "shop_pc \<Rightarrow> bool" where
  "shop_crit B_lock = False" | "shop_crit B_while = True" | "shop_crit B_wait = True" | "shop_crit B_waiting = False"
| "shop_crit B_dec = True" | "shop_crit B_signal = True" | "shop_crit B_print = True" | "shop_crit B_unlock = True"
| "shop_crit B_if_coming = False" | "shop_crit B_if_waiting = False" | "shop_crit B_no_more = False" | "shop_crit B_return = False"
| "shop_crit C_lock = False" | "shop_crit C_here = True" | "shop_crit C_if = True" | "shop_crit C_leaving = True" | "shop_crit C_gone = True"
| "shop_crit C_leave_unlock = True" | "shop_crit C_inc = True" | "shop_crit C_dec = True" | "shop_crit C_waits = True"
| "shop_crit C_signal = True" | "shop_crit C_wait = True" | "shop_crit C_waiting = False" | "shop_crit C_haircut = True"
| "shop_crit C_unlock = True" | "shop_crit C_return = False"

interpretation shop: monitor n "shop_code chairs" shop_crit for n chairs
proof
  fix t p
  show "disciplined (shop_code chairs) shop_crit t p" by (cases p) (simp_all add: sleep_point_def)
qed

lemma shop_main_protected: "protected n (shop_code chairs) shop_crit (shop_main k)"
  by (simp add: protected_def shop_main_def)

section \<open>Who is where\<close>

definition is_barber :: "shop_pc \<Rightarrow> bool" where
  "is_barber p \<longleftrightarrow> p \<in> {B_lock, B_while, B_wait, B_waiting, B_dec, B_signal, B_print, B_unlock, B_if_coming, B_if_waiting, B_no_more, B_return}"

definition outdoors :: "shop_pc \<Rightarrow> bool" where
  "outdoors p \<longleftrightarrow> p \<in> {C_lock, C_here, C_if, C_leaving, C_gone, C_inc, C_dec}"

definition roles :: "nat \<Rightarrow> (shop_cond, shop, shop_pc) conf \<Rightarrow> bool" where
  "roles n m \<longleftrightarrow> (\<forall>t < n. is_barber (pcs m t) = (t = 0)) \<and> customer_coming (vars m) = cnt n outdoors (pcs m)"

lemma roles_step:
  assumes "step n (shop_code chairs) m m'" "roles n m"
  shows "roles n m'"
  using assms(1)
proof (cases rule: step_cases_act)
  case (act t)
  have b: "is_barber (pcs m' t) = is_barber (pcs m t)"
    using act(2) by (cases "pcs m t") (auto simp: is_barber_def)
  have "is_barber (pcs m' u) = (u = 0)" if "u < n" for u
    using assms(2) b act_other(1) [OF act(2), of u] that by (cases "u = t") (auto simp: roles_def)
  moreover have "customer_coming (vars m') = cnt n outdoors (pcs m')"
    using act assms(2) by (cases "pcs m t") (auto simp: roles_def cnt_upd outdoors_def say_def)
  ultimately show ?thesis by (simp add: roles_def)
qed (use assms(2) in \<open>simp add: roles_def\<close>)

text \<open>The room: what the thread in the critical section knows, and what brings the barber round again.\<close>

definition room :: "int \<Rightarrow> (shop_cond, shop, shop_pc) conf \<Rightarrow> bool" where
  "room chairs m \<longleftrightarrow> 0 \<le> waiting (vars m) \<and> waiting (vars m) \<le> chairs
     \<and> (\<forall>t. owner m = Some t \<longrightarrow>
          (pcs m t = B_wait \<longrightarrow> waiting (vars m) = 0 \<and> customer_coming (vars m) > 0)
        \<and> (pcs m t = B_dec \<longrightarrow> 0 < waiting (vars m))
        \<and> (pcs m t \<in> {C_leaving, C_gone} \<longrightarrow> waiting (vars m) = chairs)
        \<and> (pcs m t = C_inc \<longrightarrow> waiting (vars m) < chairs)
        \<and> (pcs m t = C_dec \<longrightarrow> 0 < waiting (vars m)))"

definition worth :: "(shop_cond, shop, shop_pc) conf \<Rightarrow> bool" where
  "worth m \<longleftrightarrow> (pcs m 0 \<in> {B_lock, B_while, B_wait, B_waiting} \<longrightarrow> 0 < customer_coming (vars m) \<or> 0 < waiting (vars m))"

lemma room_step:
  assumes "step n (shop_code chairs) m m'" "protected n (shop_code chairs) shop_crit m" "roles n m" "room chairs m" "worth m"
  shows "room chairs m'"
  using assms(1)
proof (cases rule: step_cases_act)
  case (act t)
  have o: "owner m = Some t \<longleftrightarrow> shop_crit (pcs m t)" using assms(2) act(1) by (simp add: protected_def)
  have "is_barber (pcs m t) = (t = 0)" using assms(3) act(1) by (simp add: roles_def)
  then have "pcs m t = B_while \<Longrightarrow> t = 0" by (simp add: is_barber_def)
  then have w: "pcs m t = B_while \<Longrightarrow> 0 < customer_coming (vars m) \<or> 0 < waiting (vars m)" using assms(5) by (auto simp: worth_def)
  show ?thesis
  proof (cases "shop_crit (pcs m t)")
    case True
    then have "owner m = Some t" using o by simp
    then show ?thesis using act(2) assms(4) True w by (cases "pcs m t") (auto simp: room_def say_def)
  next
    case False
    then have "owner m \<noteq> Some t" using o by simp
    then show ?thesis using act(2) assms(4) False by (cases "pcs m t") (auto simp: room_def say_def)
  qed
qed (use assms(4) in \<open>simp add: room_def\<close>)

lemma worth_step:
  assumes "step n (shop_code chairs) m m'" "protected n (shop_code chairs) shop_crit m" "roles n m" "0 < chairs" "room chairs m" "worth m"
  shows "worth m'"
  using assms(1)
proof (cases rule: step_cases_act)
  case (act t)
  have o: "owner m = Some t \<longleftrightarrow> shop_crit (pcs m t)" using assms(2) act(1) by (simp add: protected_def)
  have g: "shop_crit (pcs m t) \<Longrightarrow> pcs m t = C_gone \<Longrightarrow> waiting (vars m) = chairs" "pcs m t = C_dec \<Longrightarrow> 0 < waiting (vars m)"
    "0 \<le> waiting (vars m)" using assms(5) o by (auto simp: room_def)
  have z: "is_barber (pcs m t) = (t = 0)" using assms(3) act(1) by (simp add: roles_def)
  show ?thesis
  proof (cases "t = 0")
    case True
    have "pcs m' 0 \<in> {B_lock, B_while, B_wait, B_waiting} \<Longrightarrow> (pcs m 0 \<in> {B_lock, B_while, B_wait, B_waiting}
        \<or> 0 < customer_coming (vars m) \<or> 0 < waiting (vars m)) \<and> vars m' = vars m"
      using act(2) True z g(3) by (cases "pcs m 0") (auto simp: is_barber_def split: if_splits)
    then show ?thesis using assms(6) unfolding worth_def by metis
  next
    case False
    have "0 < customer_coming (vars m) \<or> 0 < waiting (vars m) \<Longrightarrow> 0 < customer_coming (vars m') \<or> 0 < waiting (vars m')"
      using act(2) False z assms(4) g by (cases "pcs m t") (auto simp: is_barber_def say_def)
    then show ?thesis using assms(6) act_other(1) [OF act(2), of 0] False by (simp add: worth_def)
  qed
qed (use assms(6) in \<open>simp add: worth_def\<close>)

section \<open>Sleepers\<close>

lemma shop_asleep:
  assumes "protected n (shop_code chairs) shop_crit m" "t \<in> queue m c"
  shows "t < n" "pcs m t = (if c = Customer_ready then B_waiting else C_waiting)"
  using shop.protected_queue [OF assms] by (cases "pcs m t"; cases c; simp)+

text \<open>The customers who have a chair and have not been called.\<close>

definition seated :: "(shop_cond, shop, shop_pc) conf \<Rightarrow> tid \<Rightarrow> bool" where
  "seated m t \<longleftrightarrow> pcs m t \<in> {C_dec, C_waits, C_signal, C_wait} \<or> pcs m t = C_waiting \<and> t \<in> queue m Barber_ready"

definition called :: "nat \<Rightarrow> (shop_cond, shop, shop_pc) conf \<Rightarrow> bool" where
  "called n m \<longleftrightarrow> cnt n (\<lambda>b. b) (seated m) \<le> waiting (vars m) + of_bool (pcs m 0 = B_signal)"

lemma seated_upd:
  "q \<noteq> C_waiting \<Longrightarrow> seated (goto t q m) = (seated m)(t := q \<in> {C_dec, C_waits, C_signal, C_wait})"
  "seated (goto t C_waiting (enqueue Barber_ready t m)) = (seated m)(t := True)"
  "u \<in> queue m Barber_ready \<Longrightarrow> pcs m u = C_waiting \<Longrightarrow> seated (dequeue Barber_ready u m) = (seated m)(u := False)"
  "seated (dequeue Customer_ready u m) = seated m" "seated (enqueue Customer_ready u m) = seated m"
  "seated (m\<lparr>owner := o'\<rparr>) = seated m" "seated (m\<lparr>vars := x\<rparr>) = seated m"
  by (auto simp: seated_def fun_eq_iff)

lemma seated_wake:
  assumes "protected n (shop_code chairs) shop_crit m" "u \<in> queue m Barber_ready"
  shows "cnt n (\<lambda>b. b) (seated (dequeue Barber_ready u m)) = cnt n (\<lambda>b. b) (seated m) - 1"
  using shop_asleep [OF assms] assms(2) cnt_upd [of u n "\<lambda>b. b" "seated m" False]
  by (simp add: seated_upd) (simp add: seated_def)

lemma seated_none:
  assumes "protected n (shop_code chairs) shop_crit m" "owner m = Some 0" "is_barber (pcs m 0)" "queue m Barber_ready = {}"
  shows "cnt n (\<lambda>b. b) (seated m) = 0"
proof -
  have "\<not> seated m t" if "t < n" for t
  proof
    assume "seated m t"
    then have s: "pcs m t \<in> {C_dec, C_waits, C_signal, C_wait}" using assms(4) by (simp add: seated_def)
    then have "owner m = Some t" using assms(1) that by (auto simp: protected_def)
    then show False using s assms(2,3) by (auto simp: is_barber_def)
  qed
  then show ?thesis by (simp add: cnt_zero)
qed

lemma called_step:
  assumes "step n (shop_code chairs) m m'" "protected n (shop_code chairs) shop_crit m" "roles n m" "room chairs m" "called n m"
  shows "called n m'"
  using assms(1)
proof (cases rule: step_cases_act)
  case (act t)
  have z: "is_barber (pcs m t) = (t = 0)" using assms(3) act(1) by (simp add: roles_def)
  have o: "owner m = Some t \<longleftrightarrow> shop_crit (pcs m t)" using assms(2) act(1) by (simp add: protected_def)
  have up: "cnt n (\<lambda>b. b) (f(t := b)) = cnt n (\<lambda>b. b) f - of_bool (f t) + of_bool b" for b and f :: "tid \<Rightarrow> bool"
    using act(1) by (rule cnt_upd)
  show ?thesis
  proof (cases "pcs m t = B_signal")
    case True
    then have t: "t = 0" "owner m = Some 0" using z o by (auto simp: is_barber_def)
    have nt: "\<not> seated m t" "\<And>u. \<not> seated (dequeue Barber_ready u m) t" using True by (auto simp: seated_def)
    show ?thesis
      using act(2) True t assms(5) up nt seated_wake [OF assms(2)] seated_none [OF assms(2) t(2)] assms(4) z
      by (auto simp: called_def seated_upd room_def)
  next
    case False
    have "of_bool (pcs m' 0 = B_signal) = (of_bool (pcs m 0 = B_signal) :: int) + of_bool (pcs m t = B_dec)"
      using False act(2) z act_other(1) [OF act(2), of 0]
      by (cases "t = 0"; cases "pcs m t") (auto simp: is_barber_def)
    then show ?thesis using False act(2) assms(5) up seated_def [of m t]
      by (cases "pcs m t") (auto simp: called_def seated_upd say_def)
  qed
next
  case (spurious t c)
  then show ?thesis using assms(5) seated_wake [OF assms(2), of t] shop_asleep(2) [OF assms(2) spurious(2)]
    by (cases c) (auto simp: called_def seated_upd)
qed

text \<open>The barber closes when nobody is to come and nobody waits, and sleeps only while someone is still to come.\<close>

definition closing :: "(shop_cond, shop, shop_pc) conf \<Rightarrow> bool" where
  "closing m \<longleftrightarrow> (pcs m 0 \<in> {B_if_waiting, B_no_more, B_return} \<longrightarrow> customer_coming (vars m) \<le> 0)
     \<and> (pcs m 0 \<in> {B_no_more, B_return} \<longrightarrow> waiting (vars m) = 0)"

definition napping :: "(shop_cond, shop, shop_pc) conf \<Rightarrow> bool" where
  "napping m \<longleftrightarrow> (queue m Customer_ready \<noteq> {} \<longrightarrow> waiting (vars m) = 0 \<and> 0 < customer_coming (vars m)
     \<or> (\<exists>t. owner m = Some t \<and> pcs m t \<in> {C_dec, C_waits, C_signal}))"

lemma closing_step:
  assumes "step n (shop_code chairs) m m'" "roles n m" "closing m"
  shows "closing m'"
  using assms(1)
proof (cases rule: step_cases_act)
  case (act t)
  have z: "is_barber (pcs m t) = (t = 0)" using assms(2) act(1) by (simp add: roles_def)
  show ?thesis
  proof (cases "t = 0")
    case True
    then show ?thesis using act(2) z assms(3) by (cases "pcs m 0") (auto simp: closing_def is_barber_def say_def)
  next
    case False
    have "1 \<le> customer_coming (vars m)" if "outdoors (pcs m t)"
      using cnt_ge [of t n outdoors "pcs m"] that act(1) assms(2) by (simp add: roles_def)
    then have "customer_coming (vars m) \<le> 0 \<Longrightarrow> customer_coming (vars m') \<le> 0 \<and> waiting (vars m') = waiting (vars m)"
      using act(2) z False by (cases "pcs m t") (auto simp: is_barber_def outdoors_def say_def)
    then show ?thesis using assms(3) act_other(1) [OF act(2), of 0] False by (auto simp: closing_def)
  qed
qed (use assms(3) in \<open>simp add: closing_def\<close>)

lemma napping_step:
  assumes "step n (shop_code chairs) m m'" "protected n (shop_code chairs) shop_crit m" "roles n m" "0 < chairs" "room chairs m" "napping m"
  shows "napping m'"
  using assms(1)
proof (cases rule: step_cases_act)
  case (act t)
  have o: "owner m = Some t \<longleftrightarrow> shop_crit (pcs m t)" using assms(2) act(1) by (simp add: protected_def)
  have "u = 0" if "u \<in> queue m Customer_ready" for u
  proof -
    have "is_barber (pcs m u) = (u = 0)" using shop_asleep(1) [OF assms(2) that] assms(3) by (simp add: roles_def)
    then show ?thesis using shop_asleep(2) [OF assms(2) that] by (simp add: is_barber_def)
  qed
  then have sig: "u \<in> queue m Customer_ready \<Longrightarrow> queue m Customer_ready = {0} \<and> u = 0" for u by blast
  show ?thesis
  proof (cases "pcs m t = C_signal")
    case True
    have "queue m' Customer_ready = {}" using act(2) sig True by (auto dest: sig)
    then show ?thesis by (simp add: napping_def)
  next
    case False
    show ?thesis
    proof (cases "shop_crit (pcs m t)")
      case True
      then have "owner m = Some t" using o by simp
      then show ?thesis using act(2) assms(4-6) True False by (cases "pcs m t") (auto simp: napping_def room_def say_def)
    next
      case c: False
      then have "owner m \<noteq> Some t" using o by simp
      then show ?thesis using act(2) assms(6) c by (cases "pcs m t") (auto simp: napping_def say_def)
    qed
  qed
next
  case (spurious t c)
  then show ?thesis using assms(6) by (auto simp: napping_def)
qed

definition shop_inv :: "int \<Rightarrow> nat \<Rightarrow> (shop_cond, shop, shop_pc) conf \<Rightarrow> bool" where
  "shop_inv chairs n m \<longleftrightarrow> roles n m \<and> room chairs m \<and> worth m \<and> called n m \<and> closing m \<and> napping m"

lemma cnt_customers: "cnt (Suc k) outdoors (\<lambda>t. if t = 0 then B_lock else C_lock) = int k"
proof -
  have "cnt (Suc k) outdoors (\<lambda>t. if t = 0 then B_lock else C_lock) = (\<Sum>t<k. 1)"
    unfolding cnt_def by (subst sum.lessThan_Suc_shift) (simp add: outdoors_def)
  then show ?thesis by simp
qed

lemma shop_inv_reach:
  assumes "reach (Suc k) (shop_code chairs) (shop_main k) m" "0 < chairs" "0 < k"
  shows "shop_inv chairs (Suc k) m"
  using assms(1)
proof (rule shop.reach_invariant [OF _ shop_main_protected])
  have "cnt (Suc k) (\<lambda>b. b) (seated (shop_main k)) = 0" by (simp add: cnt_zero seated_def shop_main_def)
  then show "shop_inv chairs (Suc k) (shop_main k)"
    using assms(2,3) cnt_customers [of k]
    by (simp add: shop_inv_def roles_def room_def worth_def called_def closing_def napping_def)
       (simp add: shop_main_def is_barber_def)
next
  fix m m'
  assume "step (Suc k) (shop_code chairs) m m'" "protected (Suc k) (shop_code chairs) shop_crit m" "shop_inv chairs (Suc k) m"
  then show "shop_inv chairs (Suc k) m'" using assms(2)
    unfolding shop_inv_def by (auto intro: roles_step room_step worth_step called_step closing_step napping_step)
qed



text \<open>
  C26. With at least one chair and one customer nobody is left behind: in a reachable state in
  which every thread has returned or is asleep, every thread has returned.
\<close>

theorem barber_shop_closes:
  assumes "reach (Suc k) (shop_code chairs) (shop_main k) m" "0 < chairs" "0 < k"
    and "\<And>t. t \<le> k \<Longrightarrow> pcs m t = B_return \<or> pcs m t = C_return \<or> t \<in> queue m Customer_ready \<or> t \<in> queue m Barber_ready"
  shows "\<forall>t \<le> k. pcs m t = B_return \<or> pcs m t = C_return"
proof -
  have i: "shop_inv chairs (Suc k) m" by (rule shop_inv_reach [OF assms(1-3)])
  have p: "protected (Suc k) (shop_code chairs) shop_crit m" by (rule shop.protected_reach [OF assms(1) shop_main_protected])
  have q: "pcs m t \<in> {B_return, C_return, B_waiting, C_waiting}" if "t \<le> k" for t
    using assms(4) [OF that] shop_asleep(2) [OF p, of t] by fastforce
  have "owner m \<noteq> Some t" for t using p q [of t] by (auto simp: protected_def)
  then have o: "owner m = None" by (cases "owner m") auto
  have "cnt (Suc k) outdoors (pcs m) = 0" using q by (fastforce simp: cnt_zero outdoors_def less_Suc_eq_le)
  then have "customer_coming (vars m) = 0" using i by (simp add: shop_inv_def roles_def)
  then have c: "queue m Customer_ready = {}" using i o by (auto simp: shop_inv_def napping_def)
  have "is_barber (pcs m 0)" using i by (simp add: shop_inv_def roles_def)
  then have "pcs m 0 = B_return" using assms(4) [of 0] c shop_asleep(2) [OF p, of 0 Barber_ready] by (auto simp: is_barber_def)
  then have "cnt (Suc k) (\<lambda>b. b) (seated m) \<le> 0" using i by (simp add: shop_inv_def called_def closing_def)
  then have "cnt (Suc k) (\<lambda>b. b) (seated m) = 0" using cnt_nonneg [of "Suc k" "\<lambda>b. b" "seated m"] by linarith
  then have "\<not> seated m t" if "t \<le> k" for t using that by (simp add: cnt_zero)
  then have "queue m Barber_ready = {}" using shop_asleep [OF p, of _ Barber_ready] by (fastforce simp: seated_def)
  then show ?thesis using assms(4) c by blast
qed

theorem barber_shop_closes_witness:
  "\<exists>m. fires 2 (shop_code 1) (replicate 8 (Run 1) @ replicate 3 (Run 0) @ [Pick 0 1] @ replicate 5 (Run 0) @ replicate 3 (Run 1)) (shop_main 1)
      = Some m \<and> notices (vars m) = [Here 0, Waits 0, Serving, No_more, Got_haircut 0]
    \<and> (\<forall>t \<le> 1. pcs m t = B_return \<or> pcs m t = C_return)"
proof -
  obtain m where m: "fires (Suc 1) (shop_code 1) (replicate 8 (Run 1) @ replicate 3 (Run 0) @ [Pick 0 1] @ replicate 5 (Run 0)
      @ replicate 3 (Run 1)) (shop_main 1) = Some m" "pcs m 0 = B_return" "pcs m 1 = C_return"
    "notices (vars m) = [Here 0, Waits 0, Serving, No_more, Got_haircut 0]"
    by (simp add: numeral_eq_Suc shop_main_def say_def)
  have "\<forall>t \<le> 1. pcs m t = B_return \<or> pcs m t = C_return"
    by (rule barber_shop_closes [OF fires_reach [OF m(1) reach.start]]) (use m(2,3) in \<open>auto simp: le_Suc_eq\<close>)
  then show ?thesis using m by (simp add: numeral_2_eq_2)
qed

text \<open>
  C27. Without chairs the barber may wait for ever: with no chair and one customer there is a
  run after which the customer has left, the barber is asleep, and nothing but a spurious
  wakeup can happen any more.
\<close>

theorem barber_waits_forever_without_chairs:
  "\<exists>m. fires 2 (shop_code 0) (replicate 3 (Run 0) @ replicate 6 (Run 1)) (shop_main 1) = Some m \<and> pcs m 1 = C_return
    \<and> 0 \<in> queue m Customer_ready \<and> {m'. step 2 (shop_code 0) m m'} = {dequeue Customer_ready 0 m}"
proof -
  obtain m where m: "fires 2 (shop_code 0) (replicate 3 (Run 0) @ replicate 6 (Run 1)) (shop_main 1) = Some m" "pcs m 1 = C_return"
    "pcs m 0 = B_waiting" "queue m Customer_ready = {0}" "queue m Barber_ready = {}"
    by (simp add: numeral_eq_Suc shop_main_def say_def)
  have "m' = dequeue Customer_ready 0 m" if "step 2 (shop_code 0) m m'" for m'
    using that
  proof (cases rule: step_cases_act)
    case (act t)
    then consider "t = 0" | "t = 1" by linarith
    then show ?thesis using act(2) m(2-4) by cases simp_all
  next
    case (spurious t c)
    then show ?thesis using m(4,5) by (cases c) auto
  qed
  moreover have q: "0 \<in> queue m Customer_ready" using m(4) by simp
  moreover have "step 2 (shop_code 0) m (dequeue Customer_ready 0 m)" using q by (intro step.spurious) simp_all
  ultimately show ?thesis using m(1,2) by blast
qed

end
