(* ===== verification/Xv6_Path.thy ===== *)
theory Xv6_Path
  imports Xv6_Fs
begin

text \<open>
  Path names: the loop of \<^verbatim>\<open>namex\<close>, which peels elements off the path with
  \<^verbatim>\<open>skipelem\<close>, walks the list of the path's components.
\<close>

section \<open>The components of a path\<close>

fun splits :: "'a \<Rightarrow> 'a list \<Rightarrow> 'a list list" where
  "splits x [] = [[]]"
| "splits x (y # ys) = (if y = x then [] # splits x ys else (y # hd (splits x ys)) # tl (splits x ys))"

definition components :: "u8 list \<Rightarrow> u8 list list" where
  "components path = filter (\<lambda>e. e \<noteq> []) (splits SLASH (takeWhile (\<lambda>c. c \<noteq> 0) path))"

text \<open>The name buffer after an element was copied into it: cut off at \<open>DIRSIZ\<close>, with a terminator if there is room.\<close>

definition dirname :: "u8 list \<Rightarrow> u8 list" where
  "dirname e = (if length e \<ge> DIRSIZ then take DIRSIZ e else e @ [0])"

primrec walk_names ::
  "'z kfs_scheme env \<Rightarrow> bool \<Rightarrow> u8 list list \<Rightarrow> nat \<Rightarrow> u8 list \<Rightarrow> ('z kfs_scheme, (nat \<times> u8 list) option) op" where
  "walk_names E par [] ip name = (if par then seq (iput E ip) (ret None) else ret (Some (ip, name)))"
| "walk_names E par (e # es) ip name =
     seq (ilock E (Some ip)) (
     bind (gets (\<lambda>s. i_type (inodes s ip))) (\<lambda>t.
     if t \<noteq> T_DIR then seq (iunlockput E ip) (ret None)
     else if par \<and> es = [] then seq (iunlock (Some ip)) (ret (Some (ip, e)))
     else bind (dirlookup E ip e) (\<lambda>found.
       case found of
         None \<Rightarrow> seq (iunlockput E ip) (ret None)
       | Some (next, _) \<Rightarrow> seq (iunlockput E ip) (walk_names E par es next e))))"

section \<open>One element\<close>

lemma splits_ne [simp]: "splits x ys \<noteq> []"
  by (induction ys) auto

lemma splits_span: "x \<notin> set e \<Longrightarrow> splits x (e @ x # ys) = e # splits x ys" "x \<notin> set e \<Longrightarrow> splits x e = [e]"
  by (induction e) auto

lemma components_slash: "components (SLASH # p) = components p"
  by (simp add: components_def SLASH_def)

lemma components_skip: "components (dropWhile (\<lambda>c. c = SLASH) p) = components p"
  by (induction p) (auto simp: components_slash)

lemma components_end: "first_byte p = 0 \<Longrightarrow> components p = []"
  by (cases p) (auto simp: components_def first_byte_def)

lemma take_cstring:
  "r = [] \<or> hd r = SLASH \<or> hd r = 0 \<Longrightarrow> takeWhile (\<lambda>c. c \<noteq> 0) r = [] \<or> (\<exists>r'. takeWhile (\<lambda>c. c \<noteq> 0) r = SLASH # r')"
  by (cases r) (auto simp: SLASH_def)

lemma components_cons:
  assumes "first_byte p \<noteq> 0" "first_byte p \<noteq> SLASH"
  shows "components p = takeWhile (\<lambda>c. c \<noteq> SLASH \<and> c \<noteq> 0) p # components (dropWhile (\<lambda>c. c \<noteq> SLASH \<and> c \<noteq> 0) p)"
proof -
  let ?P = "\<lambda>c. c \<noteq> SLASH \<and> c \<noteq> 0" and ?Z = "\<lambda>c :: u8. c \<noteq> 0"
  let ?e = "takeWhile ?P p" and ?r = "dropWhile ?P p"
  have e: "SLASH \<notin> set ?e" "\<forall>c \<in> set ?e. c \<noteq> 0" using set_takeWhileD by fastforce+
  have ne: "?e \<noteq> []" using assms by (cases p) (auto simp: first_byte_def)
  have t: "takeWhile ?Z p = ?e @ takeWhile ?Z ?r"
    using takeWhile_append2 [of ?e ?Z ?r] e(2) by simp
  have "?r = [] \<or> hd ?r = SLASH \<or> hd ?r = 0" using hd_dropWhile [of ?P p] by auto
  then consider "takeWhile ?Z ?r = []" | r' where "takeWhile ?Z ?r = SLASH # r'" using take_cstring [of ?r] by blast
  then show ?thesis
  proof cases
    case 1
    then show ?thesis using t ne splits_span(2) [OF e(1)] by (simp add: components_def del: takeWhile_eq_Nil_iff)
  next
    case (2 r')
    then have "splits SLASH (takeWhile ?Z p) = ?e # splits SLASH r'" using t splits_span(1) [OF e(1)] by simp
    then show ?thesis using 2 ne by (simp add: components_def del: takeWhile_eq_Nil_iff)
  qed
qed

lemma first_skip: "first_byte (dropWhile (\<lambda>c. c = SLASH) p) \<noteq> SLASH"
  by (induction p) (auto simp: first_byte_def SLASH_def)

lemma skipelem_components:
  "skipelem path = (case components path of [] \<Rightarrow> None
     | e # es \<Rightarrow> Some (dropWhile (\<lambda>c. c = SLASH) (dropWhile (\<lambda>c. c \<noteq> SLASH \<and> c \<noteq> 0) (dropWhile (\<lambda>c. c = SLASH) path)), dirname e))"
  "skipelem path = Some (path', name) \<Longrightarrow> components path' = tl (components path) \<and> (first_byte path' = 0) = (components path' = [])"
proof -
  let ?p = "dropWhile (\<lambda>c. c = SLASH) path"
  show a: "skipelem path = (case components path of [] \<Rightarrow> None
     | e # es \<Rightarrow> Some (dropWhile (\<lambda>c. c = SLASH) (dropWhile (\<lambda>c. c \<noteq> SLASH \<and> c \<noteq> 0) ?p), dirname e))"
    using components_skip [of path] components_end [of ?p] components_cons [of ?p] first_skip [of path]
    by (auto simp: skipelem_def Let_def dirname_def)
  assume s: "skipelem path = Some (path', name)"
  then have p': "path' = dropWhile (\<lambda>c. c = SLASH) (dropWhile (\<lambda>c. c \<noteq> SLASH \<and> c \<noteq> 0) ?p)" "first_byte ?p \<noteq> 0"
    by (auto simp: skipelem_def Let_def split: if_splits)
  have "components path' = components (dropWhile (\<lambda>c. c \<noteq> SLASH \<and> c \<noteq> 0) ?p)" unfolding p'(1) by (rule components_skip)
  moreover have "components path = components ?p" by (rule components_skip [symmetric])
  moreover note components_cons [OF p'(2) first_skip]
  moreover have "first_byte path' \<noteq> SLASH" unfolding p'(1) by (rule first_skip)
  then have "(first_byte path' = 0) = (components path' = [])"
    using components_end [of path'] components_cons [of path'] by (cases "first_byte path' = 0") auto
  ultimately show "components path' = tl (components path) \<and> (first_byte path' = 0) = (components path' = [])" by simp
qed

text \<open>
  C28. Path lookup walks the components: the loop of \<^verbatim>\<open>namex\<close> on any path, whatever
  slashes it has at the start, in the middle or at the end, ends and does exactly what looking
  up the list of its non-empty components one after the other does, each cut off at
  \<open>DIRSIZ\<close> bytes; the parent variant stops before the last one.
\<close>

theorem namex_walks_components:
  "namex_loop E par path ip name = walk_names E par (map dirname (components path)) ip name"
proof (induction path arbitrary: ip name rule: length_induct)
  case (1 path)
  show ?case
  proof (cases "skipelem path")
    case None
    then have "components path = []" using skipelem_components(1) [of path] by (auto split: list.splits)
    then show ?thesis using None by (simp add: namex_loop.simps)
  next
    case (Some r)
    obtain path' name' where r: "skipelem path = Some (path', name')" using Some by (cases r) auto
    obtain e es where c: "components path = e # es" "name' = dirname e"
      using r skipelem_components(1) [of path] by (auto split: list.splits)
    have n: "components path' = es" "(first_byte path' = 0) = (map dirname es = [])" using skipelem_components(2) [OF r] c by auto
    have "namex_loop E par path' jp nm = walk_names E par (map dirname es) jp nm" for jp nm
      using 1 skipelem_shorter [OF r] n(1) by auto
    then show ?thesis using r c n(2) by (subst namex_loop.simps) (simp cong: if_cong option.case_cong)
  qed
qed

end
