(* ===== verification/Xv6_Bcache.thy ===== *)
theory Xv6_Bcache
  imports Xv6_Demo
begin

text \<open>
  The buffer cache: the doubly linked list is a list of all buffers, most recently released
  first; \<^verbatim>\<open>bget\<close> returns the one buffer of a block or recycles the buffer that has
  been unused longest, and \<^verbatim>\<open>brelse\<close> moves a buffer that is no longer used to the
  front.
\<close>

section \<open>The list\<close>

primrec path :: "(bptr \<Rightarrow> bptr) \<Rightarrow> bptr \<Rightarrow> nat list \<Rightarrow> bool" where
  "path nx a [] \<longleftrightarrow> nx a = Head"
| "path nx a (x # xs) \<longleftrightarrow> nx a = Buf x \<and> path nx (Buf x) xs"

definition dlist :: "'z kbio_scheme \<Rightarrow> nat list \<Rightarrow> bool" where
  "dlist s xs \<longleftrightarrow> distinct xs \<and> path (lnext s) Head xs \<and> path (lprev s) Head (rev xs)"


lemma path_mid: "path nx a (xs @ y # ys) \<Longrightarrow> path nx (Buf y) ys"
  by (induction xs arbitrary: a) auto

lemma path_upd:
  assumes "path nx a xs" "p \<notin> insert a (Buf ` set xs)"
  shows "path (nx(p := q)) a xs"
  using assms by (induction xs arbitrary: a) auto

lemma path_find:
  assumes "path nx a xs" "length xs < n"
  shows "list_find n nx P (nx a) = Some (find P xs)"
  using assms
proof (induction xs arbitrary: a n)
  case Nil
  then show ?case by (cases n) auto
next
  case (Cons x xs)
  then show ?case by (cases n) auto
qed

text \<open>The last node before the end of a path, and the paths after the stores of the two list operations.\<close>

primrec final :: "bptr \<Rightarrow> nat list \<Rightarrow> bptr" where
  "final a [] = a"
| "final a (x # xs) = final (Buf x) xs"

lemma final_snoc [simp]: "final a (xs @ [y]) = Buf y"
  by (induction xs arbitrary: a) auto

lemma final_eq: "final a xs = (if xs = [] then a else Buf (last xs))"
  by (induction xs arbitrary: a) auto

lemma path_snoc:
  assumes "path nx a xs" "distinct xs" "a \<notin> Buf ` set xs" "y \<notin> set xs" "a \<noteq> Buf y" 
  shows "path (nx(final a xs := Buf y, Buf y := Head)) a (xs @ [y])"
  using assms
proof (induction xs arbitrary: a)
  case (Cons x xs)
  have "path (nx(final (Buf x) xs := Buf y, Buf y := Head)) (Buf x) (xs @ [y])"
    by (rule Cons.IH) (use Cons.prems in auto)
  moreover have "final (Buf x) xs \<noteq> a" using Cons.prems by (auto simp: final_eq)
  ultimately show ?case using Cons.prems unfolding append_Cons path.simps final.simps by simp
qed auto

lemma path_cut:
  assumes "path nx a (xs @ y # ys)" "distinct (xs @ y # ys)" "a \<notin> Buf ` set (xs @ y # ys)"
  shows "path (nx(final a xs := nx (Buf y))) a (xs @ ys)"
  using assms
proof (induction xs arbitrary: a)
  case Nil
  show ?case
  proof (cases ys)
    case (Cons z zs)
    have "path (nx(a := nx (Buf y))) (Buf z) zs" by (rule path_upd) (use Nil Cons in auto)
    then show ?thesis using Nil Cons unfolding append_Nil path.simps final.simps Cons by simp
  qed (use Nil in auto)
next
  case (Cons x xs)
  have "path (nx(final (Buf x) xs := nx (Buf y))) (Buf x) (xs @ ys)"
    by (rule Cons.IH) (use Cons.prems in auto)
  moreover have "final (Buf x) xs \<noteq> a" using Cons.prems by (auto simp: final_eq)
  ultimately show ?case using Cons.prems unfolding append_Cons path.simps final.simps by simp
qed

lemma path_prev: "path nx Head (xs @ y # ys) \<Longrightarrow> nx (final Head xs) = Buf y"
proof -
  have "path nx a (xs @ y # ys) \<Longrightarrow> nx (final a xs) = Buf y" for a
    by (induction xs arbitrary: a) auto
  then show "path nx Head (xs @ y # ys) \<Longrightarrow> nx (final Head xs) = Buf y" .
qed

lemma dlist_nodes:
  assumes "dlist s (ys @ b # zs)"
  shows "lnext s (Buf b) = final Head (rev zs)" "lprev s (Buf b) = final Head ys"
proof -
  have n: "path (lnext s) (Buf b) zs" using assms path_mid by (auto simp: dlist_def)
  show "lnext s (Buf b) = final Head (rev zs)" using n by (cases zs) (auto simp: final_eq)
  have "path (lprev s) Head (rev zs @ b # rev ys)" using assms by (simp add: dlist_def)
  then have p: "path (lprev s) (Buf b) (rev ys)" by (rule path_mid)
  show "lprev s (Buf b) = final Head ys" using p by (cases ys rule: rev_cases) (auto simp: final_eq)
qed

lemma dlist_unlink:
  assumes "dlist s (ys @ b # zs)"
  shows "dlist (unlink b s) (ys @ zs)"
proof -
  note n = dlist_nodes [OF assms]
  have d: "distinct (ys @ b # zs)" "path (lnext s) Head (ys @ b # zs)" "path (lprev s) Head (rev zs @ b # rev ys)"
    using assms by (simp_all add: dlist_def)
  have "path ((lnext s)(final Head ys := lnext s (Buf b))) Head (ys @ zs)"
    by (rule path_cut [OF d(2,1)]) auto
  moreover have "path ((lprev s)(final Head (rev zs) := lprev s (Buf b))) Head (rev zs @ rev ys)"
    by (rule path_cut [OF d(3)]) (use d(1) in auto)
  ultimately show ?thesis using n d(1) by (simp add: dlist_def unlink_def set_prev_def set_next_def Let_def)
qed

lemma dlist_link_front:
  assumes "dlist s xs" "b \<notin> set xs"
  shows "dlist (link_front b s) (b # xs)"
proof -
  have d: "distinct xs" "path (lnext s) Head xs" "path (lprev s) Head (rev xs)" using assms(1) by (simp_all add: dlist_def)
  have h: "lnext s Head = final Head (rev xs)" using d(2) by (cases xs) (auto simp: final_eq)
  have "path ((lnext s)(Buf b := lnext s Head, Head := Buf b)) Head (b # xs)"
    using d(2) assms(2) by (cases xs) (auto intro!: path_upd)
  moreover have "path ((lprev s)(final Head (rev xs) := Buf b, Buf b := Head)) Head (rev xs @ [b])"
    by (rule path_snoc [OF d(3)]) (use d(1) assms(2) in auto)
  moreover have "final Head (rev xs) \<noteq> Buf b" using assms(2) hd_in_set [of xs] by (auto simp: final_eq last_rev)
  ultimately show ?thesis using d(1) assms(2) h
    by (simp add: dlist_def link_front_def set_prev_def set_next_def Let_def fun_upd_twist)
qed

lemma dlist_frame [simp]:
  "dlist (upd_slock l f s) xs = dlist s xs" "dlist (upd_buf b g s) xs = dlist s xs" "dlist (held lk s) xs = dlist s xs"
  "dlist (awakened ch s) xs = dlist s xs" "dlist (upd_lock lk h s) xs = dlist s xs"
  by (simp_all add: dlist_def upd_slock_def upd_buf_def upd_lock_def)

lemma link_front_frame [simp]: "bufs (link_front b s) = bufs s" "sleeplocks (link_front b s) = sleeplocks s"
  by (simp_all add: link_front_def set_next_def set_prev_def Let_def)

lemma unlink_frame [simp]: "bufs (unlink b s) = bufs s" "sleeplocks (unlink b s) = sleeplocks s"
  by (simp_all add: unlink_def set_next_def set_prev_def Let_def)

text \<open>
  C29. Initialisation of the buffer cache builds a well-formed circular doubly linked list: it
  runs through all \<open>NBUF\<close> buffers, the last one first, the same in both directions, and
  no buffer is locked.
\<close>

theorem binit_links_all:
  fixes s :: "'z kbio_scheme"
  shows "\<exists>t. binit s = Ok () t \<and> dlist t (rev [0..<NBUF]) \<and> bufs t = bufs s
    \<and> list_all (\<lambda>b. \<not> slocked (sleeplocks t (BufLock b))) [0..<NBUF]"
proof -
  let ?body = "\<lambda>b. seq (initsleeplock (BufLock b) ''buffer'') (modify (link_front b)) :: ('z kbio_scheme, unit) op"
  have loop: "\<exists>t. for_each [0..<n] ?body s = Ok () t \<and> dlist t (rev [0..<n]) \<and> bufs t = bufs s
      \<and> (\<forall>b < n. \<not> slocked (sleeplocks t (BufLock b)))" if "dlist s []" for n and s :: "'z kbio_scheme"
  proof (induction n)
    case 0
    show ?case using that by simp
  next
    case (Suc n)
    then obtain t where t: "for_each [0..<n] ?body s = Ok () t" "dlist t (rev [0..<n])" "bufs t = bufs s"
      "\<forall>b < n. \<not> slocked (sleeplocks t (BufLock b))" by blast
    let ?l = "upd_slock (BufLock n) (\<lambda>_. \<lparr>slocked = False, slname = ''buffer'', slpid = 0\<rparr>)
      (upd_lock (SleepLk (BufLock n)) (\<lambda>_. \<lparr>locked = False, lname = ''sleep lock'', lcpu = None\<rparr>) t)"
    have "?body n t = Ok () (link_front n ?l)" by (simp add: initsleeplock_def initlock_def op_simps)
    then have "for_each [0..<Suc n] ?body s = Ok () (link_front n ?l)" using t(1) by (simp add: for_each_append op_simps)
    moreover have "dlist (link_front n ?l) (rev [0..<Suc n])" using dlist_link_front [of ?l "rev [0..<n]" n] t(2) by simp
    moreover have "bufs (link_front n ?l) = bufs s" "\<forall>b < Suc n. \<not> slocked (sleeplocks (link_front n ?l) (BufLock b))"
      using t(3,4) by (simp_all add: less_Suc_eq upd_slock_def upd_lock_def)
    ultimately show ?case by blast
  qed
  let ?s = "set_next Head Head (set_prev Head Head (upd_lock BcacheLock (\<lambda>_. \<lparr>locked = False, lname = ''bcache'', lcpu = None\<rparr>) s))"
  have "dlist ?s []" by (simp add: dlist_def set_next_def set_prev_def)
  from loop [OF this, of NBUF] show ?thesis
    by (auto simp: binit_def initlock_def op_simps set_next_def set_prev_def upd_lock_def list_all_iff)
qed

section \<open>Sleep locks\<close>

definition slock_taken :: "sleepid \<Rightarrow> int \<Rightarrow> 'z ksleep_scheme \<Rightarrow> 'z ksleep_scheme" where
  "slock_taken l i = upd_slock l (\<lambda>k. k\<lparr>slocked := True, slpid := i\<rparr>)"

definition slock_freed :: "sleepid \<Rightarrow> 'z ksleep_scheme \<Rightarrow> 'z ksleep_scheme" where
  "slock_freed l = upd_slock l (\<lambda>k. k\<lparr>slocked := False, slpid := 0\<rparr>)"

lemma upd_slock_held [simp]:
  "upd_slock l f (held lk s) = held lk (upd_slock l f s)" "cpu_ok (upd_slock l f s) = cpu_ok s"
  "lock_free lk (upd_slock l f s) = lock_free lk s" "mycpu (upd_slock l f s) = mycpu s" "plocks_ok (upd_slock l f s) = plocks_ok s"
  "procs (upd_slock l f s) = procs s"
  by (simp_all add: upd_slock_def)

lemma upd_slock_bufs [simp]: "bufs (upd_slock l f s) = bufs s"
  by (simp add: upd_slock_def)

lemma upd_buf_held [simp]:
  "upd_buf b f (held lk s) = held lk (upd_buf b f s)" "cpu_ok (upd_buf b f s) = cpu_ok s"
  "lock_free lk (upd_buf b f s) = lock_free lk s" "mycpu (upd_buf b f s) = mycpu s" "plocks_ok (upd_buf b f s) = plocks_ok s"
  "procs (upd_buf b f s) = procs s" "sleeplocks (upd_buf b f s) = sleeplocks s" 
  by (simp_all add: upd_buf_def)

lemma acquiresleep_ok:
  assumes "cpu_ok s" "cproc (mycpu s) = Some p" "lock_free (SleepLk l) s" "\<not> slocked (sleeplocks s l)"
  shows "acquiresleep E l s = Ok () (slock_taken l (pid (procs s p)) s)"
proof -
  let ?h = "held (SleepLk l)" and ?s = "upd_slock l (\<lambda>k. k\<lparr>slocked := True\<rparr>) s"
  have c: "curproc (?h ?s) = Ok p (?h ?s)" using assms(1,2) by (intro curproc_ok) (simp_all add: cpu_ok_held)
  have "upd_slock l (\<lambda>k. k\<lparr>slpid := pid (procs s p)\<rparr>) ?s = slock_taken l (pid (procs s p)) s"
    by (simp add: upd_slock_def slock_taken_def)
  then show ?thesis using assms c
    by (simp add: acquiresleep_def op_simps acquire_ok sleep_while_done release_ok slock_taken_def)
qed

lemma releasesleep_ok:
  assumes "plocks_ok s" "lock_free (SleepLk l) s"
  shows "releasesleep l s = Ok () (awakened (Some (ChanSleepLock l)) (slock_freed l s))"
  using assms plocks_okD(1) [OF assms(1)]
  by (simp add: releasesleep_def op_simps acquire_ok release_ok wakeup_held slock_freed_def)

lemma holdingsleep_ok:
  assumes "cpu_ok s" "cproc (mycpu s) = Some p" "lock_free (SleepLk l) s"
  shows "holdingsleep l s = Ok (slocked (sleeplocks s l) \<and> slpid (sleeplocks s l) = pid (procs s p)) s"
proof -
  have "curproc (held (SleepLk l) s) = Ok p (held (SleepLk l) s)"
    using assms(1,2) by (intro curproc_ok) (simp_all add: cpu_ok_held)
  then show ?thesis using assms by (cases "slocked (sleeplocks s l)") (simp_all add: holdingsleep_def op_simps acquire_ok release_ok)
qed

section \<open>Finding a buffer\<close>

definition caches :: "'z kdisk_scheme \<Rightarrow> nat \<Rightarrow> u32 \<Rightarrow> u32 \<Rightarrow> bool" where
  "caches s b dev bno \<longleftrightarrow> bdev (bufs s b) = dev \<and> blockno (bufs s b) = bno"

text \<open>The cache with its buffers in the order \<open>xs\<close>: no two of them hold the same block of a device.\<close>

definition bcache :: "'z kbio_scheme \<Rightarrow> nat list \<Rightarrow> bool" where
  "bcache s xs \<longleftrightarrow> dlist s xs \<and> set xs = {..<NBUF}
     \<and> (\<forall>i < NBUF. \<forall>j < NBUF. bdev (bufs s i) \<noteq> 0 \<longrightarrow> caches s j (bdev (bufs s i)) (blockno (bufs s i)) \<longrightarrow> i = j)"

definition buf_taken :: "nat \<Rightarrow> nat \<Rightarrow> (buf \<Rightarrow> buf) \<Rightarrow> 'z kbio_scheme \<Rightarrow> 'z kbio_scheme" where
  "buf_taken p b f s = slock_taken (BufLock b) (pid (procs s p)) (upd_buf b f s)"

lemma bcache_length: "bcache s xs \<Longrightarrow> length xs < NBUF + 1"
  using distinct_card [of xs] by (auto simp: bcache_def dlist_def)

lemma bget_search:
  assumes "bcache s xs"
  shows "list_find (NBUF + 1) (lnext s) P (lnext s Head) = Some (find P xs)"
    and "list_find (NBUF + 1) (lprev s) P (lprev s Head) = Some (find P (rev xs))"
proof -
  have d: "path (lnext s) Head xs" "path (lprev s) Head (rev xs)" using assms by (simp_all add: bcache_def dlist_def)
  show "list_find (NBUF + 1) (lnext s) P (lnext s Head) = Some (find P xs)"
    by (rule path_find [OF d(1) bcache_length [OF assms]])
  show "list_find (NBUF + 1) (lprev s) P (lprev s Head) = Some (find P (rev xs))"
    by (rule path_find [OF d(2)]) (simp only: length_rev bcache_length [OF assms])
qed

lemma find_in: "find P xs = Some x \<Longrightarrow> P x \<and> x \<in> set xs"
  by (auto simp: find_Some_iff)

lemma buf_taken_frame [simp]:
  "bufs (buf_taken p b f s) = (bufs s)(b := f (bufs s b))" "dlist (buf_taken p b f s) xs = dlist s xs"
  by (simp_all add: buf_taken_def slock_taken_def upd_buf_def upd_slock_def dlist_def)

lemma bcache_cong:
  assumes "bcache s xs" "dlist t ys" "set ys = set xs" "\<And>i. bdev (bufs t i) = bdev (bufs s i) \<and> blockno (bufs t i) = blockno (bufs s i)"
  shows "bcache t ys"
  using assms by (simp add: bcache_def caches_def)

lemma bcache_recycle:
  assumes "bcache s xs" "b < NBUF" "\<And>i. i < NBUF \<Longrightarrow> \<not> caches s i dev bno"
  shows "bcache (buf_taken p b (\<lambda>k. k\<lparr>bdev := dev, blockno := bno, bvalid := False, refcnt := 1\<rparr>) s) xs" (is "bcache ?t xs")
proof -
  have "i = j" if "i < NBUF" "j < NBUF" "bdev (bufs ?t i) \<noteq> 0" "caches ?t j (bdev (bufs ?t i)) (blockno (bufs ?t i))" for i j
  proof (cases "i = b \<or> j = b")
    case True
    then show ?thesis using that assms(3) [of i] assms(3) [of j] by (auto simp: caches_def split: if_splits)
  next
    case False
    then have "caches s j (bdev (bufs s i)) (blockno (bufs s i))" "bdev (bufs s i) \<noteq> 0" using that by (simp_all add: caches_def)
    then show ?thesis using assms(1) that(1,2) unfolding bcache_def by blast
  qed
  then show ?thesis using assms(1) unfolding bcache_def by (auto simp del: buf_taken_frame(1))
qed

text \<open>Unlocked buffers: those a search can return.\<close>

definition unlocked :: "'z kbio_scheme \<Rightarrow> u32 \<Rightarrow> u32 \<Rightarrow> bool" where
  "unlocked s dev bno \<longleftrightarrow> (\<forall>b < NBUF. lock_free (SleepLk (BufLock b)) s
     \<and> (slocked (sleeplocks s (BufLock b)) \<longrightarrow> refcnt (bufs s b) \<noteq> 0 \<and> \<not> caches s b dev bno))"

lemma bget_take:
  assumes "cpu_ok s" "cproc (mycpu s) = Some p" "lock_free BcacheLock s" "lock_free (SleepLk (BufLock b)) s" "\<not> slocked (sleeplocks s (BufLock b))"
  shows "seq (modify (upd_buf b f)) (seq (release BcacheLock) (seq (acquiresleep E (BufLock b)) (ret b))) (held BcacheLock s)
    = Ok b (buf_taken p b f s)"
  using assms acquiresleep_ok [of "upd_buf b f s" p "BufLock b" E] by (simp add: op_simps release_ok buf_taken_def)

lemma bget_ok:
  fixes s :: "'z kbio_scheme"
  assumes "cpu_ok s" "cproc (mycpu s) = Some p" "lock_free BcacheLock s" "bcache s xs" "unlocked s dev bno"
  shows "case find (\<lambda>b. caches s b dev bno) xs of
      Some b \<Rightarrow> (let t = buf_taken p b (\<lambda>k. k\<lparr>refcnt := refcnt k + 1\<rparr>) s
        in bget E dev bno s = Ok b t \<and> bcache t xs \<and> caches t b dev bno)
    | None \<Rightarrow> (case find (\<lambda>b. refcnt (bufs s b) = 0) (rev xs) of
        Some b \<Rightarrow> (let t = buf_taken p b (\<lambda>k. k\<lparr>bdev := dev, blockno := bno, bvalid := False, refcnt := 1\<rparr>) s
          in bget E dev bno s = Ok b t \<and> bcache t xs \<and> caches t b dev bno)
      | None \<Rightarrow> bget E dev bno s = Stop (Panic ''bget: no buffers'') (held BcacheLock s))"
proof -
  let ?h = "held BcacheLock s"
  have start: "bget E dev bno s = (case find (\<lambda>b. caches s b dev bno) xs of
      Some b \<Rightarrow> seq (modify (upd_buf b (\<lambda>k. k\<lparr>refcnt := refcnt k + 1\<rparr>))) (seq (release BcacheLock) (seq (acquiresleep E (BufLock b)) (ret b))) ?h
    | None \<Rightarrow> (case find (\<lambda>b. refcnt (bufs s b) = 0) (rev xs) of None \<Rightarrow> panic ''bget: no buffers'' ?h
      | Some b \<Rightarrow> seq (modify (upd_buf b (\<lambda>k. k\<lparr>bdev := dev, blockno := bno, bvalid := False, refcnt := 1\<rparr>)))
          (seq (release BcacheLock) (seq (acquiresleep E (BufLock b)) (ret b))) ?h))"
  proof -
    note f = bget_search(1) [OF assms(4), of "\<lambda>b. bdev (bufs s b) = dev \<and> blockno (bufs s b) = bno"]
      bget_search(2) [OF assms(4), of "\<lambda>b. refcnt (bufs s b) = 0"]
    show ?thesis
      unfolding bget_def seq_apply [of "acquire BcacheLock"] acquire_ok [OF assms(1,3)] outcome.case bind_apply gets_apply
        held_kbio_fields held_kdisk_fields f caches_def
      by (cases "find (\<lambda>b. bdev (bufs s b) = dev \<and> blockno (bufs s b) = bno) xs"; cases "find (\<lambda>b. refcnt (bufs s b) = 0) (rev xs)")
         (simp_all add: bind_apply f del: list_find.simps One_nat_def add_Suc_right)
  qed
  have xs: "set xs = {..<NBUF}" using assms(4) by (simp add: bcache_def)
  show ?thesis
  proof (cases "find (\<lambda>b. caches s b dev bno) xs")
    case (Some b)
    have b: "caches s b dev bno" "b < NBUF" using find_in [OF Some] xs by auto
    then have "lock_free (SleepLk (BufLock b)) s" "\<not> slocked (sleeplocks s (BufLock b))" using assms(5) by (auto simp: unlocked_def)
    note bget_take [OF assms(1-3) this]
    moreover have "bcache (buf_taken p b (\<lambda>k. k\<lparr>refcnt := refcnt k + 1\<rparr>) s) xs"
      by (rule bcache_cong [OF assms(4)]) (use assms(4) in \<open>auto simp: bcache_def\<close>)
    ultimately show ?thesis using Some start b by (simp add: caches_def)
  next
    case n: None
    then have none: "\<not> caches s i dev bno" if "i < NBUF" for i using that xs by (auto simp: find_None_iff)
    show ?thesis
    proof (cases "find (\<lambda>b. refcnt (bufs s b) = 0) (rev xs)")
      case (Some b)
      have b: "refcnt (bufs s b) = 0" "b < NBUF" using find_in [OF Some] xs by auto
      then have "lock_free (SleepLk (BufLock b)) s" "\<not> slocked (sleeplocks s (BufLock b))" using assms(5) by (auto simp: unlocked_def)
      note bget_take [OF assms(1-3) this] bcache_recycle [OF assms(4) b(2) none, of p]
      then show ?thesis using n Some start by (simp add: caches_def)
    qed (use n start in simp)
  qed
qed

text \<open>
  C30. \<^verbatim>\<open>bget\<close> on a well-formed cache: a block that is cached is found in its buffer,
  which gets one more reference; otherwise the unused buffer that comes last in the list is
  recycled for the block; without an unused buffer it panics.  The buffer it returns is locked
  by the caller, and the cache stays well-formed with the same order, so that no two buffers
  ever hold the same block.
\<close>

theorem bget_returns_the_buffer:
  fixes s :: "'z kbio_scheme"
  assumes "cpu_ok s" "cproc (mycpu s) = Some p" "lock_free BcacheLock s" "bcache s xs" "unlocked s dev bno"
  shows "case find (\<lambda>b. caches s b dev bno) xs of
      Some b \<Rightarrow> (let t = buf_taken p b (\<lambda>k. k\<lparr>refcnt := refcnt k + 1\<rparr>) s
        in bget E dev bno s = Ok b t \<and> bcache t xs \<and> caches t b dev bno)
    | None \<Rightarrow> (case find (\<lambda>b. refcnt (bufs s b) = 0) (rev xs) of
        Some b \<Rightarrow> (let t = buf_taken p b (\<lambda>k. k\<lparr>bdev := dev, blockno := bno, bvalid := False, refcnt := 1\<rparr>) s
          in bget E dev bno s = Ok b t \<and> bcache t xs \<and> caches t b dev bno)
      | None \<Rightarrow> bget E dev bno s = Stop (Panic ''bget: no buffers'') (held BcacheLock s))"
  using assms by (rule bget_ok)

section \<open>Releasing a buffer\<close>

lemma link_front_held [simp]:
  "link_front b (held lk s) = held lk (link_front b s)" "cpu_ok (link_front b s) = cpu_ok s" "lock_free lk (link_front b s) = lock_free lk s"
  "plocks_ok (link_front b s) = plocks_ok s"
  by (simp_all add: link_front_def set_next_def set_prev_def Let_def)

lemma unlink_held [simp]:
  "unlink b (held lk s) = held lk (unlink b s)" "cpu_ok (unlink b s) = cpu_ok s" "lock_free lk (unlink b s) = lock_free lk s"
  "plocks_ok (unlink b s) = plocks_ok s"
  by (simp_all add: unlink_def set_next_def set_prev_def Let_def)

lemma slock_freed_frame [simp]:
  "cpu_ok (slock_freed l s) = cpu_ok s" "lock_free lk (slock_freed l s) = lock_free lk s" "mycpu (slock_freed l s) = mycpu s"
  "\<not> slocked (sleeplocks (slock_freed l s) l)"
  by (simp_all add: slock_freed_def upd_slock_def)

definition moved_front :: "nat \<Rightarrow> 'z kbio_scheme \<Rightarrow> 'z kbio_scheme" where
  "moved_front b s = link_front b (unlink b s)"

lemma bcache_moved_front:
  assumes "bcache s xs" "b < NBUF"
  shows "bcache (moved_front b s) (b # remove1 b xs)"
proof -
  have b: "b \<in> set xs" "distinct xs" "dlist s xs" using assms by (auto simp: bcache_def dlist_def)
  then obtain ys zs where x: "xs = ys @ b # zs" "b \<notin> set ys" by (metis split_list_first)
  then have r: "remove1 b xs = ys @ zs" by (simp add: remove1_append)
  have "dlist (unlink b s) (ys @ zs)" using dlist_unlink b(3) x(1) by metis
  then have "dlist (moved_front b s) (b # ys @ zs)" unfolding moved_front_def using b(2) x by (intro dlist_link_front) auto
  then show ?thesis using x r by (intro bcache_cong [OF assms(1)]) (auto simp: moved_front_def)
qed

text \<open>The state after \<^verbatim>\<open>brelse\<close> of a buffer whose lock the caller holds.\<close>

definition brelsed :: "nat \<Rightarrow> 'z kbio_scheme \<Rightarrow> 'z kbio_scheme" where
  "brelsed b s =
     (let u = upd_buf b (\<lambda>k. k\<lparr>refcnt := refcnt k - 1\<rparr>) (awakened (Some (ChanSleepLock (BufLock b))) (slock_freed (BufLock b) s))
      in if refcnt (bufs s b) = 1 then moved_front b u else u)"

lemma moved_front_frame [simp]: "bufs (moved_front b s) = bufs s" "sleeplocks (moved_front b s) = sleeplocks s"
  by (simp_all add: moved_front_def)

lemma brelsed_fields:
  "bufs (brelsed b s) = (bufs s)(b := (bufs s b)\<lparr>refcnt := refcnt (bufs s b) - 1\<rparr>)"
  "sleeplocks (brelsed b s) = (sleeplocks s)(BufLock b := (sleeplocks s (BufLock b))\<lparr>slocked := False, slpid := 0\<rparr>)"
  by (simp_all add: brelsed_def Let_def) (simp_all add: upd_buf_def slock_freed_def upd_slock_def)

lemma brelse_ok:
  fixes s :: "'z kbio_scheme"
  assumes "plocks_ok s" "cproc (mycpu s) = Some p" "lock_free BcacheLock s" "lock_free (SleepLk (BufLock b)) s"
  shows "brelse b s = (if slocked (sleeplocks s (BufLock b)) \<and> slpid (sleeplocks s (BufLock b)) = pid (procs s p)
    then Ok () (brelsed b s) else Stop (Panic ''brelse'') s)"
proof -
  define u where "u = upd_buf b (\<lambda>k. k\<lparr>refcnt := refcnt k - 1\<rparr>) (awakened (Some (ChanSleepLock (BufLock b))) (slock_freed (BufLock b) s))"
  have cp: "cpu_ok s" using assms(1) by (rule plocks_okD)
  have u: "cpu_ok u" "lock_free BcacheLock u" "refcnt (bufs u b) = refcnt (bufs s b) - 1"
    using cp assms(3) by (simp_all add: u_def) (simp_all add: upd_buf_def slock_freed_def)
  show ?thesis
    using holdingsleep_ok [OF cp assms(2,4)] releasesleep_ok [OF assms(1,4)] assms(3) cp u
    by (auto simp: brelse_def op_simps acquire_ok release_ok u_def [symmetric] moved_front_def brelsed_def Let_def)
qed

lemma brelsed_bcache:
  assumes "bcache s xs" "b < NBUF"
  shows "bcache (brelsed b s) (if refcnt (bufs s b) = 1 then b # remove1 b xs else xs)"
proof -
  define u where "u = upd_buf b (\<lambda>k. k\<lparr>refcnt := refcnt k - 1\<rparr>) (awakened (Some (ChanSleepLock (BufLock b))) (slock_freed (BufLock b) s))"
  have "bufs u = (bufs s)(b := (bufs s b)\<lparr>refcnt := refcnt (bufs s b) - 1\<rparr>)" "dlist u xs"
    using assms(1) by (simp_all add: u_def bcache_def) (simp_all add: upd_buf_def slock_freed_def upd_slock_def dlist_def)
  then have "bcache u xs" using assms(1) by (intro bcache_cong [OF assms(1)]) simp_all
  then show ?thesis using bcache_moved_front assms(2) by (auto simp: brelsed_def Let_def u_def [symmetric])
qed

text \<open>
  C31. \<^verbatim>\<open>brelse\<close> keeps the buffers in the order in which they were last used: called
  by the process that holds the buffer's lock it releases the lock and drops one reference;
  when that was the last one the buffer moves to the front of the list, all others keep their
  order, and otherwise the list does not change.  A process that does not hold the lock makes
  it panic.
\<close>

theorem brelse_keeps_recency_order:
  fixes s :: "'z kbio_scheme"
  assumes "plocks_ok s" "cproc (mycpu s) = Some p" "lock_free BcacheLock s" "lock_free (SleepLk (BufLock b)) s" "bcache s xs" "b < NBUF"
  shows "if slocked (sleeplocks s (BufLock b)) \<and> slpid (sleeplocks s (BufLock b)) = pid (procs s p)
    then \<exists>t. brelse b s = Ok () t \<and> bcache t (if refcnt (bufs s b) = 1 then b # remove1 b xs else xs)
      \<and> \<not> slocked (sleeplocks t (BufLock b)) \<and> bufs t = (bufs s)(b := (bufs s b)\<lparr>refcnt := refcnt (bufs s b) - 1\<rparr>)
    else brelse b s = Stop (Panic ''brelse'') s"
  using brelse_ok [OF assms(1-4)] brelsed_bcache [OF assms(5,6)] brelsed_fields [of b s] by simp

section \<open>Evaluation\<close>

definition demo_cached :: kfile where
  "demo_cached = demo_kfile\<lparr>lnext := (\<lambda>b. case b of Head \<Rightarrow> Buf 0 | Buf i \<Rightarrow> if i = NBUF - 1 then Head else Buf (i + 1)),
     lprev := (\<lambda>b. case b of Head \<Rightarrow> Buf (NBUF - 1) | Buf i \<Rightarrow> if i = 0 then Head else Buf (i - 1))\<rparr>"

lemma demo_cached_ok [simp]:
  "plocks_ok demo_cached" "cpu_ok demo_cached" "lock_free lk demo_cached" "cproc (mycpu demo_cached) = Some 1"
  "bufs demo_cached = bufs demo_kfile" "sleeplocks demo_cached = sleeplocks demo_kfile"
  by (simp_all add: demo_cached_def)

lemma path_up: "(\<And>i. i < n \<Longrightarrow> nx (Buf i) = (if Suc i = n then Head else Buf (Suc i))) \<Longrightarrow> k < n \<Longrightarrow> path nx (Buf k) [Suc k..<n]"
proof (induction "n - k" arbitrary: k)
  case (Suc d)
  then show ?case by (cases "Suc k = n") (auto simp: upt_rec [of "Suc k"])
qed simp

lemma path_down: "(\<And>i. nx (Buf i) = (if i = 0 then Head else Buf (i - 1))) \<Longrightarrow> path nx (Buf k) (rev [0..<k])"
  by (induction k) auto

lemma demo_bcache: "bcache demo_cached [0..<NBUF]"
proof -
  have u: "path (lnext demo_cached) (Buf 0) [Suc 0..<NBUF]"
    by (rule path_up) (auto simp: demo_cached_def NBUF_def MAXOPBLOCKS_def)
  have d: "path (lprev demo_cached) (Buf (NBUF - 1)) (rev [0..<NBUF - 1])"
    by (rule path_down) (auto simp: demo_cached_def)
  have e: "[0..<NBUF] = 0 # [Suc 0..<NBUF]" "rev [0..<NBUF] = (NBUF - 1) # rev [0..<NBUF - 1]"
    by (simp_all add: NBUF_def MAXOPBLOCKS_def upt_rec [of 0] numeral_eq_Suc)
  have "path (lnext demo_cached) Head [0..<NBUF]" unfolding e(1) path.simps using u by (simp add: demo_cached_def)
  moreover have "path (lprev demo_cached) Head (rev [0..<NBUF])" unfolding e(2) path.simps using d by (simp add: demo_cached_def)
  ultimately have "dlist demo_cached [0..<NBUF]" by (simp add: dlist_def)
  then show ?thesis by (auto simp: bcache_def demo_kfile_def)
qed

theorem bget_returns_the_buffer_witness:
  "\<exists>t. bget demo_env 1 5 demo_cached = Ok (NBUF - 1) t \<and> bcache t [0..<NBUF] \<and> caches t (NBUF - 1) 1 5"
proof -
  have f: "find (\<lambda>b. caches demo_cached b 1 5) [0..<NBUF] = None" by (auto simp: find_None_iff caches_def demo_kfile_def)
  have "rev [0..<NBUF] = (NBUF - 1) # rev [0..<NBUF - 1]" by (simp add: NBUF_def MAXOPBLOCKS_def numeral_eq_Suc)
  then have g: "find (\<lambda>b. refcnt (bufs demo_cached b) = 0) (rev [0..<NBUF]) = Some (NBUF - 1)" by (simp add: demo_kfile_def)
  have "unlocked demo_cached 1 5" by (simp add: unlocked_def demo_kfile_def)
  from bget_returns_the_buffer [OF demo_cached_ok(2,4,3) demo_bcache this, of demo_env] show ?thesis
    unfolding f g option.case Let_def by blast
qed

theorem brelse_keeps_recency_order_witness:
  "\<exists>t. brelse 3 (slock_taken (BufLock 3) 2 (upd_buf 3 (\<lambda>k. k\<lparr>refcnt := 1\<rparr>) demo_cached)) = Ok () t
    \<and> bcache t (3 # remove1 3 [0..<NBUF])"
proof -
  let ?s = "slock_taken (BufLock 3) 2 (upd_buf 3 (\<lambda>k. k\<lparr>refcnt := 1\<rparr>) demo_cached)"
  have s: "slocked (sleeplocks ?s (BufLock 3))" "slpid (sleeplocks ?s (BufLock 3)) = pid (procs ?s 1)" "refcnt (bufs ?s 3) = 1"
    by (simp_all add: slock_taken_def upd_slock_def upd_buf_def demo_cached_def demo_kfile_def demo_procs_def)
  have "bcache ?s [0..<NBUF]"
    using demo_bcache by (intro bcache_cong [OF demo_bcache]) (auto simp: bcache_def slock_taken_def, simp_all add: upd_buf_def)
  moreover have "plocks_ok ?s" "cproc (mycpu ?s) = Some 1" "lock_free lk ?s" for lk by (simp_all add: slock_taken_def)
  moreover have "3 < NBUF" by (simp add: NBUF_def MAXOPBLOCKS_def)
  ultimately show ?thesis using brelse_keeps_recency_order [of ?s 1 3 "[0..<NBUF]"] s by auto
qed

end
