(* ===== verification/Xv6_Device.thy ===== *)
theory Xv6_Device
  imports Xv6_Bcache
begin

text \<open>
  The disk driver with a disk behind it.  The kernel's state is extended by the blocks the
  disk holds and the history of the writes it has done; the disk itself is the environment, of
  which the driver relies on one thing: that a process asleep on a queued request is woken
  with the request carried out.  Under that hypothesis a disk operation returns with the
  descriptors free again and the block transferred.
\<close>

record kdev = klog +
  platter :: "u32 \<Rightarrow> u8 list"
  disk_writes :: "(u32 \<times> u8 list) list"

lemma held_kdev [simp]:
  "platter (held lk s) = platter s" "disk_writes (held lk s) = disk_writes s"
  "platter_update g1 (held lk s) = held lk (platter_update g1 s)" "disk_writes_update g2 (held lk s) = held lk (disk_writes_update g2 s)"
  by (simp_all add: held_def entered_def upd_lock_def mycpu_def)

lemma kdev_upd_machine [simp]:
  "cpu_ok (platter_update g1 s) = cpu_ok s" "lock_free lk (platter_update g1 s) = lock_free lk s"
  "mycpu (platter_update g1 s) = mycpu s" "plocks_ok (platter_update g1 s) = plocks_ok s"
  "cpu_ok (disk_writes_update g2 s) = cpu_ok s" "lock_free lk (disk_writes_update g2 s) = lock_free lk s"
  "mycpu (disk_writes_update g2 s) = mycpu s" "plocks_ok (disk_writes_update g2 s) = plocks_ok s"
  by (simp_all add: cpu_ok_def lock_free_def mycpu_def plocks_ok_def)

section \<open>What the driver relies on\<close>

text \<open>The request in the newest entry of the available ring is for buffer \<open>b\<close>.\<close>

definition request :: "nat \<Rightarrow> bool \<Rightarrow> 'z kdisk_scheme \<Rightarrow> bool" where
  "request b w s \<longleftrightarrow>
     (let k = vdisk s; i0 = unat (avail_ring k (unat (avail_idx k - 1) mod NUM));
          d0 = desc k i0; d1 = desc k (unat (d_next d0)); d2 = desc k (unat (d_next d1))
      in d_addr d0 = DOp i0 \<and> d_flags d0 AND VRING_DESC_F_NEXT \<noteq> 0
       \<and> d_addr d1 = DData b \<and> d_len d1 = of_nat BSIZE \<and> d_flags d1 AND VRING_DESC_F_NEXT \<noteq> 0
       \<and> (d_flags d1 AND VRING_DESC_F_WRITE = 0) = w
       \<and> d_addr d2 = DStatus i0 \<and> d_flags d2 AND VRING_DESC_F_WRITE \<noteq> 0
       \<and> rq_type (disk_ops k i0) = (if w then VIRTIO_BLK_T_OUT else VIRTIO_BLK_T_IN)
       \<and> rq_sector (disk_ops k i0) = ucast (blockno (bufs s b) * of_nat (BSIZE div 512))
       \<and> info_b k i0 = Some b)"

text \<open>The block of buffer \<open>b\<close> transferred, with what else the interrupt handler changes.\<close>

definition transferred :: "nat \<Rightarrow> bool \<Rightarrow> (nat \<Rightarrow> proc) \<Rightarrow> disk \<Rightarrow> mmio_event list \<Rightarrow> 'z kdev_scheme \<Rightarrow> 'z kdev_scheme" where
  "transferred b w P k l s =
     (let q = bufs s b; n = blockno q in
      s\<lparr>procs := P, vdisk := k, mmio_log := l,
        bufs := (bufs s)(b := q\<lparr>bdisk := False, bdata := (if w then bdata q else platter s n)\<rparr>),
        platter := (if w then (platter s)(n := bdata q) else platter s),
        disk_writes := (if w then disk_writes s @ [(n, bdata q)] else disk_writes s)\<rparr>)"

definition same_pids :: "(nat \<Rightarrow> proc) \<Rightarrow> (nat \<Rightarrow> proc) \<Rightarrow> bool" where
  "same_pids P Q \<longleftrightarrow> (\<forall>q. pid (P q) = pid (Q q))"

definition device_answers :: "'z kdev_scheme env \<Rightarrow> bool" where
  "device_answers E \<longleftrightarrow> 0 < wakeups E
     \<and> (\<forall>s p b w. cproc (mycpu s) = Some p \<longrightarrow> state (procs s p) = SLEEPING \<longrightarrow> pchan (procs s p) = Some (ChanBuf b)
          \<longrightarrow> request b w s \<longrightarrow>
          (\<exists>P k l. same_pids P (procs s) \<and> P p = (procs s p)\<lparr>state := RUNNING\<rparr>
             \<and> desc k = desc (vdisk s) \<and> dfree k = dfree (vdisk s) \<and> info_b k = info_b (vdisk s)
             \<and> sw E s = Ok () (transferred b w P k l s)))"

lemma device_answersD:
  assumes "device_answers E" "cproc (mycpu s) = Some p" "state (procs s p) = SLEEPING" "pchan (procs s p) = Some (ChanBuf b)" "request b w s"
  obtains P k l where "same_pids P (procs s)" "desc k = desc (vdisk s)" "dfree k = dfree (vdisk s)"
    "info_b k = info_b (vdisk s)" "sw E s = Ok () (transferred b w P k l s)"
  using assms unfolding device_answers_def by blast

section \<open>Sleeping\<close>

definition dozing :: "nat \<Rightarrow> chan \<Rightarrow> 'z kproc_scheme \<Rightarrow> 'z kproc_scheme" where
  "dozing p ch = upd_proc p (\<lambda>q. q\<lparr>pchan := Some ch, state := SLEEPING\<rparr>)"

lemma noff_held [simp]: "noff (mycpu (held lk s)) = noff (mycpu s) + 1" "intena (mycpu (held lk s)) = intena (mycpu s)"
  by (simp_all add: held_def entered_def upd_lock_def mycpu_def)

lemma intr_held [simp]: "\<not> intr_get (held lk s)" "holding lk (held lk s)"
  by (simp_all add: held_def entered_def upd_lock_def intr_get_def holding_def)

lemma upd_mycpu_same: "intena (mycpu s) = ie \<Longrightarrow> upd_mycpu (\<lambda>c. c\<lparr>intena := ie\<rparr>) s = s"
  by (cases "cpus s (tp s)") (auto simp: upd_mycpu_def mycpu_def fun_upd_idem)

lemma sleep_ok:
  assumes "cpu_ok s" "noff (mycpu s) = 0" "cproc (mycpu s) = Some p" "lock_free lk s" "lock_free (ProcLock p) s" "lk \<noteq> ProcLock p"
    and "sw E (held (ProcLock p) (dozing p ch s)) = Ok () (held (ProcLock p) t)"
    and "cpu_ok t" "mycpu t = mycpu s" "lock_free lk t" "lock_free (ProcLock p) t"
  shows "sleep E ch lk (held lk s) = Ok () (held lk (upd_proc p (\<lambda>q. q\<lparr>pchan := None\<rparr>) t))"
proof -
  let ?P = "held (ProcLock p)" and ?d = "dozing p ch s"
  have d: "upd_proc p (\<lambda>q. q\<lparr>state := SLEEPING\<rparr>) (upd_proc p (\<lambda>q. q\<lparr>pchan := Some ch\<rparr>) s) = ?d"
    by (simp add: dozing_def upd_proc_def)
  have m: "mycpu ?d = mycpu s" "cpu_ok ?d" "state (procs ?d p) = SLEEPING" using assms(1) by (simp_all add: dozing_def upd_proc_def)
  have cu: "curproc (held lk s) = Ok p (held lk s)" "curproc (?P ?d) = Ok p (?P ?d)"
    using assms(1,3) m by (auto intro!: curproc_ok simp: cpu_ok_held)
  have "sched E (?P ?d) = Ok () (?P t)"
    using cu(2) m assms(2,7,9) by (simp add: sched_def op_simps upd_mycpu_same)
  moreover have "acquire (ProcLock p) (held lk s) = Ok () (held lk (?P s))"
    using acquire_held [OF assms(1,5), of lk] assms(6) by (simp add: held_commute)
  moreover have "release lk (held lk (?P s)) = Ok () (?P s)"
    by (rule release_ok) (use assms(1,4,6) in \<open>simp_all add: cpu_ok_held\<close>)
  ultimately show ?thesis using cu(1) assms(8,10,11) d
    by (simp add: sleep_def op_simps release_ok acquire_ok)
qed

section \<open>A disk operation\<close>

definition disk_idle :: "disk \<Rightarrow> bool" where
  "disk_idle k \<longleftrightarrow> (\<forall>i < NUM. dfree k i)"

lemma upd_disk_frame [simp]:
  "upd_disk f (held lk s) = held lk (upd_disk f s)" "cpu_ok (upd_disk f s) = cpu_ok s" "lock_free lk (upd_disk f s) = lock_free lk s"
  "mycpu (upd_disk f s) = mycpu s" "plocks_ok (upd_disk f s) = plocks_ok s" "vdisk (upd_disk f s) = f (vdisk s)"
  "procs (upd_disk f s) = procs s" "bufs (upd_disk f s) = bufs s" "mmio_log (upd_disk f s) = mmio_log s"
  by (simp_all add: upd_disk_def)

lemma upd_buf_disk [simp]: "vdisk (upd_buf b f s) = vdisk s" "bufs (upd_buf b f s) = (bufs s)(b := f (bufs s b))"
  "mmio_log (upd_buf b f s) = mmio_log s"
  by (simp_all add: upd_buf_def)

definition taken3 :: "disk \<Rightarrow> disk" where
  "taken3 k = k\<lparr>dfree := (dfree k)(0 := False, 1 := False, 2 := False)\<rparr>"

lemma alloc_desc_first:
  assumes "\<not> (\<exists>j < i. dfree (vdisk s) j)" "dfree (vdisk s) i" "i < 3"
  shows "alloc_desc s = Ok (int i) (upd_disk (\<lambda>k. k\<lparr>dfree := (dfree k)(i := False)\<rparr>) s)"
proof -
  have "i = 0 \<or> i = 1 \<or> i = 2" using assms(3) by auto
  then show ?thesis using assms(1,2) by (auto simp: alloc_desc_def NUM_def upt_rec op_simps numeral_2_eq_2)
qed

lemma alloc3_idle:
  assumes "disk_idle (vdisk s)"
  shows "alloc3_desc s = Ok (Some [0, 1, 2]) (upd_disk taken3 s)"
proof -
  let ?g = "\<lambda>i k. k\<lparr>dfree := (dfree k)(i := False)\<rparr>" and ?u = "\<lambda>i. upd_disk (\<lambda>k. k\<lparr>dfree := (dfree k)(i := False)\<rparr>)"
  have "dfree (vdisk s) i" if "i < 3" for i using assms that by (simp add: disk_idle_def NUM_def)
  then have "alloc_desc s = Ok 0 (?u 0 s)" "alloc_desc (?u 0 s) = Ok 1 (?u 1 (?u 0 s))"
    "alloc_desc (?u 1 (?u 0 s)) = Ok 2 (?u 2 (?u 1 (?u 0 s)))"
    using alloc_desc_first [of 0 s] alloc_desc_first [of 1 "?u 0 s"] alloc_desc_first [of 2 "?u 1 (?u 0 s)"]
    by (auto simp: less_Suc_eq numeral_2_eq_2)
  moreover have "?u 2 (?u 1 (?u 0 s)) = upd_disk taken3 s" by (simp add: upd_disk_def taken3_def)
  ultimately show ?thesis by (simp add: alloc3_desc_def upt_rec op_simps)
qed

definition freed_desc :: "nat \<Rightarrow> disk \<Rightarrow> disk" where
  "freed_desc i k = k\<lparr>desc := (desc k)(i := \<lparr>d_addr = DNull, d_len = 0, d_flags = 0, d_next = 0\<rparr>), dfree := (dfree k)(i := True)\<rparr>"

lemma free_desc_ok:
  assumes "plocks_ok s" "i < NUM" "\<not> dfree (vdisk s) i"
  shows "free_desc (int i) (held VdiskLock s)
    = Ok () (held VdiskLock (awakened (Some ChanDiskFree) (upd_disk (freed_desc i) s)))"
  using assms by (simp add: free_desc_def op_simps wakeup_held freed_desc_def [abs_def])

text \<open>A disk operation may leave the process table with other processes woken.\<close>

definition rewoken :: "(disk \<Rightarrow> disk) \<Rightarrow> 'z kdisk_scheme \<Rightarrow> 'z kdisk_scheme \<Rightarrow> bool" where
  "rewoken f s t \<longleftrightarrow> (\<exists>P. same_pids P (procs s) \<and> t = s\<lparr>procs := P, vdisk := f (vdisk s)\<rparr>)"

lemma rewoken_step:
  assumes "rewoken f s t"
  shows "rewoken (g \<circ> f) s (awakened ch (upd_disk g t))"
proof -
  obtain P where P: "same_pids P (procs s)" "t = s\<lparr>procs := P, vdisk := f (vdisk s)\<rparr>" using assms by (auto simp: rewoken_def)
  show ?thesis unfolding rewoken_def
    by (rule exI [of _ "procs (awakened ch (upd_disk g t))"])
       (use P in \<open>simp_all add: same_pids_def awakened_def map_procs_def woken_def upd_disk_def\<close>)
qed

lemma rewoken_frame:
  assumes "rewoken f s t"
  shows "plocks_ok t = plocks_ok s" "cpu_ok t = cpu_ok s" "lock_free lk t = lock_free lk s" "vdisk t = f (vdisk s)"
  using assms by (auto simp: rewoken_def)

lemma free_chain_ok:
  assumes "plocks_ok s" "\<not> dfree (vdisk s) 0" "\<not> dfree (vdisk s) 1" "\<not> dfree (vdisk s) 2"
    and "d_flags (desc (vdisk s) 0) AND VRING_DESC_F_NEXT \<noteq> 0" "d_next (desc (vdisk s) 0) = 1"
    and "d_flags (desc (vdisk s) 1) AND VRING_DESC_F_NEXT \<noteq> 0" "d_next (desc (vdisk s) 1) = 2"
    and "d_flags (desc (vdisk s) 2) AND VRING_DESC_F_NEXT = 0"
  shows "\<exists>t. free_chain 0 (held VdiskLock s) = Ok () (held VdiskLock t)
    \<and> rewoken (freed_desc 2 \<circ> (freed_desc 1 \<circ> freed_desc 0)) s t"
proof -
  let ?a = "awakened (Some ChanDiskFree)" and ?u = "\<lambda>i. upd_disk (freed_desc i)"
  define s1 s2 s3 where d: "s1 = ?a (?u 0 s)" "s2 = ?a (?u 1 s1)" "s3 = ?a (?u 2 s2)"
  have "rewoken id s s" by (auto simp: rewoken_def same_pids_def intro!: exI [of _ "procs s"])
  then have r1: "rewoken (freed_desc 0) s s1" using rewoken_step [of id s s] by (simp add: d)
  have r2: "rewoken (freed_desc 1 \<circ> freed_desc 0) s s2" using rewoken_step [OF r1] by (simp add: d)
  have r3: "rewoken (freed_desc 2 \<circ> (freed_desc 1 \<circ> freed_desc 0)) s s3" using rewoken_step [OF r2] by (simp add: d)
  note r = rewoken_frame [OF r1] rewoken_frame [OF r2]
  have v1: "\<not> dfree (vdisk s1) 1" "desc (vdisk s1) 1 = desc (vdisk s) 1" "desc (vdisk s1) 2 = desc (vdisk s) 2" "\<not> dfree (vdisk s1) 2"
    using assms by (simp_all add: r(4) freed_desc_def)
  then have v2: "\<not> dfree (vdisk s2) 2" "desc (vdisk s2) 2 = desc (vdisk s) 2" using assms by (simp_all add: r(8) freed_desc_def)
  have f0: "free_desc 0 (held VdiskLock s) = Ok () (held VdiskLock s1)" using free_desc_ok [of s 0] assms(1,2) by (simp add: d NUM_def)
  have f1: "free_desc 1 (held VdiskLock s1) = Ok () (held VdiskLock s2)" using free_desc_ok [of s1 1] assms(1) r v1 by (simp add: d NUM_def)
  have f2: "free_desc 2 (held VdiskLock s2) = Ok () (held VdiskLock s3)" using free_desc_ok [of s2 2] assms(1) r v2 by (simp add: d NUM_def)
  have "free_chain_loop (Suc (Suc (Suc n))) 0 (held VdiskLock s) = Ok () (held VdiskLock s3)" for n
    using assms(5-9) f0 f1 f2 v1 v2 by (simp add: op_simps)
  from this [of 6] show ?thesis using r3 by (auto simp: free_chain_def NUM_def numeral_eq_Suc)
qed

definition queued :: "nat \<Rightarrow> bool \<Rightarrow> u32 \<Rightarrow> disk \<Rightarrow> disk" where
  "queued b w n k =
     (let k = format_request b w (ucast (n * of_nat (BSIZE div 512))) 0 1 2 (taken3 k)
      in k\<lparr>info_b := (info_b k)(0 := Some b), avail_ring := (avail_ring k)(unat (avail_idx k) mod NUM := 0), avail_idx := avail_idx k + 1\<rparr>)"

definition queued_state :: "nat \<Rightarrow> bool \<Rightarrow> 'z kdisk_scheme \<Rightarrow> 'z kdisk_scheme" where
  "queued_state b w s = s\<lparr>bufs := (bufs s)(b := (bufs s b)\<lparr>bdisk := True\<rparr>), vdisk := queued b w (blockno (bufs s b)) (vdisk s),
     mmio_log := MWrite (VIRTIO0 + VIRTIO_MMIO_QUEUE_NOTIFY) 0 # mmio_log s\<rparr>"

lemma queued_request: "request b w (queued_state b w s)"
  by (simp add: request_def queued_state_def queued_def format_request_def Let_def VRING_DESC_F_NEXT_def VRING_DESC_F_WRITE_def)

lemma queue_notify:
  "write_reg VIRTIO_MMIO_QUEUE_NOTIFY 0 (held VdiskLock
     (upd_disk (\<lambda>k. k\<lparr>avail_idx := avail_idx k + 1\<rparr>)
       (upd_disk (\<lambda>k. k\<lparr>avail_ring := (avail_ring k)(unat (avail_idx k) mod NUM := 0)\<rparr>)
         (upd_disk (\<lambda>k. k\<lparr>info_b := (info_b k)(0 := Some b)\<rparr>)
           (upd_buf b (\<lambda>k. k\<lparr>bdisk := True\<rparr>)
             (upd_disk (format_request b w (ucast (blockno (bufs s b) * of_nat (BSIZE div 512))) 0 1 2) (upd_disk taken3 s)))))))
   = Ok () (held VdiskLock (queued_state b w s))"
  by (simp add: write_reg_def mmio_write_def op_simps upd_disk_def upd_buf_def queued_state_def queued_def Let_def format_request_def)

lemma disk_sleep:
  fixes s :: "'z kdev_scheme"
  assumes E: "device_answers E" and s: "plocks_ok s" "noff (mycpu s) = 0" "cproc (mycpu s) = Some p" "p < NPROC" "lock_free VdiskLock s"
    and r: "request b w s"
  shows "\<exists>P k l. same_pids P (procs s) \<and> desc k = desc (vdisk s) \<and> dfree k = dfree (vdisk s) \<and> info_b k = info_b (vdisk s)
    \<and> sleep E (ChanBuf b) VdiskLock (held VdiskLock s) = Ok () (held VdiskLock (transferred b w P k l s))"
proof -
  let ?d = "dozing p (ChanBuf b) s"
  have d: "request b w (held (ProcLock p) ?d)" using r by (simp add: request_def dozing_def upd_proc_def)
  have "cproc (mycpu (held (ProcLock p) ?d)) = Some p" "state (procs (held (ProcLock p) ?d) p) = SLEEPING"
    "pchan (procs (held (ProcLock p) ?d) p) = Some (ChanBuf b)" using s(3) by (simp_all add: dozing_def)
  then obtain P k l where "same_pids P (procs (held (ProcLock p) ?d))" "desc k = desc (vdisk (held (ProcLock p) ?d))"
    "dfree k = dfree (vdisk (held (ProcLock p) ?d))" "info_b k = info_b (vdisk (held (ProcLock p) ?d))"
    "sw E (held (ProcLock p) ?d) = Ok () (transferred b w P k l (held (ProcLock p) ?d))"
    using device_answersD [OF E _ _ _ d] by blast
  then have a: "same_pids P (procs ?d)" "desc k = desc (vdisk s)" "dfree k = dfree (vdisk s)" "info_b k = info_b (vdisk s)"
    "sw E (held (ProcLock p) ?d) = Ok () (transferred b w P k l (held (ProcLock p) ?d))"
    by (simp_all add: dozing_def upd_proc_def)
  let ?t = "transferred b w P k l ?d"
  have h: "transferred b w P k l (held (ProcLock p) ?d) = held (ProcLock p) ?t"
    by (simp add: transferred_def Let_def)
  have m: "cpu_ok ?t" "mycpu ?t = mycpu s" "lock_free lk ?t = lock_free lk s" for lk
    using plocks_okD(1) [OF s(1)] by (simp_all add: transferred_def Let_def dozing_def)
  have "sleep E (ChanBuf b) VdiskLock (held VdiskLock s) = Ok () (held VdiskLock (upd_proc p (\<lambda>q. q\<lparr>pchan := None\<rparr>) ?t))"
    by (rule sleep_ok) (use s plocks_okD [OF s(1)] a(5) h m in simp_all)
  moreover have "upd_proc p (\<lambda>q. q\<lparr>pchan := None\<rparr>) ?t = transferred b w (P(p := (P p)\<lparr>pchan := None\<rparr>)) k l s"
    by (simp add: transferred_def Let_def upd_proc_def dozing_def)
  moreover have "same_pids (P(p := (P p)\<lparr>pchan := None\<rparr>)) (procs s)" using a(1) by (auto simp: same_pids_def dozing_def)
  ultimately show ?thesis using a(2-4) by metis
qed

lemma virtio_disk_rw_ok:
  fixes s :: "'z kdev_scheme"
  assumes E: "device_answers E" and s: "plocks_ok s" "noff (mycpu s) = 0" "cproc (mycpu s) = Some p" "p < NPROC" "lock_free VdiskLock s"
    and i: "disk_idle (vdisk s)"
  shows "\<exists>P k l. same_pids P (procs s) \<and> disk_idle k \<and> virtio_disk_rw E b w s = Ok () (transferred b w P k l s)"
proof -
  let ?q = "queued_state b w s"
  have q: "plocks_ok ?q" "mycpu ?q = mycpu s" "lock_free lk ?q = lock_free lk s" for lk using s(1) by (simp_all add: queued_state_def)
  obtain P k l where a: "same_pids P (procs ?q)" "desc k = desc (vdisk ?q)" "dfree k = dfree (vdisk ?q)" "info_b k = info_b (vdisk ?q)"
    "sleep E (ChanBuf b) VdiskLock (held VdiskLock ?q) = Ok () (held VdiskLock (transferred b w P k l ?q))"
    using disk_sleep [OF E q(1), of p b w] queued_request [of b w s] s q(2,3) by auto
  have t: "transferred b w P k l ?q = transferred b w P k l s" by (simp add: transferred_def Let_def queued_state_def)
  have ac: "acquire VdiskLock s = Ok () (held VdiskLock s)" using plocks_okD(1) [OF s(1)] s(5) by (rule acquire_ok)
  have al: "alloc3_loop (Suc n) E (held VdiskLock s) = Ok [0, 1, 2] (held VdiskLock (upd_disk taken3 s))" for n
    using alloc3_idle [of "held VdiskLock s"] i by (simp add: op_simps)
  have sl: "sleep_while E (\<lambda>s. bdisk (bufs s b)) (ChanBuf b) VdiskLock (held VdiskLock ?q) = Ok () (held VdiskLock (transferred b w P k l s))"
  proof -
    obtain n where n: "wakeups E = Suc n" using E by (cases "wakeups E") (auto simp: device_answers_def)
    have "bdisk (bufs ?q b)" by (simp add: queued_state_def)
    moreover have "\<not> bdisk (bufs (transferred b w P k l s) b)" by (simp add: transferred_def Let_def)
    ultimately show ?thesis using a(5) t by (cases n) (simp_all add: sleep_while_def n op_simps)
  qed
  define u where "u = upd_disk (\<lambda>k. k\<lparr>info_b := (info_b k)(0 := None)\<rparr>) (transferred b w P k l s)"
  have v: "dfree (vdisk u) = dfree (taken3 (vdisk s))" "desc (vdisk u) = desc (vdisk ?q)" "plocks_ok u" "lock_free VdiskLock u"
    using a(2,3) s by (simp_all add: u_def transferred_def Let_def queued_state_def queued_def format_request_def)
  obtain t where f: "free_chain 0 (held VdiskLock u) = Ok () (held VdiskLock t)"
    "rewoken (freed_desc 2 \<circ> (freed_desc 1 \<circ> freed_desc 0)) u t"
    using free_chain_ok [OF v(3)] v(1,2)
    by (auto simp: taken3_def queued_state_def queued_def format_request_def Let_def VRING_DESC_F_NEXT_def VRING_DESC_F_WRITE_def)
  obtain Q where Q: "same_pids Q (procs u)" "t = u\<lparr>procs := Q, vdisk := freed_desc 2 (freed_desc 1 (freed_desc 0 (vdisk u)))\<rparr>" (is "t = u\<lparr>procs := Q, vdisk := ?k\<rparr>")
    using f(2) by (auto simp: rewoken_def)
  have "t = transferred b w Q ?k l s" using Q(2) by (simp add: u_def transferred_def Let_def upd_disk_def)
  moreover have "same_pids Q (procs s)" using Q(1) a(1) by (simp add: same_pids_def u_def transferred_def Let_def queued_state_def)
  moreover have "disk_idle ?k" using i v(1) by (simp add: disk_idle_def freed_desc_def taken3_def)
  moreover have "virtio_disk_rw E b w s = Ok () t"
  proof -
    have r: "release VdiskLock (held VdiskLock t) = Ok () t"
      by (rule release_ok) (use plocks_okD(1) [OF v(3)] v(4) rewoken_frame [OF f(2)] in simp_all)
    show ?thesis using sl f(1) r ac al [of "wakeups E"] queue_notify [of b w s]
      by (simp add: virtio_disk_rw_def op_simps u_def del: alloc3_loop.simps)
  qed
  ultimately show ?thesis by metis
qed


section \<open>Evaluation\<close>

text \<open>A disk that carries out the newest request at once.\<close>

definition device_env :: "'z kdev_scheme env" where
  "device_env = \<lparr>sw = (\<lambda>s. case cproc (mycpu s) of
       None \<Rightarrow> Stop Swtch s
     | Some p \<Rightarrow> (case pchan (procs s p) of
         Some (ChanBuf b) \<Rightarrow>
           (let k = vdisk s; i = unat (avail_ring k (unat (avail_idx k - 1) mod NUM))
            in Ok () (transferred b (rq_type (disk_ops k i) = VIRTIO_BLK_T_OUT)
                 ((procs s)(p := (procs s p)\<lparr>state := RUNNING\<rparr>)) k (mmio_log s) s))
       | _ \<Rightarrow> Stop Swtch s)), wakeups = 1\<rparr>"

lemma device_env_answers: "device_answers device_env"
  unfolding device_answers_def
proof (intro conjI allI impI)
  fix s :: "'z kdev_scheme" and p b w
  assume s: "cproc (mycpu s) = Some p" "state (procs s p) = SLEEPING" "pchan (procs s p) = Some (ChanBuf b)" "request b w s"
  let ?k = "vdisk s"
  have "(rq_type (disk_ops ?k (unat (avail_ring ?k (unat (avail_idx ?k - 1) mod NUM)))) = VIRTIO_BLK_T_OUT) = w"
    using s(4) by (simp add: request_def Let_def VIRTIO_BLK_T_OUT_def VIRTIO_BLK_T_IN_def)
  then have "sw device_env s = Ok () (transferred b w ((procs s)(p := (procs s p)\<lparr>state := RUNNING\<rparr>)) ?k (mmio_log s) s)"
    using s by (simp add: device_env_def Let_def)
  then show "\<exists>P k l. same_pids P (procs s) \<and> P p = (procs s p)\<lparr>state := RUNNING\<rparr> \<and> desc k = desc (vdisk s) \<and> dfree k = dfree (vdisk s)
      \<and> info_b k = info_b (vdisk s) \<and> sw device_env s = Ok () (transferred b w P k l s)"
    by (intro exI [of _ "(procs s)(p := (procs s p)\<lparr>state := RUNNING\<rparr>)"] exI [of _ ?k] exI [of _ "mmio_log s"])
       (simp add: same_pids_def)
qed (simp add: device_env_def)

definition demo_dev :: "(u32 \<Rightarrow> u8 list) \<Rightarrow> kdev" where
  "demo_dev P = klog.extend ((klog.truncate demo_cached)\<lparr>log_outstanding := 0\<rparr>) (kdev.fields P [])"

lemma demo_dev_fields [simp]:
  "bufs (demo_dev P) = bufs demo_kfile" "sleeplocks (demo_dev P) = sleeplocks demo_kfile" "platter (demo_dev P) = P" "disk_writes (demo_dev P) = []"
  "lnext (demo_dev P) = lnext demo_cached" "lprev (demo_dev P) = lprev demo_cached" "procs (demo_dev P) = procs demo_kfile" "vdisk (demo_dev P) = vdisk demo_kfile"
  "log_start (demo_dev P) = 2" "log_size (demo_dev P) = 30" "log_outstanding (demo_dev P) = 0" "\<not> log_committing (demo_dev P)"
  "log_dev (demo_dev P) = 1" "log_lh (demo_dev P) = \<lparr>lh_n = 0, lh_block = (\<lambda>_. 0)\<rparr>"
  by (simp_all add: demo_dev_def klog.defs kdev.defs demo_cached_def demo_kfile_def)

lemma demo_dev_machine [simp]:
  "plocks_ok (demo_dev P)" "lock_free lk (demo_dev P)" "cproc (mycpu (demo_dev P)) = Some 1" "noff (mycpu (demo_dev P)) = 0"
  by (simp_all add: demo_dev_def klog.defs kdev.defs demo_cached_def demo_kfile_def plocks_ok_def cpu_ok_def mycpu_def lock_free_def)


end
