(* ===== verification/Xv6_Bview.thy ===== *)
theory Xv6_Bview
  imports Xv6_Device
begin

text \<open>
  What the buffer cache promises its clients.  A view gives for every block its current
  contents, the number of references to it, the buffer in which the caller has it locked, and
  the state of the disk.  \<^verbatim>\<open>bread\<close>, \<^verbatim>\<open>bwrite\<close>, \<^verbatim>\<open>brelse\<close>,
  \<^verbatim>\<open>bpin\<close> and \<^verbatim>\<open>bunpin\<close> act on the view as if there were no buffers.
\<close>

record bview =
  vdata :: "u32 \<Rightarrow> u8 list"
  vrefs :: "u32 \<Rightarrow> nat"
  vheld :: "u32 \<Rightarrow> nat option"
  vplat :: "u32 \<Rightarrow> u8 list"
  vhist :: "(u32 \<times> u8 list) list"

definition quiet :: "nat \<Rightarrow> 'z kdisk_scheme \<Rightarrow> bool" where
  "quiet p s \<longleftrightarrow> plocks_ok s \<and> noff (mycpu s) = 0 \<and> cproc (mycpu s) = Some p \<and> p < NPROC
     \<and> lock_free VdiskLock s \<and> lock_free BcacheLock s \<and> lock_free LogLock s
     \<and> (\<forall>b < NBUF. lock_free (SleepLk (BufLock b)) s) \<and> disk_idle (vdisk s)"

text \<open>The part of the view that is in one buffer.\<close>

definition buf_shows :: "u32 \<Rightarrow> bview \<Rightarrow> nat \<Rightarrow> buf \<Rightarrow> bool \<Rightarrow> bool" where
  "buf_shows dev a b q lk \<longleftrightarrow>
     (bvalid q \<or> refcnt q \<noteq> 0 \<longrightarrow> bdev q = dev)
     \<and> (bvalid q \<longrightarrow> bdata q = vdata a (blockno q))
     \<and> (bdev q = dev \<longrightarrow> unat (refcnt q) = vrefs a (blockno q))
     \<and> (lk \<longrightarrow> vheld a (blockno q) = Some b)"

definition shows_view :: "u32 \<Rightarrow> nat \<Rightarrow> bview \<Rightarrow> 'z kdev_scheme \<Rightarrow> bool" where
  "shows_view dev p a s \<longleftrightarrow> (\<exists>xs. bcache s xs)
     \<and> (\<forall>b < NBUF. buf_shows dev a b (bufs s b) (slocked (sleeplocks s (BufLock b))))
     \<and> (\<forall>n. vrefs a n \<noteq> 0 \<longrightarrow> (\<exists>b < NBUF. caches s b dev n \<and> bvalid (bufs s b)))
     \<and> (\<forall>n. vrefs a n = 0 \<longrightarrow> vdata a n = vplat a n)
     \<and> (\<forall>n b. vheld a n = Some b \<longrightarrow> b < NBUF \<and> caches s b dev n \<and> bvalid (bufs s b) \<and> vrefs a n \<noteq> 0
          \<and> slocked (sleeplocks s (BufLock b)) \<and> slpid (sleeplocks s (BufLock b)) = pid (procs s p))
     \<and> vplat a = platter s \<and> vhist a = disk_writes s"

section \<open>Consequences\<close>

lemma shows_viewD:
  assumes "shows_view dev p a s"
  shows "b < NBUF \<Longrightarrow> buf_shows dev a b (bufs s b) (slocked (sleeplocks s (BufLock b)))"
    and "vrefs a n = 0 \<Longrightarrow> vdata a n = vplat a n"
    and "vheld a n = Some b \<Longrightarrow> b < NBUF \<and> caches s b dev n \<and> bvalid (bufs s b) \<and> vrefs a n \<noteq> 0
          \<and> slocked (sleeplocks s (BufLock b)) \<and> slpid (sleeplocks s (BufLock b)) = pid (procs s p)"
    and "vplat a = platter s" "vhist a = disk_writes s"
  using assms by (simp_all add: shows_view_def)

lemma bcache_unique:
  assumes "bcache s xs" "dev \<noteq> 0" "b < NBUF" "c < NBUF" "caches s b dev n" "caches s c dev n"
  shows "b = c"
  using assms unfolding bcache_def caches_def by metis

lemma unat_eq_zero: "unat (w :: 'a :: len word) = 0 \<longleftrightarrow> w = 0"
  by (rule unsigned_eq_0_iff)

lemma shows_unlocked:
  assumes "quiet p s" "shows_view dev p a s" "vheld a n = None"
  shows "unlocked s dev n"
  unfolding unlocked_def
proof (intro allI impI conjI)
  fix b assume b: "b < NBUF"
  show "lock_free (SleepLk (BufLock b)) s" using assms(1) b by (simp add: quiet_def)
  assume l: "slocked (sleeplocks s (BufLock b))"
  then have h: "vheld a (blockno (bufs s b)) = Some b" using shows_viewD(1) [OF assms(2) b] by (simp add: buf_shows_def)
  from shows_viewD(3) [OF assms(2) h] shows_viewD(1) [OF assms(2) b] show "refcnt (bufs s b) \<noteq> 0"
    by (auto simp: buf_shows_def caches_def)
  show "\<not> caches s b dev n" using h assms(3) by (auto simp: caches_def)
qed

text \<open>A buffer is free when fewer than \<open>NBUF\<close> blocks are referenced.\<close>

lemma shows_free_buffer:
  assumes "shows_view dev p a s" "dev \<noteq> 0" "finite {n. vrefs a n \<noteq> 0}" "card {n. vrefs a n \<noteq> 0} < NBUF"
  shows "\<exists>b < NBUF. refcnt (bufs s b) = 0"
proof (rule ccontr)
  assume "\<not> (\<exists>b < NBUF. refcnt (bufs s b) = 0)"
  then have r: "bdev (bufs s b) = dev \<and> vrefs a (blockno (bufs s b)) \<noteq> 0" if "b < NBUF" for b
    using shows_viewD(1) [OF assms(1) that] that unat_eq_zero [of "refcnt (bufs s b)"] by (simp add: buf_shows_def)
  obtain xs where x: "bcache s xs" using assms(1) by (auto simp: shows_view_def)
  have "inj_on (\<lambda>b. blockno (bufs s b)) {..<NBUF}"
  proof (rule inj_onI)
    fix b c assume bc: "b \<in> {..<NBUF}" "c \<in> {..<NBUF}" "blockno (bufs s b) = blockno (bufs s c)"
    then show "b = c" using bcache_unique [OF x assms(2), of b c "blockno (bufs s b)"] r [of b] r [of c] by (simp add: caches_def)
  qed
  then have "card ((\<lambda>b. blockno (bufs s b)) ` {..<NBUF}) = NBUF" by (simp add: card_image)
  moreover have "(\<lambda>b. blockno (bufs s b)) ` {..<NBUF} \<subseteq> {n. vrefs a n \<noteq> 0}" using r by auto
  ultimately show False using card_mono [OF assms(3)] assms(4) by (metis leD)
qed

section \<open>Changing one buffer\<close>

definition view_upd :: "u32 \<Rightarrow> u8 list \<Rightarrow> nat \<Rightarrow> nat option \<Rightarrow> bview \<Rightarrow> bview" where
  "view_upd n d r h a = a\<lparr>vdata := (vdata a)(n := d), vrefs := (vrefs a)(n := r), vheld := (vheld a)(n := h)\<rparr>"

lemma shows_replace:
  fixes s t :: "'z kdev_scheme"
  assumes a: "shows_view dev p a s" and dev: "dev \<noteq> 0" and b: "b < NBUF" and x: "bcache t xs"
    and q: "bufs t = (bufs s)(b := q)" "bdev q = dev" "blockno q = n" "bvalid q" "bdata q = d" "unat (refcnt q) = r"
    and l: "sleeplocks t = (sleeplocks s)(BufLock b := sl)" "slocked sl = (h = Some b)" "h = None \<or> h = Some b"
      "h = Some b \<Longrightarrow> r \<noteq> 0 \<and> slpid sl = pid (procs s p)"
    and old: "refcnt (bufs s b) = 0 \<or> caches s b dev n"
    and w: "platter t = P" "disk_writes t = H" "\<And>m. m \<noteq> n \<Longrightarrow> P m = vplat a m" "r = 0 \<Longrightarrow> d = P n" and pids: "same_pids (procs t) (procs s)"
  shows "shows_view dev p ((view_upd n d r h a)\<lparr>vplat := P, vhist := H\<rparr>) t" (is "shows_view dev p ?a t")
proof -
  note A = shows_viewD [OF a]
  have cb: "caches t b dev n" using q by (simp add: caches_def)
  have uniq: "c = b" if "c < NBUF" "bdev (bufs s c) = dev" "blockno (bufs s c) = n" for c
    using bcache_unique [OF x dev that(1) b _ cb] that q by (cases "c = b") (auto simp: caches_def)
  have other: "c \<noteq> b" if "c < NBUF" "caches s c dev m" "vrefs a m \<noteq> 0" "m \<noteq> n" for c m
    using that old A(1) [OF b] by (auto simp: caches_def buf_shows_def)
  have pid: "pid (procs t p) = pid (procs s p)" using pids by (simp add: same_pids_def)
  have "buf_shows dev ?a c (bufs t c) (slocked (sleeplocks t (BufLock c)))" if c: "c < NBUF" for c
  proof (cases "c = b")
    case True
    then show ?thesis using q l by (auto simp: buf_shows_def view_upd_def)
  next
    case False
    then have "blockno (bufs s c) = n \<Longrightarrow> bdev (bufs s c) \<noteq> dev" using uniq c by blast
    moreover have "blockno (bufs s c) = n \<Longrightarrow> bdev (bufs s c) \<noteq> dev \<Longrightarrow> \<not> slocked (sleeplocks s (BufLock c))"
      using A(1) [OF c] A(3) [of n c] by (auto simp: buf_shows_def caches_def)
    ultimately show ?thesis using False A(1) [OF c] q(1) l(1)
      by (cases "blockno (bufs s c) = n") (auto simp: buf_shows_def view_upd_def)
  qed
  moreover have "\<exists>c < NBUF. caches t c dev m \<and> bvalid (bufs t c)" if "vrefs ?a m \<noteq> 0" for m
  proof (cases "m = n")
    case True
    then show ?thesis using cb b q by auto
  next
    case False
    then have r: "vrefs a m \<noteq> 0" using that by (simp add: view_upd_def)
    then obtain c where c: "c < NBUF" "caches s c dev m" "bvalid (bufs s c)" using a unfolding shows_view_def by blast
    then show ?thesis using other [OF c(1,2) r False] q(1) by (auto simp: caches_def)
  qed
  moreover have "vdata ?a m = vplat ?a m" if "vrefs ?a m = 0" for m
    using that A(2) [of m] w(3) [of m] w(4) by (cases "m = n") (simp_all add: view_upd_def)
  moreover have "c < NBUF \<and> caches t c dev m \<and> bvalid (bufs t c) \<and> vrefs ?a m \<noteq> 0
      \<and> slocked (sleeplocks t (BufLock c)) \<and> slpid (sleeplocks t (BufLock c)) = pid (procs t p)" if "vheld ?a m = Some c" for m c
  proof (cases "m = n")
    case True
    then have "h = Some c" using that by (simp add: view_upd_def)
    then show ?thesis using True l b cb q pid by (auto simp: view_upd_def)
  next
    case False
    then have h: "vheld a m = Some c" using that by (simp add: view_upd_def)
    note hc = A(3) [OF h]
    then have "c \<noteq> b" using other False by blast
    then show ?thesis using hc False q(1) l(1) pid by (simp add: caches_def view_upd_def)
  qed
  ultimately show ?thesis using x w(1,2) unfolding shows_view_def by auto
qed

section \<open>Reading a block\<close>

definition log_of :: "'z klog_scheme \<Rightarrow> int \<times> int \<times> int \<times> bool \<times> int \<times> logheader" where
  "log_of s = (log_start s, log_size s, log_outstanding s, log_committing s, log_dev s, log_lh s)"

definition room :: "bview \<Rightarrow> u32 \<Rightarrow> bool" where
  "room a n \<longleftrightarrow> vheld a n = None \<and> Suc (vrefs a n) < 2 ^ 32
     \<and> (vrefs a n \<noteq> 0 \<or> finite {m. vrefs a m \<noteq> 0} \<and> card {m. vrefs a m \<noteq> 0} < NBUF)"

lemma bget_view:
  fixes s :: "'z kdev_scheme"
  assumes s: "quiet p s" "shows_view dev p a s" "dev \<noteq> 0" and n: "room a n"
  obtains b q xs where "bget E dev n s = Ok b (buf_taken p b (\<lambda>_. q) s)" "bcache (buf_taken p b (\<lambda>_. q) s) xs" "b < NBUF"
    "bdev q = dev" "blockno q = n" "unat (refcnt q) = Suc (vrefs a n)" "refcnt (bufs s b) = 0 \<or> caches s b dev n"
    "bvalid q \<longrightarrow> bdata q = vdata a n" "\<not> bvalid q \<longrightarrow> vdata a n = platter s n"
proof -
  note A = shows_viewD [OF s(2)]
  obtain xs where x: "bcache s xs" using s(2) by (auto simp: shows_view_def)
  have m: "cpu_ok s" "cproc (mycpu s) = Some p" "lock_free BcacheLock s" using s(1) plocks_okD(1) by (auto simp: quiet_def)
  have u: "unlocked s dev n" using shows_unlocked [OF s(1,2)] n by (simp add: room_def)
  note G = bget_ok [OF m x u, of E]
  have xset: "set xs = {..<NBUF}" using x by (simp add: bcache_def)
  have same: "buf_taken p b f s = buf_taken p b (\<lambda>_. f (bufs s b)) s" for b f by (simp add: buf_taken_def upd_buf_def)
  have miss: "vrefs a n = 0" if "\<And>b. b < NBUF \<Longrightarrow> caches s b dev n \<Longrightarrow> \<not> bvalid (bufs s b)"
    using s(2) that unfolding shows_view_def by blast
  show ?thesis
  proof (cases "find (\<lambda>b. caches s b dev n) xs")
    case (Some b)
    let ?q = "(bufs s b)\<lparr>refcnt := refcnt (bufs s b) + 1\<rparr>"
    have b: "caches s b dev n" "b < NBUF" using find_in [OF Some] xset by auto
    then have r: "unat (refcnt (bufs s b)) = vrefs a n" using A(1) [OF b(2)] by (auto simp: buf_shows_def caches_def)
    then have r1: "unat (refcnt ?q) = Suc (vrefs a n)" using n by (simp add: room_def unat_word_ariths)
    have z: "vdata a n = platter s n" if "\<not> bvalid ?q"
    proof -
      have "vrefs a n = 0" using miss that bcache_unique [OF x s(3) b(2) _ b(1)] by auto
      then show ?thesis using A(2,4) by metis
    qed
    show ?thesis
      by (rule that [of b ?q xs]) (use G Some b r1 z A(1) [OF b(2)] in \<open>simp_all add: Let_def caches_def same [of b "\<lambda>k. k\<lparr>refcnt := refcnt k + 1\<rparr>"] buf_shows_def\<close>)
  next
    case none: None
    then have no: "\<not> caches s b dev n" if "b < NBUF" for b using that xset by (auto simp: find_None_iff)
    then have r0: "vrefs a n = 0" using miss by blast
    obtain c where c: "c < NBUF" "refcnt (bufs s c) = 0" using shows_free_buffer [OF s(2,3)] n r0 by (auto simp: room_def)
    then obtain b where v: "find (\<lambda>b. refcnt (bufs s b) = 0) (rev xs) = Some b"
      using xset by (cases "find (\<lambda>b. refcnt (bufs s b) = 0) (rev xs)") (auto simp: find_None_iff)
    have b: "refcnt (bufs s b) = 0" "b < NBUF" using find_in [OF v] xset by auto
    let ?f = "\<lambda>k. k\<lparr>bdev := dev, blockno := n, bvalid := False, refcnt := 1\<rparr>"
    have z: "vdata a n = platter s n" using r0 A(2,4) by metis
    show ?thesis
      by (rule that [of b "?f (bufs s b)" xs]) (use G none v b z r0 in \<open>simp_all add: Let_def caches_def same [of b ?f]\<close>)
  qed
qed

lemma dlist_kdev [simp]:
  "dlist (platter_update f s) xs = dlist s xs" "dlist (disk_writes_update g s) xs = dlist s xs" "dlist (bufs_update h s) xs = dlist s xs"
  "dlist (procs_update h1 s) xs = dlist s xs" "dlist (vdisk_update h2 s) xs = dlist s xs" "dlist (mmio_log_update h3 s) xs = dlist s xs"
  by (simp_all add: dlist_def)

text \<open>\<open>follows\<close>: an operation ended in a quiet state that shows the new view, and left the log alone.\<close>

definition follows :: "u32 \<Rightarrow> nat \<Rightarrow> 'z kdev_scheme \<Rightarrow> bview \<Rightarrow> 'z kdev_scheme \<Rightarrow> bool" where
  "follows dev p s a t \<longleftrightarrow> quiet p t \<and> shows_view dev p a t \<and> log_of t = log_of s"

lemma bread_view:
  fixes s :: "'z kdev_scheme"
  assumes E: "device_answers E" and s: "quiet p s" "shows_view dev p a s" "dev \<noteq> 0" and n: "room a n"
  shows "\<exists>b t. bread E dev n s = Ok b t \<and> follows dev p s (view_upd n (vdata a n) (Suc (vrefs a n)) (Some b) a) t"
proof -
  note A = shows_viewD [OF s(2)]
  obtain b q xs where g: "bget E dev n s = Ok b (buf_taken p b (\<lambda>_. q) s)" "bcache (buf_taken p b (\<lambda>_. q) s) xs" "b < NBUF"
    and q: "bdev q = dev" "blockno q = n" "unat (refcnt q) = Suc (vrefs a n)" "refcnt (bufs s b) = 0 \<or> caches s b dev n"
      "bvalid q \<longrightarrow> bdata q = vdata a n" "\<not> bvalid q \<longrightarrow> vdata a n = platter s n" by (rule bget_view [OF s n, of E])
  let ?t = "buf_taken p b (\<lambda>_. q) s"
  let ?sl = "(sleeplocks s (BufLock b))\<lparr>slocked := True, slpid := pid (procs s p)\<rparr>"
  have t: "quiet p ?t" "log_of ?t = log_of s" "procs ?t = procs s" "platter ?t = platter s" "disk_writes ?t = disk_writes s"
    "sleeplocks ?t = (sleeplocks s)(BufLock b := ?sl)" "bufs ?t = (bufs s)(b := q)"
    using s(1) by (simp_all add: buf_taken_def slock_taken_def upd_buf_def upd_slock_def quiet_def log_of_def)
  have idle: "((view_upd n (vdata a n) (Suc (vrefs a n)) (Some b) a)\<lparr>vplat := platter s, vhist := disk_writes s\<rparr>)
      = view_upd n (vdata a n) (Suc (vrefs a n)) (Some b) a" using A(4,5) by (simp add: view_upd_def)
  have main: "follows dev p s (view_upd n (vdata a n) (Suc (vrefs a n)) (Some b) a) u"
    if "quiet p u" "log_of u = log_of s" "bcache u xs" "bufs u = (bufs s)(b := r)" "sleeplocks u = sleeplocks ?t" "same_pids (procs u) (procs s)"
      "platter u = platter s" "disk_writes u = disk_writes s" "bvalid r" "bdata r = vdata a n" "bdev r = dev" "blockno r = n" "refcnt r = refcnt q" for u r
  proof -
    have "shows_view dev p ((view_upd n (vdata a n) (Suc (vrefs a n)) (Some b) a)\<lparr>vplat := platter s, vhist := disk_writes s\<rparr>) u"
      by (rule shows_replace [OF s(2,3) g(3) that(3,4)]) (use that q t A(4,5) in auto)
    then show ?thesis using that(1,2) by (simp only: follows_def idle simp_thms)
  qed
  show ?thesis
  proof (cases "bvalid q")
    case True
    then have "bread E dev n s = Ok b ?t" using g(1) t(7) by (simp add: bread_def op_simps)
    moreover have "follows dev p s (view_upd n (vdata a n) (Suc (vrefs a n)) (Some b) a) ?t"
      by (rule main [of _ q]) (use t g(2) q True in \<open>simp_all add: same_pids_def\<close>)
    ultimately show ?thesis by blast
  next
    case False
    obtain P k l where v: "same_pids P (procs ?t)" "disk_idle k" "virtio_disk_rw E b False ?t = Ok () (transferred b False P k l ?t)"
      using virtio_disk_rw_ok [OF E, of ?t p b False] t(1) by (auto simp: quiet_def)
    let ?u = "upd_buf b (\<lambda>k. k\<lparr>bvalid := True\<rparr>) (transferred b False P k l ?t)"
    have "bread E dev n s = Ok b ?u" using g(1) v(3) t(7) False by (simp add: bread_def op_simps)
    moreover have "follows dev p s (view_upd n (vdata a n) (Suc (vrefs a n)) (Some b) a) ?u"
    proof (rule main [of _ "q\<lparr>bdisk := False, bdata := platter s n, bvalid := True\<rparr>"])
      show "bcache ?u xs" by (rule bcache_cong [OF g(2)]) (use g(2) in \<open>auto simp: bcache_def transferred_def Let_def\<close>)
      show "bufs ?u = (bufs s)(b := q\<lparr>bdisk := False, bdata := platter s n, bvalid := True\<rparr>)"
        using t(4,7) q(2) by (simp add: transferred_def Let_def)
      show "quiet p ?u" "log_of ?u = log_of s" using t(1,2) v(2) by (simp_all add: transferred_def Let_def quiet_def log_of_def upd_buf_def)
    qed (use t v q False in \<open>simp_all add: transferred_def Let_def upd_buf_def\<close>)
    ultimately show ?thesis by blast
  qed
qed

section \<open>Using a locked buffer\<close>

lemma shows_held:
  assumes "shows_view dev p a s" "vheld a n = Some b"
  shows "b < NBUF" "caches s b dev n" "bdev (bufs s b) = dev" "blockno (bufs s b) = n" "bvalid (bufs s b)" "bdata (bufs s b) = vdata a n"
    "unat (refcnt (bufs s b)) = vrefs a n" "vrefs a n \<noteq> 0"
    "slocked (sleeplocks s (BufLock b))" "slpid (sleeplocks s (BufLock b)) = pid (procs s p)"
proof -
  note h = shows_viewD(3) [OF assms]
  have b: "b < NBUF" using h by blast
  show "b < NBUF" "caches s b dev n" "bdev (bufs s b) = dev" "blockno (bufs s b) = n" "bvalid (bufs s b)" "bdata (bufs s b) = vdata a n"
    "unat (refcnt (bufs s b)) = vrefs a n" "vrefs a n \<noteq> 0"
    "slocked (sleeplocks s (BufLock b))" "slpid (sleeplocks s (BufLock b)) = pid (procs s p)"
    using h shows_viewD(1) [OF assms(1) b] by (auto simp: caches_def buf_shows_def)
qed

text \<open>A change of the locked buffer \<open>b\<close> of block \<open>n\<close> that leaves the lock and the list alone.\<close>

lemma follows_held:
  fixes s t :: "'z kdev_scheme"
  assumes s: "shows_view dev p a s" "dev \<noteq> 0" "vheld a n = Some b"
    and t: "quiet p t" "log_of t = log_of s" "\<And>xs. dlist s xs \<Longrightarrow> dlist t xs" "bufs t = (bufs s)(b := q)" "sleeplocks t = sleeplocks s"
      "same_pids (procs t) (procs s)"
    and q: "bdev q = dev" "blockno q = n" "bvalid q" "unat (refcnt q) \<noteq> 0"
    and w: "\<And>m. m \<noteq> n \<Longrightarrow> platter t m = platter s m"
  shows "follows dev p s ((view_upd n (bdata q) (unat (refcnt q)) (Some b) a)\<lparr>vplat := platter t, vhist := disk_writes t\<rparr>) t"
proof -
  note h = shows_held [OF s(1,3)]
  obtain xs where x: "bcache s xs" using s(1) by (auto simp: shows_view_def)
  have y: "bcache t xs" by (rule bcache_cong [OF x]) (use x t(3,4) h q in \<open>auto simp: bcache_def\<close>)
  have "shows_view dev p ((view_upd n (bdata q) (unat (refcnt q)) (Some b) a)\<lparr>vplat := platter t, vhist := disk_writes t\<rparr>) t"
    by (rule shows_replace [OF s(1,2) h(1) y t(4) q(1-3), where sl = "sleeplocks s (BufLock b)"])
       (use h t q w shows_viewD(4,5) [OF s(1)] in auto)
  then show ?thesis using t(1,2) by (simp add: follows_def)
qed

lemma view_upd_held [simp]: "vheld a n = Some b \<Longrightarrow> view_upd n (vdata a n) (vrefs a n) (Some b) a = a"
  by (simp add: view_upd_def fun_upd_idem)

lemma set_data_view:
  fixes s :: "'z kdev_scheme"
  assumes s: "quiet p s" "shows_view dev p a s" "dev \<noteq> 0" "vheld a n = Some b"
  shows "\<exists>t. set_data b d s = Ok () t \<and> follows dev p s (view_upd n d (vrefs a n) (Some b) a) t"
proof -
  note h = shows_held [OF s(2,4)]
  let ?t = "upd_buf b (\<lambda>k. k\<lparr>bdata := d\<rparr>) s"
  have "follows dev p s ((view_upd n (bdata ((bufs s b)\<lparr>bdata := d\<rparr>)) (unat (refcnt ((bufs s b)\<lparr>bdata := d\<rparr>))) (Some b) a)
      \<lparr>vplat := platter ?t, vhist := disk_writes ?t\<rparr>) ?t"
    by (rule follows_held [OF s(2-4)])
       (use s(1) h in \<open>simp_all add: quiet_def log_of_def same_pids_def\<close>, simp_all add: upd_buf_def)
  moreover have "platter ?t = vplat a" "disk_writes ?t = vhist a" using shows_viewD(4,5) [OF s(2)] by (simp_all add: upd_buf_def)
  ultimately show ?thesis using h(7) by (simp add: set_data_def op_simps view_upd_def)
qed

lemma bwrite_view:
  fixes s :: "'z kdev_scheme"
  assumes E: "device_answers E" and s: "quiet p s" "shows_view dev p a s" "dev \<noteq> 0" "vheld a n = Some b"
  shows "\<exists>t. bwrite E b s = Ok () t \<and> follows dev p s (a\<lparr>vplat := (vplat a)(n := vdata a n), vhist := vhist a @ [(n, vdata a n)]\<rparr>) t"
proof -
  note h = shows_held [OF s(2,4)] and A = shows_viewD [OF s(2)]
  have c: "cpu_ok s" using s(1) plocks_okD(1) by (auto simp: quiet_def)
  obtain P k l where v: "same_pids P (procs s)" "disk_idle k" "virtio_disk_rw E b True s = Ok () (transferred b True P k l s)" (is "_ = Ok () ?t")
    using virtio_disk_rw_ok [OF E, of s p b True] s(1) by (auto simp: quiet_def)
  have "holdingsleep (BufLock b) s = Ok True s"
    using holdingsleep_ok [of s p "BufLock b"] s(1) c h by (simp add: quiet_def)
  then have "bwrite E b s = Ok () ?t" using v(3) by (simp add: bwrite_def op_simps)
  moreover have "follows dev p s ((view_upd n (bdata ((bufs s b)\<lparr>bdisk := False\<rparr>)) (unat (refcnt ((bufs s b)\<lparr>bdisk := False\<rparr>))) (Some b) a)
      \<lparr>vplat := platter ?t, vhist := disk_writes ?t\<rparr>) ?t"
    by (rule follows_held [OF s(2-4)])
       (use s(1) h v in \<open>simp_all add: quiet_def log_of_def transferred_def Let_def\<close>)
  ultimately show ?thesis using h A(4,5) s(4) by (simp add: transferred_def Let_def)
qed

lemma ref_view:
  fixes s :: "'z kdev_scheme"
  assumes s: "quiet p s" "shows_view dev p a s" "dev \<noteq> 0" "vheld a n = Some b" and f: "unat (f (refcnt (bufs s b))) = r" "r \<noteq> 0"
  shows "follows dev p s (view_upd n (vdata a n) r (Some b) a) (upd_buf b (\<lambda>k. k\<lparr>refcnt := f (refcnt k)\<rparr>) s)" (is "follows dev p s _ ?t")
proof -
  note h = shows_held [OF s(2,4)]
  let ?q = "(bufs s b)\<lparr>refcnt := f (refcnt (bufs s b))\<rparr>"
  have "follows dev p s ((view_upd n (bdata ?q) (unat (refcnt ?q)) (Some b) a)\<lparr>vplat := platter ?t, vhist := disk_writes ?t\<rparr>) ?t"
    by (rule follows_held [OF s(2-4)])
       (use s(1) h f in \<open>simp_all add: quiet_def log_of_def same_pids_def\<close>, simp_all add: upd_buf_def)
  moreover have "platter ?t = vplat a" "disk_writes ?t = vhist a" using shows_viewD(4,5) [OF s(2)] by (simp_all add: upd_buf_def)
  ultimately show ?thesis using h f by (simp add: view_upd_def)
qed

lemma bunpin_view:
  fixes s :: "'z kdev_scheme"
  assumes s: "quiet p s" "shows_view dev p a s" "dev \<noteq> 0" "vheld a n = Some b" and r: "2 \<le> vrefs a n"
  shows "\<exists>t. bunpin b s = Ok () t \<and> follows dev p s (view_upd n (vdata a n) (vrefs a n - 1) (Some b) a) t"
proof -
  note h = shows_held [OF s(2,4)]
  have c: "cpu_ok s" "lock_free BcacheLock s" using s(1) plocks_okD(1) by (auto simp: quiet_def)
  have "1 \<le> refcnt (bufs s b)" using h(7) r by (simp add: word_le_nat_alt)
  then have "unat (refcnt (bufs s b) - 1) = vrefs a n - 1" using h(7) by (simp add: unat_sub)
  then have "follows dev p s (view_upd n (vdata a n) (vrefs a n - 1) (Some b) a) (upd_buf b (\<lambda>k. k\<lparr>refcnt := refcnt k - 1\<rparr>) s)"
    using ref_view [OF s, of "\<lambda>x. x - 1"] r by simp
  moreover have "bunpin b s = Ok () (upd_buf b (\<lambda>k. k\<lparr>refcnt := refcnt k - 1\<rparr>) s)"
    using c by (simp add: bunpin_def op_simps acquire_ok release_ok)
  ultimately show ?thesis by blast
qed

lemma bpin_view:
  fixes s :: "'z kdev_scheme"
  assumes s: "quiet p s" "shows_view dev p a s" "dev \<noteq> 0" "vheld a n = Some b" and r: "Suc (vrefs a n) < 2 ^ 32"
  shows "\<exists>t. bpin b s = Ok () t \<and> follows dev p s (view_upd n (vdata a n) (Suc (vrefs a n)) (Some b) a) t"
proof -
  note h = shows_held [OF s(2,4)]
  have c: "cpu_ok s" "lock_free BcacheLock s" using s(1) plocks_okD(1) by (auto simp: quiet_def)
  have "unat (refcnt (bufs s b) + 1) = Suc (vrefs a n)" using h(7) r by (simp add: unat_word_ariths)
  then have "follows dev p s (view_upd n (vdata a n) (Suc (vrefs a n)) (Some b) a) (upd_buf b (\<lambda>k. k\<lparr>refcnt := refcnt k + 1\<rparr>) s)"
    using ref_view [OF s, of "\<lambda>x. x + 1"] by simp
  moreover have "bpin b s = Ok () (upd_buf b (\<lambda>k. k\<lparr>refcnt := refcnt k + 1\<rparr>) s)"
    using c by (simp add: bpin_def op_simps acquire_ok release_ok)
  ultimately show ?thesis by blast
qed

lemma moved_front_kdev [simp]:
  "platter (moved_front b s) = platter s" "disk_writes (moved_front b s) = disk_writes s"
  "procs (moved_front b s) = procs s" "log_of (moved_front b s) = log_of s" "vdisk (moved_front b s) = vdisk s" "mycpu (moved_front b s) = mycpu s"
  "lock_free lk (moved_front b s) = lock_free lk s" "plocks_ok (moved_front b s) = plocks_ok s"
  by (simp_all add: moved_front_def link_front_def unlink_def set_next_def set_prev_def Let_def log_of_def)

lemma brelsed_kdev [simp]:
  "platter (brelsed b s) = platter s" "disk_writes (brelsed b s) = disk_writes s" "log_of (brelsed b s) = log_of s"
  "quiet p (brelsed b s) = quiet p s" "same_pids (procs (brelsed b s)) (procs s)"
  by (simp_all add: brelsed_def Let_def quiet_def same_pids_def)
     (simp_all add: upd_buf_def slock_freed_def upd_slock_def awakened_def map_procs_def woken_def log_of_def)

lemma brelse_view:
  fixes s :: "'z kdev_scheme"
  assumes s: "quiet p s" "shows_view dev p a s" "dev \<noteq> 0" "vheld a n = Some b" and d: "vrefs a n = 1 \<Longrightarrow> vdata a n = vplat a n"
  shows "\<exists>t. brelse b s = Ok () t \<and> follows dev p s (view_upd n (vdata a n) (vrefs a n - 1) None a) t"
proof -
  note h = shows_held [OF s(2,4)] and A = shows_viewD [OF s(2)]
  obtain xs where x: "bcache s xs" using s(2) by (auto simp: shows_view_def)
  let ?t = "brelsed b s"
  have "1 \<le> refcnt (bufs s b)" using h(7,8) by (simp add: word_le_nat_alt)
  then have r: "unat (refcnt (bufs s b) - 1) = vrefs a n - 1" using h(7) by (simp add: unat_sub)
  have "brelse b s = Ok () ?t" using brelse_ok [of s p b] s(1) h by (simp add: quiet_def)
  moreover have "shows_view dev p ((view_upd n (vdata a n) (vrefs a n - 1) None a)\<lparr>vplat := vplat a, vhist := vhist a\<rparr>) ?t"
    by (rule shows_replace [OF s(2,3) h(1) brelsed_bcache [OF x h(1)] brelsed_fields(1) _ _ _ _ _ brelsed_fields(2)])
       (use h r d A(4,5) in auto)
  ultimately show ?thesis using s(1) by (simp add: follows_def view_upd_def)
qed

end
