(* ===== verification/Xv6_Logview.thy ===== *)
theory Xv6_Logview
  imports Xv6_Bview
begin

text \<open>
  The log on top of the view of the buffer cache.  \<open>does dev p a L m Q\<close> is total
  correctness over views: from every quiet state that shows the view \<open>a\<close> and has the log
  fields \<open>L\<close>, the operation \<open>m\<close> returns in a quiet state whose view and log fields
  satisfy \<open>Q\<close>.  One rule per operation of the cache; the loops of
  \<^verbatim>\<open>kernel/log.c\<close> then become folds of single block writes.
\<close>

type_synonym lview = "int \<times> int \<times> int \<times> bool \<times> int \<times> logheader"

definition does :: "u32 \<Rightarrow> nat \<Rightarrow> bview \<Rightarrow> lview \<Rightarrow> ('z kdev_scheme, 'x) op \<Rightarrow> ('x \<Rightarrow> bview \<Rightarrow> lview \<Rightarrow> bool) \<Rightarrow> bool" where
  "does dev p a L m Q \<longleftrightarrow> (\<forall>s. quiet p s \<longrightarrow> shows_view dev p a s \<longrightarrow> log_of s = L \<longrightarrow>
     (\<exists>x t a'. m s = Ok x t \<and> quiet p t \<and> shows_view dev p a' t \<and> Q x a' (log_of t)))"

section \<open>Rules\<close>

lemma doesI:
  assumes "\<And>s. quiet p s \<Longrightarrow> shows_view dev p a s \<Longrightarrow> log_of s = L \<Longrightarrow>
     \<exists>x t a'. m s = Ok x t \<and> quiet p t \<and> shows_view dev p a' t \<and> Q x a' (log_of t)"
  shows "does dev p a L m Q"
  using assms by (simp add: does_def)

lemma does_bind:
  fixes m :: "('z kdev_scheme, 'x) op"
  assumes "does dev p a L m Q" "\<And>x a' L'. Q x a' L' \<Longrightarrow> does dev p a' L' (k x) R"
  shows "does dev p a L (bind m k) R"
proof (rule doesI)
  fix s :: "'z kdev_scheme" assume s: "quiet p s" "shows_view dev p a s" "log_of s = L"
  then obtain x t a' where t: "m s = Ok x t" "quiet p t" "shows_view dev p a' t" "Q x a' (log_of t)"
    using assms(1) unfolding does_def by blast
  show "\<exists>x t a'. bind m k s = Ok x t \<and> quiet p t \<and> shows_view dev p a' t \<and> R x a' (log_of t)"
    using assms(2) [OF t(4)] t(1-3) by (simp add: does_def bind_apply)
qed

lemma does_seq:
  assumes "does dev p a L m Q" "\<And>x a' L'. Q x a' L' \<Longrightarrow> does dev p a' L' k R"
  shows "does dev p a L (seq m k) R"
  using does_bind [of dev p a L m Q "\<lambda>_. k" R] assms by (simp add: bind_apply [abs_def] seq_apply [abs_def] does_def)

lemma does_last: "does dev p a L (seq m (ret ())) Q \<Longrightarrow> does dev p a L m Q"
  by simp

lemma does_eq: "does dev p a L m Q \<Longrightarrow> a = b \<Longrightarrow> does dev p b L m Q"
  by simp

lemma does_ret: "Q x a L \<Longrightarrow> does dev p a L (ret x) Q"
  by (rule doesI) auto

lemma does_gets:
  assumes "\<And>s. log_of s = L \<Longrightarrow> f s = v" "does dev p a L (k v) Q"
  shows "does dev p a L (bind (gets f) k) Q"
  using assms by (simp add: does_def bind_apply)

lemma does_modify:
  assumes "\<And>s. log_of s = L \<Longrightarrow> log_of (f s) = L'" "\<And>s. quiet p s \<Longrightarrow> quiet p (f s)"
    "\<And>s. shows_view dev p a s \<Longrightarrow> shows_view dev p a (f s)" "does dev p a L' m Q"
  shows "does dev p a L (seq (modify f) m) Q"
  using assms by (simp add: does_def seq_apply)

lemma does_follow:
  assumes "\<And>s. quiet p s \<Longrightarrow> shows_view dev p a s \<Longrightarrow> \<exists>t. m s = Ok x t \<and> follows dev p s a' t" "does dev p a' L k Q"
  shows "does dev p a L (seq m k) Q"
  by (rule does_seq [where Q = "\<lambda>_ b M. b = a' \<and> M = L"], rule doesI) (use assms in \<open>auto simp: follows_def, metis\<close>)

lemma does_bread:
  fixes E :: "'z kdev_scheme env"
  assumes "device_answers E" "dev \<noteq> 0" "room a n"
    and "\<And>b. does dev p (view_upd n (vdata a n) (Suc (vrefs a n)) (Some b) a) L (k b) Q"
  shows "does dev p a L (bind (bread E dev n) k) Q"
proof (rule does_bind)
  show "does dev p a L (bread E dev n) (\<lambda>b a' L'. a' = view_upd n (vdata a n) (Suc (vrefs a n)) (Some b) a \<and> L' = L)"
  proof (rule doesI)
    fix s :: "'z kdev_scheme" assume s: "quiet p s" "shows_view dev p a s" "log_of s = L"
    show "\<exists>x t a'. bread E dev n s = Ok x t \<and> quiet p t \<and> shows_view dev p a' t
        \<and> a' = view_upd n (vdata a n) (Suc (vrefs a n)) (Some x) a \<and> log_of t = L"
      using bread_view [OF assms(1) s(1,2) assms(2,3)] s(3) unfolding follows_def by metis
  qed
qed (use assms(4) in auto)

lemma does_get_data:
  fixes k :: "u8 list \<Rightarrow> ('z kdev_scheme, 'x) op"
  assumes "vheld a n = Some b" "does dev p a L (k (vdata a n)) Q"
  shows "does dev p a L (bind (get_data b) k) Q"
proof (rule doesI)
  fix s :: "'z kdev_scheme" assume s: "quiet p s" "shows_view dev p a s" "log_of s = L"
  then show "\<exists>x t a'. bind (get_data b) k s = Ok x t \<and> quiet p t \<and> shows_view dev p a' t \<and> Q x a' (log_of t)"
    using assms(2) shows_held(6) [OF s(2) assms(1)] by (simp add: does_def get_data_def op_simps)
qed

lemma does_set_data:
  assumes "vheld a n = Some b" "dev \<noteq> 0" "does dev p (view_upd n d (vrefs a n) (Some b) a) L m Q"
  shows "does dev p a L (seq (set_data b d) m) Q"
  by (rule does_follow [OF set_data_view [OF _ _ assms(2,1)] assms(3)])

lemma does_bwrite:
  assumes "device_answers E" "vheld a n = Some b" "dev \<noteq> 0"
    and "does dev p (a\<lparr>vplat := (vplat a)(n := vdata a n), vhist := vhist a @ [(n, vdata a n)]\<rparr>) L m Q"
  shows "does dev p a L (seq (bwrite E b) m) Q"
  by (rule does_follow [OF bwrite_view [OF assms(1) _ _ assms(3,2)] assms(4)])

lemma does_bunpin:
  assumes "vheld a n = Some b" "dev \<noteq> 0" "2 \<le> vrefs a n" "does dev p (view_upd n (vdata a n) (vrefs a n - 1) (Some b) a) L m Q"
  shows "does dev p a L (seq (bunpin b) m) Q"
  by (rule does_follow [OF bunpin_view [OF _ _ assms(2,1,3)] assms(4)])

lemma does_brelse:
  assumes "vheld a n = Some b" "dev \<noteq> 0" "vrefs a n = 1 \<longrightarrow> vdata a n = vplat a n"
    "does dev p (view_upd n (vdata a n) (vrefs a n - 1) None a) L m Q"
  shows "does dev p a L (seq (brelse b) m) Q"
  by (rule does_follow [OF brelse_view [OF _ _ assms(2,1) assms(3) [rule_format]] assms(4)])

lemma seq_bind: "seq (bind m f) k = bind m (\<lambda>x. seq (f x) k)"
  by (rule ext) (simp add: op_simps split: outcome.split)

lemma bind_gets: "bind (gets f) k = (\<lambda>s. k (f s) s)"
  by (rule ext) (simp add: op_simps)

section \<open>Blocks of the log\<close>

definition logb :: "int \<Rightarrow> nat \<Rightarrow> u32" where
  "logb st k = word_of_int (st + int k)"

definition home :: "logheader \<Rightarrow> nat \<Rightarrow> u32" where
  "home h i = word_of_int (lh_block h i)"

definition put_block :: "u32 \<Rightarrow> u8 list \<Rightarrow> bview \<Rightarrow> bview" where
  "put_block n d a = a\<lparr>vdata := (vdata a)(n := d), vplat := (vplat a)(n := d), vhist := vhist a @ [(n, d)]\<rparr>"

text \<open>No block is locked and \<open>k\<close> more blocks can be referenced.\<close>

definition spare :: "nat \<Rightarrow> bview \<Rightarrow> bool" where
  "spare k a \<longleftrightarrow> vheld a = Map.empty \<and> finite {m. vrefs a m \<noteq> 0} \<and> card {m. vrefs a m \<noteq> 0} + k \<le> NBUF
     \<and> (\<forall>m. vrefs a m \<le> 1) \<and> (\<forall>m. vrefs a m = 0 \<longrightarrow> vdata a m = vplat a m)"

lemma put_block_fields [simp]:
  "vrefs (put_block n d a) = vrefs a" "vheld (put_block n d a) = vheld a" "vdata (put_block n d a) = (vdata a)(n := d)"
  "vplat (put_block n d a) = (vplat a)(n := d)" "vhist (put_block n d a) = vhist a @ [(n, d)]"
  by (simp_all add: put_block_def)

lemma spare_put_block: "spare k a \<Longrightarrow> spare k (put_block n d a)"
  by (simp add: spare_def)

lemma view_upd_fields [simp]:
  "vrefs (view_upd n d r h a) = (vrefs a)(n := r)" "vheld (view_upd n d r h a) = (vheld a)(n := h)"
  "vdata (view_upd n d r h a) = (vdata a)(n := d)" "vplat (view_upd n d r h a) = vplat a" "vhist (view_upd n d r h a) = vhist a"
  by (simp_all add: view_upd_def)

lemma spare_room:
  assumes "spare k a" "0 < k"
  shows "room a n"
proof -
  have "vrefs a n \<le> 1" using assms by (simp add: spare_def)
  then have "Suc (vrefs a n) < 2 ^ 32" by simp
  then show ?thesis using assms by (auto simp: spare_def room_def)
qed

lemma spare_room2:
  assumes "spare k a" "vrefs a n = 0" "n \<noteq> m" "1 < k \<or> vrefs a m \<noteq> 0"
  shows "room (view_upd n d 1 (Some b) a) m"
proof -
  have s: "{i. vrefs (view_upd n d 1 (Some b) a) i \<noteq> 0} = insert n {i. vrefs a i \<noteq> 0}" by (auto simp: view_upd_def)
  have "card (insert n {i. vrefs a i \<noteq> 0}) = Suc (card {i. vrefs a i \<noteq> 0})" using assms(1,2) by (simp add: spare_def)
  moreover have "vrefs a m \<le> 1" using assms(1) by (simp add: spare_def)
  then have "Suc (vrefs a m) < 2 ^ 32" by simp
  ultimately show ?thesis using assms unfolding room_def s by (auto simp: spare_def view_upd_def)
qed

lemma does_log_block:
  fixes E :: "'z kdev_scheme env"
  assumes "device_answers E" "dev \<noteq> 0" "room a n" "dev = word_of_int dv" "n = word_of_int (st + i)"
    and "\<And>b. does dev p (view_upd n (vdata a n) (Suc (vrefs a n)) (Some b) a) (st, sz, ou, cm, dv, lh) (k b) Q"
  shows "does dev p a (st, sz, ou, cm, dv, lh) (bind (log_block E i) k) Q"
  unfolding log_block_def bind_assoc
  by (rule does_gets [where v = dv], simp add: log_of_def, rule does_gets [where v = st], simp add: log_of_def)
     (unfold assms(4,5) [symmetric], rule does_bread [OF assms(1-3,6)])

lemma does_home_block:
  fixes E :: "'z kdev_scheme env"
  assumes "device_answers E" "dev \<noteq> 0" "room a n" "dev = word_of_int dv" "n = home lh i" "i < LOGSIZE"
    and "\<And>b. does dev p (view_upd n (vdata a n) (Suc (vrefs a n)) (Some b) a) (st, sz, ou, cm, dv, lh) (k b) Q"
  shows "does dev p a (st, sz, ou, cm, dv, lh) (bind (home_block E i) k) Q"
proof -
  have g: "does dev p a (st, sz, ou, cm, dv, lh) (bind (gets (\<lambda>s. lh_block (log_lh s) i)) (\<lambda>bno. bind (gets log_dev)
      (\<lambda>dev. bind (bread E (word_of_int dev) (word_of_int bno)) k))) Q"
    by (rule does_gets [where v = "lh_block lh i"], simp add: log_of_def, rule does_gets [where v = dv], simp add: log_of_def)
       (unfold assms(4,5) [symmetric] home_def [symmetric], rule does_bread [OF assms(1-3,7)])
  show ?thesis unfolding home_block_def bind_assoc lh_get_def using g assms(6) by simp
qed

section \<open>The loops of a commit\<close>

text \<open>Copying a block through two locked buffers, as both loops of a commit do.\<close>

lemma does_copy:
  fixes E :: "'z kdev_scheme env"
  assumes E: "device_answers E" "dev \<noteq> 0" and h: "vheld a src = Some fb" "vheld a dst = Some tb" "src \<noteq> dst"
    and r: "vrefs a src = 1 \<longrightarrow> vdata a src = vplat a src" "u \<longrightarrow> 2 \<le> vrefs a dst"
    and k: "does dev p ((put_block dst (vdata a src) a)\<lparr>vheld := (vheld a)(src := None, dst := None),
      vrefs := (vrefs a)(src := vrefs a src - 1, dst := vrefs a dst - (if u then 2 else 1))\<rparr>) L k Q"
  shows "does dev p a L (bind (get_data fb) (\<lambda>d. seq (set_data tb d) (seq (bwrite E tb) (seq (do_if u (bunpin tb))
    (seq (brelse fb) (seq (brelse tb) k)))))) Q"
proof -
  note ne = h(3) h(3) [symmetric]
  let ?a = "put_block dst (vdata a src) a"
  have fin: "does dev p b L (seq (brelse fb) (seq (brelse tb) k)) Q"
    if "b = ?a\<lparr>vrefs := (vrefs a)(dst := vrefs a dst - (if u then 1 else 0))\<rparr>" for b
    by (rule does_brelse [where n = src], simp add: that h, rule E(2), simp add: that r ne,
        rule does_brelse [where n = dst], simp add: that h ne, rule E(2), simp add: that ne,
        rule does_eq [OF k], rule bview.equality) (simp_all add: that ne fun_eq_iff numeral_2_eq_2)
  have b: "view_upd dst (vdata a src) (vrefs a dst) (Some tb) a = a\<lparr>vdata := (vdata a)(dst := vdata a src)\<rparr>"
    using h by (simp add: view_upd_def fun_upd_idem)
  have w: "does dev p (view_upd dst (vdata a src) (vrefs a dst) (Some tb) a) L (seq (bwrite E tb) m) Q" if "does dev p ?a L m Q" for m
    by (rule does_bwrite [OF E(1), where n = dst], simp, rule E(2), rule does_eq [OF that])
       (simp add: b put_block_def)
  have "does dev p ?a L (seq (do_if u (bunpin tb)) (seq (brelse fb) (seq (brelse tb) k))) Q"
  proof (cases u)
    case True
    then have "does dev p ?a L (seq (bunpin tb) (seq (brelse fb) (seq (brelse tb) k))) Q"
      by (intro does_bunpin [where n = dst] fin) (use h(2) E(2) r in \<open>simp_all add: view_upd_def put_block_def fun_upd_idem\<close>)
    then show ?thesis using True by simp
  next
    case False
    then show ?thesis using fin [of ?a] by simp
  qed
  then show ?thesis
    by (intro does_get_data [OF h(1)] does_set_data [OF h(2) E(2)] w)
qed

lemma does_write_log_step:
  fixes E :: "'z kdev_scheme env"
  assumes E: "device_answers E" "dev \<noteq> 0" "dev = word_of_int dv" and i: "i < LOGSIZE"
    and a: "spare 1 a" "vrefs a n = 0" "vrefs a h \<noteq> 0" and n: "n = logb st (Suc i)" "h = home lh i"
    and k: "does dev p (put_block n (vdata a h) a) (st, sz, ou, cm, dv, lh) k Q"
  shows "does dev p a (st, sz, ou, cm, dv, lh) (seq
    (bind (log_block E (int i + 1)) (\<lambda>to. bind (home_block E i) (\<lambda>src. seq (bind (get_data src) (set_data to))
      (seq (bwrite E to) (seq (brelse src) (brelse to)))))) k) Q"
proof -
  have ne: "n \<noteq> h" "h \<noteq> n" using a by auto
  have none: "vheld a m = None" for m using a(1) by (simp add: spare_def)
  show ?thesis unfolding seq_bind seq_assoc
  proof (rule does_log_block [OF E(1,2) _ E(3)])
    show "room a n" using spare_room [OF a(1)] by simp
    show "n = word_of_int (st + (int i + 1))" by (simp add: n logb_def algebra_simps)
    fix to
    let ?a1 = "view_upd n (vdata a n) (Suc (vrefs a n)) (Some to) a"
    show "does dev p ?a1 (st, sz, ou, cm, dv, lh) (bind (home_block E i) (\<lambda>src. bind (get_data src) (\<lambda>d. seq (set_data to d)
        (seq (bwrite E to) (seq (brelse src) (seq (brelse to) k)))))) Q"
    proof (rule does_home_block [OF E(1,2) _ E(3) n(2) i])
      show "room ?a1 h" using spare_room2 [OF a(1,2) ne(1)] a(2,3) by simp
      fix src
      let ?a2 = "view_upd h (vdata ?a1 h) (Suc (vrefs ?a1 h)) (Some src) ?a1"
      have eq: "put_block n (vdata a h) a = (put_block n (vdata ?a2 h) ?a2)\<lparr>vheld := (vheld ?a2)(h := None, n := None),
          vrefs := (vrefs ?a2)(h := vrefs ?a2 h - 1, n := vrefs ?a2 n - (if False then 2 else 1))\<rparr>"
        by (rule bview.equality) (use ne none a(2) in \<open>simp_all add: fun_eq_iff\<close>)
      show "does dev p ?a2 (st, sz, ou, cm, dv, lh)
          (bind (get_data src) (\<lambda>d. seq (set_data to d) (seq (bwrite E to) (seq (brelse src) (seq (brelse to) k))))) Q"
        using does_copy [OF E(1,2), of ?a2 h src n to False p "(st, sz, ou, cm, dv, lh)" k Q, folded eq] k ne a(3) by simp
    qed
  qed
qed

definition install_block :: "int \<Rightarrow> logheader \<Rightarrow> nat \<Rightarrow> bview \<Rightarrow> bview" where
  "install_block st lh i a = (put_block (home lh i) (vdata a (logb st (Suc i))) a)\<lparr>vrefs := (vrefs a)(home lh i := 0)\<rparr>"

lemma does_install_step:
  fixes E :: "'z kdev_scheme env"
  assumes E: "device_answers E" "dev \<noteq> 0" "dev = word_of_int dv" and i: "i < LOGSIZE"
    and a: "spare (if u then 1 else 2) a" "vrefs a n = 0" "(vrefs a h \<noteq> 0) = u" "n \<noteq> h" and n: "n = logb st (Suc i)" "h = home lh i"
    and k: "does dev p (install_block st lh i a) (st, sz, ou, cm, dv, lh) k Q"
  shows "does dev p a (st, sz, ou, cm, dv, lh) (seq
    (bind (log_block E (int i + 1)) (\<lambda>lb. bind (home_block E i) (\<lambda>db. seq (bind (get_data lb) (set_data db))
      (seq (bwrite E db) (seq (do_if u (bunpin db)) (seq (brelse lb) (brelse db))))))) k) Q"
proof -
  note ne = a(4) a(4) [symmetric]
  have none: "vheld a m = None" for m using a(1) by (simp add: spare_def)
  have clean: "vrefs a h \<le> 1" using a(1) by (simp add: spare_def)
  show ?thesis unfolding seq_bind seq_assoc
  proof (rule does_log_block [OF E(1,2) _ E(3)])
    show "room a n" using spare_room [OF a(1)] by simp
    show "n = word_of_int (st + (int i + 1))" by (simp add: n logb_def algebra_simps)
    fix lb
    let ?a1 = "view_upd n (vdata a n) (Suc (vrefs a n)) (Some lb) a"
    show "does dev p ?a1 (st, sz, ou, cm, dv, lh) (bind (home_block E i) (\<lambda>db. bind (get_data lb) (\<lambda>d. seq (set_data db d)
        (seq (bwrite E db) (seq (do_if u (bunpin db)) (seq (brelse lb) (seq (brelse db) k))))))) Q"
    proof (rule does_home_block [OF E(1,2) _ E(3) n(2) i])
      show "room ?a1 h" using spare_room2 [OF a(1,2,4)] a(2,3) by (cases u) auto
      fix db
      let ?a2 = "view_upd h (vdata ?a1 h) (Suc (vrefs ?a1 h)) (Some db) ?a1"
      have eq: "install_block st lh i a = (put_block h (vdata ?a2 n) ?a2)\<lparr>vheld := (vheld ?a2)(n := None, h := None),
          vrefs := (vrefs ?a2)(n := vrefs ?a2 n - 1, h := vrefs ?a2 h - (if u then 2 else 1))\<rparr>"
        by (rule bview.equality)
           (use ne none a(2,3) clean in \<open>auto simp: fun_eq_iff install_block_def n [symmetric]\<close>)
      have "vdata a n = vplat a n" using a(1,2) by (simp add: spare_def)
      then show "does dev p ?a2 (st, sz, ou, cm, dv, lh) (bind (get_data lb) (\<lambda>d. seq (set_data db d)
        (seq (bwrite E db) (seq (do_if u (bunpin db)) (seq (brelse lb) (seq (brelse db) k)))))) Q"
        by (intro does_copy [OF E(1,2) _ _ ne(1) _ _ does_eq [OF k eq]]) (use ne a(2,3) in auto)
    qed
  qed
qed

text \<open>The two loops as folds.\<close>

definition log_copy :: "int \<Rightarrow> logheader \<Rightarrow> nat \<Rightarrow> bview \<Rightarrow> bview" where
  "log_copy st lh i a = put_block (logb st (Suc i)) (vdata a (home lh i)) a"

text \<open>The blocks the header names lie outside the log.\<close>

definition outside_log :: "int \<Rightarrow> u32 \<Rightarrow> bool" where
  "outside_log st n \<longleftrightarrow> (\<forall>k \<le> LOGSIZE. n \<noteq> logb st k)"

lemma does_write_log_loop:
  fixes E :: "'z kdev_scheme env"
  assumes E: "device_answers E" "dev \<noteq> 0" "dev = word_of_int dv"
    and "spare 1 a" "\<And>i. i \<in> set is \<Longrightarrow> i < LOGSIZE \<and> vrefs a (logb st (Suc i)) = 0 \<and> vrefs a (home lh i) \<noteq> 0"
    and "does dev p (fold (log_copy st lh) is a) (st, sz, ou, cm, dv, lh) k Q"
  shows "does dev p a (st, sz, ou, cm, dv, lh) (seq (for_each is (\<lambda>i. bind (log_block E (int i + 1)) (\<lambda>to. bind (home_block E i)
    (\<lambda>src. seq (bind (get_data src) (set_data to)) (seq (bwrite E to) (seq (brelse src) (brelse to))))))) k) Q"
  using assms(4-)
proof (induction "is" arbitrary: a)
  case (Cons i "is")
  show ?case unfolding for_each.simps seq_assoc
  proof (rule does_write_log_step [OF E _ _ _ _ refl refl])
    show "i < LOGSIZE" "spare 1 a" "vrefs a (logb st (Suc i)) = 0" "vrefs a (home lh i) \<noteq> 0" using Cons.prems(1,2) by simp_all
    show "does dev p (put_block (logb st (Suc i)) (vdata a (home lh i)) a) (st, sz, ou, cm, dv, lh)
       (seq (for_each is (\<lambda>i. bind (log_block E (int i + 1)) (\<lambda>to. bind (home_block E i) (\<lambda>src. seq (bind (get_data src) (set_data to))
        (seq (bwrite E to) (seq (brelse src) (brelse to))))))) k) Q"
      by (rule Cons.IH) (use Cons.prems spare_put_block [OF Cons.prems(1)] in \<open>simp_all add: log_copy_def\<close>)
  qed
qed simp

lemma spare_install_block:
  assumes "spare k a"
  shows "spare k (install_block st lh i a)"
proof -
  have "{m. vrefs (install_block st lh i a) m \<noteq> 0} = {m. vrefs a m \<noteq> 0} - {home lh i}" by (auto simp: install_block_def)
  moreover have "card ({m. vrefs a m \<noteq> 0} - {home lh i}) \<le> card {m. vrefs a m \<noteq> 0}" by (rule card_Diff1_le)
  ultimately show ?thesis using assms unfolding spare_def by (simp add: install_block_def)
qed

lemma does_install_loop:
  fixes E :: "'z kdev_scheme env"
  assumes E: "device_answers E" "dev \<noteq> 0" "dev = word_of_int dv"
    and "spare (if u then 1 else 2) a" "u \<longrightarrow> distinct (map (home lh) is)"
      "\<And>i. i \<in> set is \<Longrightarrow> i < LOGSIZE \<and> vrefs a (logb st (Suc i)) = 0 \<and> (vrefs a (home lh i) \<noteq> 0) = u \<and> outside_log st (home lh i)"
    and "does dev p (fold (install_block st lh) is a) (st, sz, ou, cm, dv, lh) k Q"
  shows "does dev p a (st, sz, ou, cm, dv, lh) (seq (for_each is (\<lambda>i. bind (log_block E (int i + 1)) (\<lambda>lb. bind (home_block E i)
    (\<lambda>db. seq (bind (get_data lb) (set_data db)) (seq (bwrite E db) (seq (do_if u (bunpin db)) (seq (brelse lb) (brelse db)))))))) k) Q"
  using assms(4-)
proof (induction "is" arbitrary: a)
  case (Cons i "is")
  have i: "i < LOGSIZE" "vrefs a (logb st (Suc i)) = 0" "(vrefs a (home lh i) \<noteq> 0) = u" "outside_log st (home lh i)"
    using Cons.prems(3) [of i] by simp_all
  show ?case unfolding for_each.simps seq_assoc
  proof (rule does_install_step [OF E i(1) Cons.prems(1) i(2,3) _ refl refl])
    show "logb st (Suc i) \<noteq> home lh i" using i(1,4) unfolding outside_log_def by (metis Suc_leI)
    show "does dev p (install_block st lh i a) (st, sz, ou, cm, dv, lh)
       (seq (for_each is (\<lambda>i. bind (log_block E (int i + 1)) (\<lambda>lb. bind (home_block E i) (\<lambda>db. seq (bind (get_data lb) (set_data db))
        (seq (bwrite E db) (seq (do_if u (bunpin db)) (seq (brelse lb) (brelse db)))))))) k) Q"
    proof (rule Cons.IH)
      fix j assume j: "j \<in> set is"
      then have "u \<longrightarrow> home lh j \<noteq> home lh i" using Cons.prems(2) by (metis distinct.simps(2) image_eqI list.set_map list.simps(9))
      then show "j < LOGSIZE \<and> vrefs (install_block st lh i a) (logb st (Suc j)) = 0
          \<and> (vrefs (install_block st lh i a) (home lh j) \<noteq> 0) = u \<and> outside_log st (home lh j)"
        using Cons.prems(3) [of j] j by (auto simp: install_block_def)
    qed (use Cons.prems spare_install_block [OF Cons.prems(1)] in simp_all)
  qed
qed simp

section \<open>The header\<close>

definition header_bytes :: "logheader \<Rightarrow> u8 list \<Rightarrow> u8 list" where
  "header_bytes lh d = fold (\<lambda>i d. put_bytes d (4 + 4 * i) (le32 (home lh i))) [0..<nat (lh_n lh)]
     (put_bytes d 0 (le32 (word_of_int (lh_n lh))))"

lemma does_head_loop:
  assumes "vheld a n = Some b" "dev \<noteq> 0" "set is \<subseteq> {..<LOGSIZE}"
    and "does dev p (view_upd n (fold (\<lambda>i d. put_bytes d (4 + 4 * i) (le32 (home lh i))) is (vdata a n)) (vrefs a n) (Some b) a) (st, sz, ou, cm, dv, lh) k Q"
  shows "does dev p a (st, sz, ou, cm, dv, lh) (seq (for_each is (\<lambda>i. bind (lh_get i)
     (\<lambda>v. bind (get_data b) (\<lambda>d. set_data b (put_bytes d (4 + 4 * i) (le32 (word_of_int v))))))) k) Q"
  using assms
proof (induction "is" arbitrary: a)
  case (Cons i "is")
  let ?d = "put_bytes (vdata a n) (4 + 4 * i) (le32 (home lh i))"
  let ?a = "view_upd n ?d (vrefs a n) (Some b) a" and ?body = "\<lambda>i. bind (lh_get i) (\<lambda>v. bind (get_data b) (\<lambda>d. set_data b (put_bytes d (4 + 4 * i) (le32 (word_of_int v)))))"
  have rest: "does dev p ?a (st, sz, ou, cm, dv, lh) (seq (for_each is ?body) k) Q"
    by (rule Cons.IH) (use Cons.prems in \<open>simp_all add: view_upd_def\<close>)
  have "does dev p a (st, sz, ou, cm, dv, lh) (bind (gets (\<lambda>s. lh_block (log_lh s) i)) (\<lambda>v. bind (get_data b)
      (\<lambda>d. seq (set_data b (put_bytes d (4 + 4 * i) (le32 (word_of_int v)))) (seq (for_each is ?body) k)))) Q"
    by (rule does_gets [where v = "lh_block lh i"], simp add: log_of_def, rule does_get_data [OF Cons.prems(1)],
        rule does_set_data [OF Cons.prems(1,2)]) (use rest in \<open>simp add: home_def\<close>)
  then show ?case using Cons.prems(3) by (simp add: lh_get_def seq_bind seq_assoc)
qed simp

lemma does_write_head:
  fixes E :: "'z kdev_scheme env"
  assumes E: "device_answers E" "dev \<noteq> 0" "dev = word_of_int dv" and a: "spare 1 a" "vrefs a n = 0" "lh_n lh \<le> int LOGSIZE"
    and n: "n = logb st 0"
    and k: "does dev p (put_block n (header_bytes lh (vdata a n)) a) (st, sz, ou, cm, dv, lh) k Q"
  shows "does dev p a (st, sz, ou, cm, dv, lh) (seq (write_head E) k) Q"
  unfolding write_head_def seq_bind seq_assoc
proof (rule does_log_block [OF E(1,2) _ E(3)])
  show "room a n" using spare_room [OF a(1)] by simp
  show "n = word_of_int (st + 0)" by (simp add: n logb_def)
  fix b
  let ?a = "view_upd n (vdata a n) (Suc (vrefs a n)) (Some b) a" and ?L = "(st, sz, ou, cm, dv, lh)"
  let ?b = "view_upd n (header_bytes lh (vdata a n)) (Suc (vrefs a n)) (Some b) a"
  let ?loop = "\<lambda>m. for_each [0..<nat m] (\<lambda>i. bind (lh_get i)
     (\<lambda>v. bind (get_data b) (\<lambda>d. set_data b (put_bytes d (4 + 4 * i) (le32 (word_of_int v))))))"
  have eq: "put_block n (header_bytes lh (vdata a n)) a = view_upd n (header_bytes lh (vdata a n)) 0 None
      (?b\<lparr>vplat := (vplat a)(n := header_bytes lh (vdata a n)), vhist := vhist a @ [(n, header_bytes lh (vdata a n))]\<rparr>)"
    by (rule bview.equality) (use a in \<open>simp_all add: fun_eq_iff spare_def\<close>)
  have w: "does dev p ?b ?L (seq (bwrite E b) (seq (brelse b) k)) Q"
    by (rule does_bwrite [OF E(1), where n = n], simp, rule E(2), rule does_brelse [where n = n], simp, rule E(2), simp,
        rule does_eq [OF k]) (simp add: eq a(2))
  show "does dev p ?a ?L (bind (gets (\<lambda>s. lh_n (log_lh s))) (\<lambda>m. bind (get_data b) (\<lambda>d. seq (set_data b (put_bytes d 0 (le32 (word_of_int m))))
      (seq (?loop m) (seq (bwrite E b) (seq (brelse b) k)))))) Q"
    by (rule does_gets [where v = "lh_n lh"], simp add: log_of_def, rule does_get_data [where n = n], simp,
        rule does_set_data [where n = n], simp, rule E(2), rule does_head_loop [where n = n], simp, rule E(2), use a(3) in fastforce,
        rule does_eq [OF w], simp add: view_upd_def header_bytes_def)
qed

lemma log_lh_frame [simp]:
  "quiet p (log_lh_update f s) = quiet p s" "shows_view dev p a (log_lh_update f s) = shows_view dev p a s"
  by (simp_all add: quiet_def shows_view_def bcache_def dlist_def caches_def)

lemma does_set_lh_n:
  assumes "does dev p a (st, sz, ou, cm, dv, lh\<lparr>lh_n := m\<rparr>) k Q"
  shows "does dev p a (st, sz, ou, cm, dv, lh) (seq (set_lh_n m) k) Q"
  unfolding set_lh_n_def by (rule does_modify [OF _ _ _ assms]) (simp_all add: log_of_def)

section \<open>Commit\<close>

definition commit_view :: "int \<Rightarrow> logheader \<Rightarrow> bview \<Rightarrow> bview" where
  "commit_view st lh a =
     (let is = [0..<nat (lh_n lh)]; a = fold (log_copy st lh) is a; a = put_block (logb st 0) (header_bytes lh (vdata a (logb st 0))) a;
          a = fold (install_block st lh) is a
      in put_block (logb st 0) (header_bytes (lh\<lparr>lh_n := 0\<rparr>) (vdata a (logb st 0))) a)"

text \<open>A transaction that is ready to commit: its blocks are different, lie outside the log and are pinned.\<close>

definition ready :: "int \<Rightarrow> logheader \<Rightarrow> bview \<Rightarrow> bool" where
  "ready st lh a \<longleftrightarrow> 0 \<le> lh_n lh \<and> lh_n lh \<le> int LOGSIZE \<and> spare 1 a \<and> distinct (map (home lh) [0..<nat (lh_n lh)])
     \<and> (\<forall>i < nat (lh_n lh). vrefs a (home lh i) \<noteq> 0 \<and> outside_log st (home lh i)) \<and> (\<forall>k \<le> LOGSIZE. vrefs a (logb st k) = 0)"

lemma fold_log_copy [simp]:
  "vrefs (fold (log_copy st lh) is a) = vrefs a" "vheld (fold (log_copy st lh) is a) = vheld a"
  by (induction "is" arbitrary: a) (simp_all add: log_copy_def)

lemma spare_log_copy: "spare k a \<Longrightarrow> spare k (fold (log_copy st lh) is a)"
  by (induction "is" arbitrary: a) (simp_all add: log_copy_def spare_put_block)

lemma spare_fold_install: "spare k a \<Longrightarrow> spare k (fold (install_block st lh) is a)"
  by (induction "is" arbitrary: a) (simp_all add: spare_install_block)

lemma vrefs_fold_install: "vrefs a n = 0 \<Longrightarrow> vrefs (fold (install_block st lh) is a) n = 0"
  by (induction "is" arbitrary: a) (simp_all add: install_block_def)

lemma does_commit:
  fixes E :: "'z kdev_scheme env"
  assumes E: "device_answers E" "dev \<noteq> 0" "dev = word_of_int dv" and r: "ready st lh a" "0 < lh_n lh"
  shows "does dev p a (st, sz, ou, cm, dv, lh) (commit E)
    (\<lambda>_ a' L. a' = commit_view st lh a \<and> L = (st, sz, ou, cm, dv, lh\<lparr>lh_n := 0\<rparr>))" (is "does dev p a ?L _ ?Q")
proof -
  let ?is = "[0..<nat (lh_n lh)]"
  define a1 where "a1 = fold (log_copy st lh) ?is a"
  define a2 where "a2 = put_block (logb st 0) (header_bytes lh (vdata a1 (logb st 0))) a1"
  define a3 where "a3 = fold (install_block st lh) ?is a2"
  have s: "spare 1 a1" "spare 1 a2" "spare 1 a3" "vrefs a1 = vrefs a" "vrefs a2 = vrefs a" "vrefs a3 (logb st 0) = 0"
    using r by (simp_all add: a1_def a2_def a3_def ready_def spare_log_copy spare_put_block spare_fold_install vrefs_fold_install)
  have i: "i < LOGSIZE \<and> vrefs a (logb st (Suc i)) = 0 \<and> vrefs a (home lh i) \<noteq> 0 \<and> outside_log st (home lh i)" if "i \<in> set ?is" for i
    using that r(1) by (auto simp: ready_def)
  have c4: "does dev p a3 ?L (seq (set_lh_n 0) (write_head E)) ?Q"
    by (rule does_set_lh_n, rule does_last, rule does_write_head [OF E s(3,6) _ refl], simp, rule does_ret)
       (simp add: commit_view_def Let_def a1_def a2_def a3_def)
  have c3: "does dev p a2 ?L (seq (install_trans E False) (seq (set_lh_n 0) (write_head E))) ?Q"
    unfolding install_trans_def not_False_eq_True
    by (subst seq_bind, rule does_gets [where v = "lh_n lh"], simp add: log_of_def,
        rule does_install_loop [where u = True, OF E]) (use r i s c4 in \<open>simp_all add: ready_def a3_def\<close>)
  have c2: "does dev p a1 ?L (seq (write_head E) (seq (install_trans E False) (seq (set_lh_n 0) (write_head E)))) ?Q"
    by (rule does_write_head [OF E s(1) _ _ refl]) (use r s c3 in \<open>simp_all add: ready_def a2_def\<close>)
  have "does dev p a ?L (seq (write_log E) (seq (write_head E) (seq (install_trans E False) (seq (set_lh_n 0) (write_head E))))) ?Q"
    unfolding write_log_def
    by (subst seq_bind, rule does_gets [where v = "lh_n lh"], simp add: log_of_def,
        rule does_write_log_loop [OF E]) (use r i c2 in \<open>simp_all add: ready_def a1_def\<close>)
  then show ?thesis unfolding commit_def by (intro does_gets [where v = "lh_n lh"]) (use r(2) in \<open>simp_all add: log_of_def\<close>)
qed

section \<open>Recovery\<close>

definition head_at :: "u8 list \<Rightarrow> logheader \<Rightarrow> logheader" where
  "head_at d lh = fold (\<lambda>i lh. lh\<lparr>lh_block := (lh_block lh)(i := sint (get32 d (4 + 4 * i)))\<rparr>) [0..<nat (sint (get32 d 0))]
     (lh\<lparr>lh_n := sint (get32 d 0)\<rparr>)"

lemma does_lh_set_loop:
  assumes "set is \<subseteq> {..<LOGSIZE}"
    and "does dev p a (st, sz, ou, cm, dv, fold (\<lambda>i lh. lh\<lparr>lh_block := (lh_block lh)(i := f i)\<rparr>) is lh) k Q"
  shows "does dev p a (st, sz, ou, cm, dv, lh) (seq (for_each is (\<lambda>i. lh_set i (f i))) k) Q"
  using assms
proof (induction "is" arbitrary: lh)
  case (Cons i "is")
  have "does dev p a (st, sz, ou, cm, dv, lh\<lparr>lh_block := (lh_block lh)(i := f i)\<rparr>) (seq (for_each is (\<lambda>i. lh_set i (f i))) k) Q"
    by (rule Cons.IH) (use Cons.prems(1) in simp, use Cons.prems(2) in \<open>simp only: fold_simps\<close>)
  then have "does dev p a (st, sz, ou, cm, dv, lh) (seq (modify (\<lambda>s. s\<lparr>log_lh := (log_lh s)\<lparr>lh_block := (lh_block (log_lh s))(i := f i)\<rparr>\<rparr>))
      (seq (for_each is (\<lambda>i. lh_set i (f i))) k)) Q"
    by (intro does_modify) (simp_all add: log_of_def)
  then show ?case using Cons.prems(1) by (simp add: lh_set_def seq_assoc)
qed simp

lemma does_read_head:
  fixes E :: "'z kdev_scheme env"
  assumes E: "device_answers E" "dev \<noteq> 0" "dev = word_of_int dv" and a: "spare 1 a" "vrefs a n = 0" "sint (get32 (vdata a n) 0) \<le> int LOGSIZE"
    and n: "n = logb st 0" and k: "does dev p a (st, sz, ou, cm, dv, head_at (vdata a n) lh) k Q"
  shows "does dev p a (st, sz, ou, cm, dv, lh) (seq (read_head E) k) Q"
  unfolding read_head_def seq_bind seq_assoc
proof (rule does_log_block [OF E(1,2) _ E(3)])
  show "room a n" using spare_room [OF a(1)] by simp
  show "n = word_of_int (st + 0)" by (simp add: n logb_def)
  fix b
  let ?a = "view_upd n (vdata a n) (Suc (vrefs a n)) (Some b) a" and ?d = "vdata a n"
  have eq: "a = view_upd n (vdata ?a n) (vrefs ?a n - 1) None ?a" by (rule bview.equality) (use a in \<open>simp_all add: fun_eq_iff spare_def\<close>)
  have c: "vdata a n = vplat a n" using a(1,2) by (simp add: spare_def)
  have "does dev p ?a (st, sz, ou, cm, dv, head_at ?d lh) (seq (brelse b) k) Q"
    by (rule does_brelse [where n = n], simp, rule E(2), simp add: c, rule does_eq [OF k eq])
  then have "does dev p ?a (st, sz, ou, cm, dv, lh) (seq (set_lh_n (sint (get32 ?d 0)))
      (seq (for_each [0..<nat (sint (get32 ?d 0))] (\<lambda>i. lh_set i (sint (get32 ?d (4 + 4 * i))))) (seq (brelse b) k))) Q"
    by (intro does_set_lh_n does_lh_set_loop) (use a(3) in \<open>auto simp: head_at_def\<close>)
  then show "does dev p ?a (st, sz, ou, cm, dv, lh) (bind (get_data b) (\<lambda>d. seq (set_lh_n (sint (get32 d 0)))
      (seq (for_each [0..<nat (sint (get32 d 0))] (\<lambda>i. lh_set i (sint (get32 d (4 + 4 * i))))) (seq (brelse b) k)))) Q"
    by (intro does_get_data [where n = n]) simp_all
qed

definition recover_view :: "int \<Rightarrow> logheader \<Rightarrow> bview \<Rightarrow> bview" where
  "recover_view st lh a =
     (let a = fold (install_block st lh) [0..<nat (lh_n lh)] a
      in put_block (logb st 0) (header_bytes (lh\<lparr>lh_n := 0\<rparr>) (vdata a (logb st 0))) a)"

lemma does_recover:
  fixes E :: "'z kdev_scheme env"
  assumes E: "device_answers E" "dev \<noteq> 0" "dev = word_of_int dv" and a: "spare 2 a" "vrefs a = (\<lambda>_. 0)"
    and h: "lh' = head_at (vdata a (logb st 0)) lh" "sint (get32 (vdata a (logb st 0)) 0) \<le> int LOGSIZE" "lh_n lh' = sint (get32 (vdata a (logb st 0)) 0)"
      "\<forall>i < nat (lh_n lh'). outside_log st (home lh' i)"
  shows "does dev p a (st, sz, ou, cm, dv, lh) (recover_from_log E)
    (\<lambda>_ a' L. a' = recover_view st lh' a \<and> L = (st, sz, ou, cm, dv, lh'\<lparr>lh_n := 0\<rparr>))" (is "does dev p a ?L _ ?Q")
proof -
  let ?M = "(st, sz, ou, cm, dv, lh')"
  define a1 where "a1 = fold (install_block st lh') [0..<nat (lh_n lh')] a"
  have s1: "spare 1 a" using a(1) by (simp add: spare_def)
  have s: "spare 1 a1" "vrefs a1 (logb st 0) = 0"
    using spare_fold_install [OF s1] a(2) by (simp_all add: a1_def vrefs_fold_install)
  have c3: "does dev p a1 ?M (seq (set_lh_n 0) (write_head E)) ?Q"
    by (rule does_set_lh_n, rule does_last, rule does_write_head [OF E s _ refl], simp, rule does_ret)
       (simp add: recover_view_def Let_def a1_def)
  have c2: "does dev p a ?M (seq (install_trans E True) (seq (set_lh_n 0) (write_head E))) ?Q"
    unfolding install_trans_def not_True_eq_False
    by (subst seq_bind, rule does_gets [where v = "lh_n lh'"], simp add: log_of_def,
        rule does_install_loop [where u = False, OF E]) (use a h c3 in \<open>auto simp: a1_def\<close>)
  then show ?thesis unfolding recover_from_log_def
    by (intro does_read_head [OF E s1 _ h(2) refl]) (use a(2) h(1) in simp_all)
qed

end
