(* ===== verification/Xv6_Crash.thy ===== *)
theory Xv6_Crash
  imports Xv6_Logview
begin

text \<open>
  Crash safety of the log.  A crash keeps the disk as some prefix of the writes left it and
  loses everything else; what counts is what recovery makes of that disk.  A commit is atomic:
  whatever prefix of its writes reached the disk, recovery yields the old contents of all
  blocks or the new contents of all blocks.
\<close>

section \<open>Disks and recovery\<close>

type_synonym contents = "u32 \<Rightarrow> u8 list"

definition replay :: "(u32 \<times> u8 list) list \<Rightarrow> contents \<Rightarrow> contents" where
  "replay ws P = fold (\<lambda>(n, d) P. P(n := d)) ws P"

text \<open>What recovery makes of a disk, as far as the blocks outside the log are concerned.\<close>

definition disk_recovers :: "int \<Rightarrow> contents \<Rightarrow> contents" where
  "disk_recovers st P =
     (let d = P (logb st 0)
      in fold (\<lambda>i Q. Q(get32 d (4 + 4 * i) := Q (logb st (Suc i)))) [0..<nat (sint (get32 d 0))] P)"

lemma replay_simps [simp]: "replay [] P = P" "replay ((n, d) # ws) P = replay ws (P(n := d))" "replay (us @ ws) P = replay ws (replay us P)"
  by (simp_all add: replay_def)

lemma replay_other: "m \<notin> fst ` set ws \<Longrightarrow> replay ws P m = P m"
  by (induction ws arbitrary: P) auto

lemma logb_inj: "i \<le> LOGSIZE \<Longrightarrow> j \<le> LOGSIZE \<Longrightarrow> logb st i = logb st j \<longleftrightarrow> i = j"
proof -
  assume ij: "i \<le> LOGSIZE" "j \<le> LOGSIZE"
  have "i = j" if "logb st i = logb st j"
  proof -
    have "(word_of_int (int i) :: u32) = word_of_int (int j)" using that by (simp add: logb_def wi_hom_add [symmetric])
    then have "i mod 2 ^ 32 = j mod 2 ^ 32" by (simp add: word_of_nat_eq_iff take_bit_eq_mod)
    then show ?thesis using ij by (simp add: LOGSIZE_def MAXOPBLOCKS_def)
  qed
  then show ?thesis by auto
qed

text \<open>A disk on which the transaction with blocks \<open>hs\<close> is committed: recovery will give \<open>V\<close>.\<close>

definition committed :: "int \<Rightarrow> nat \<Rightarrow> (nat \<Rightarrow> u32) \<Rightarrow> contents \<Rightarrow> contents \<Rightarrow> bool" where
  "committed st n hs V P \<longleftrightarrow> sint (get32 (P (logb st 0)) 0) = int n
     \<and> (\<forall>i < n. get32 (P (logb st 0)) (4 + 4 * i) = hs i \<and> P (logb st (Suc i)) = V (hs i))
     \<and> (\<forall>m. outside_log st m \<longrightarrow> m \<notin> hs ` {..<n} \<longrightarrow> P m = V m)"

lemma outside_logD: "outside_log st m \<Longrightarrow> k \<le> LOGSIZE \<Longrightarrow> m \<noteq> logb st k \<and> logb st k \<noteq> m"
  by (auto simp: outside_log_def)

lemma committed_recovers:
  assumes "committed st n hs V P" "n \<le> LOGSIZE" "\<And>i. i < n \<Longrightarrow> outside_log st (hs i)" "outside_log st m"
  shows "disk_recovers st P m = V m"
proof -
  have "fold (\<lambda>i Q. Q(get32 (P (logb st 0)) (4 + 4 * i) := Q (logb st (Suc i)))) [0..<k] P x = (if x \<in> hs ` {..<k} then V x else P x)"
    if "k \<le> n" for k x using that
  proof (induction k arbitrary: x)
    case (Suc k)
    have "logb st (Suc k) \<noteq> hs j" if "j < k" for j
      using outside_logD [OF assms(3), of j "Suc k"] assms(2) Suc.prems that by simp
    then have "logb st (Suc k) \<notin> hs ` {..<k}" by auto
    then show ?case using Suc assms(1) by (auto simp: committed_def less_Suc_eq)
  qed simp
  then show ?thesis using assms(1,4) by (auto simp: disk_recovers_def Let_def committed_def)
qed

lemma committed_install:
  assumes "committed st n hs V P" "n \<le> LOGSIZE" "\<And>i. i < n \<Longrightarrow> outside_log st (hs i)" "i < n"
  shows "committed st n hs V (P(hs i := V (hs i)))"
  using assms outside_logD [OF assms(3) [OF assms(4)]] by (auto simp: committed_def)

lemma committed_installs:
  assumes "committed st n hs V P" "n \<le> LOGSIZE" "\<And>i. i < n \<Longrightarrow> outside_log st (hs i)" "set is \<subseteq> {..<n}"
  shows "committed st n hs V (replay (map (\<lambda>i. (hs i, V (hs i))) is) P)"
  using assms(1,4)
proof (induction "is" arbitrary: P)
  case (Cons i "is")
  then have "committed st n hs V (P(hs i := V (hs i)))" by (intro committed_install [OF _ assms(2,3)]) auto
  then show ?case using Cons by simp
qed simp

lemma empty_log_recovers: "sint (get32 (P (logb st 0)) 0) = 0 \<Longrightarrow> disk_recovers st P = P"
  by (simp add: disk_recovers_def)

section \<open>The writes of a commit\<close>

definition log_writes :: "int \<Rightarrow> logheader \<Rightarrow> contents \<Rightarrow> nat list \<Rightarrow> (u32 \<times> u8 list) list" where
  "log_writes st lh V is = map (\<lambda>i. (logb st (Suc i), V (home lh i))) is"

definition install_writes :: "logheader \<Rightarrow> contents \<Rightarrow> nat list \<Rightarrow> (u32 \<times> u8 list) list" where
  "install_writes lh V is = map (\<lambda>i. (home lh i, V (home lh i))) is"

text \<open>Writing a list of blocks through the cache.\<close>

definition written :: "(u32 \<times> u8 list) list \<Rightarrow> bview \<Rightarrow> bview \<Rightarrow> bool" where
  "written W a b \<longleftrightarrow> vhist b = vhist a @ W \<and> vplat b = replay W (vplat a) \<and> vdata b = replay W (vdata a)"

lemma written_trans: "written U a b \<Longrightarrow> written W b c \<Longrightarrow> written (U @ W) a c"
  by (simp add: written_def)

lemma written_put: "written [(n, d)] a (put_block n d a)"
  by (simp add: written_def)

lemma fold_log_copy_writes:
  assumes "set is \<subseteq> {..<LOGSIZE}" "\<And>i. i \<in> set is \<Longrightarrow> outside_log st (home lh i)"
  shows "written (log_writes st lh (vdata a) is) a (fold (log_copy st lh) is a)"
  using assms
proof (induction "is" arbitrary: a)
  case (Cons i "is")
  have same: "log_writes st lh (vdata (log_copy st lh i a)) is = log_writes st lh (vdata a) is"
    using Cons.prems outside_logD [of st _ "Suc i"] by (auto simp: log_copy_def log_writes_def)
  have "written (log_writes st lh (vdata a) is) (log_copy st lh i a) (fold (log_copy st lh) is (log_copy st lh i a))"
    using Cons.IH [of "log_copy st lh i a"] Cons.prems by (simp add: same)
  from written_trans [OF written_put [of "logb st (Suc i)" "vdata a (home lh i)" a, folded log_copy_def] this]
  show ?case by (simp add: log_writes_def)
qed (simp add: written_def log_writes_def)

lemma fold_install_writes:
  assumes "set is \<subseteq> {..<LOGSIZE}" "\<And>i. i \<in> set is \<Longrightarrow> outside_log st (home lh i) \<and> vdata a (logb st (Suc i)) = V (home lh i)"
  shows "written (install_writes lh V is) a (fold (install_block st lh) is a)"
  using assms
proof (induction "is" arbitrary: a)
  case (Cons i "is")
  have step: "written [(home lh i, V (home lh i))] a (install_block st lh i a)"
    using Cons.prems(2) [of i] by (simp add: written_def install_block_def)
  have "outside_log st (home lh j) \<and> vdata (install_block st lh i a) (logb st (Suc j)) = V (home lh j)" if "j \<in> set is" for j
    using Cons.prems(1) Cons.prems(2) [of i] Cons.prems(2) [of j] outside_logD [of st "home lh i" "Suc j"] that step
    by (auto simp: written_def)
  then have "written (install_writes lh V is) (install_block st lh i a) (fold (install_block st lh) is (install_block st lh i a))"
    using Cons.IH [of "install_block st lh i a"] Cons.prems(1) by simp
  from written_trans [OF step this] show ?case by (simp add: install_writes_def)
qed (simp add: written_def install_writes_def)

lemma header_bytes_get:
  assumes "length d = BSIZE" "lh_n lh \<le> int LOGSIZE"
  shows "length (header_bytes lh d) = BSIZE" "get32 (header_bytes lh d) 0 = word_of_int (lh_n lh)"
    "i < nat (lh_n lh) \<Longrightarrow> get32 (header_bytes lh d) (4 + 4 * i) = home lh i"
proof -
  let ?f = "\<lambda>i d. put_bytes d (4 + 4 * i) (le32 (home lh i))" and ?d = "put_bytes d 0 (le32 (word_of_int (lh_n lh)))"
  have "length (fold ?f [0..<k] ?d) = BSIZE \<and> get32 (fold ?f [0..<k] ?d) 0 = word_of_int (lh_n lh)
      \<and> (\<forall>i < k. get32 (fold ?f [0..<k] ?d) (4 + 4 * i) = home lh i)" if "k \<le> LOGSIZE" for k
    using that
  proof (induction k)
    case 0
    show ?case using assms(1) get32_put [of 0 d] by (simp add: BSIZE_def)
  next
    case (Suc k)
    let ?e = "fold ?f [0..<k] ?d"
    have l: "4 + 4 * k + 4 \<le> length ?e" using Suc by (simp add: BSIZE_def LOGSIZE_def MAXOPBLOCKS_def)
    have o: "get32 (?f k ?e) 0 = get32 ?e 0" "\<And>i. i < k \<Longrightarrow> get32 (?f k ?e) (4 + 4 * i) = get32 ?e (4 + 4 * i)"
      using l by (auto intro!: get_put_other)
    show ?case using Suc l o get32_put [OF l] by (auto simp: less_Suc_eq)
  qed
  from this [of "nat (lh_n lh)"] assms(2)
  show "length (header_bytes lh d) = BSIZE" "get32 (header_bytes lh d) 0 = word_of_int (lh_n lh)"
    "i < nat (lh_n lh) \<Longrightarrow> get32 (header_bytes lh d) (4 + 4 * i) = home lh i" by (simp_all add: header_bytes_def)
qed

definition commit_writes :: "int \<Rightarrow> logheader \<Rightarrow> contents \<Rightarrow> (u32 \<times> u8 list) list" where
  "commit_writes st lh V =
     (let is = [0..<nat (lh_n lh)]; h = header_bytes lh (V (logb st 0))
      in log_writes st lh V is @ [(logb st 0, h)] @ install_writes lh V is @ [(logb st 0, header_bytes (lh\<lparr>lh_n := 0\<rparr>) h)])"

lemma replay_map:
  assumes "inj_on f (set is)" "distinct is" "i \<in> set is"
  shows "replay (map (\<lambda>i. (f i, g i)) is) P (f i) = g i"
  using assms
proof (induction "is" arbitrary: P)
  case (Cons j "is")
  show ?case
  proof (cases "i = j")
    case True
    then have "f i \<notin> f ` set is" using Cons.prems by auto
    then show ?thesis using True replay_other [of "f i" "map (\<lambda>i. (f i, g i)) is"] by (auto simp: image_image)
  next
    case False
    then show ?thesis using Cons by auto
  qed
qed simp

lemma log_writes_get:
  assumes "n \<le> LOGSIZE"
  shows "i < n \<Longrightarrow> replay (log_writes st lh V [0..<n]) P (logb st (Suc i)) = V (home lh i)"
    and "set is \<subseteq> {..<n} \<Longrightarrow> replay (log_writes st lh V is) P (logb st 0) = P (logb st 0)"
    and "set is \<subseteq> {..<n} \<Longrightarrow> outside_log st m \<Longrightarrow> replay (log_writes st lh V is) P m = P m"
proof -
  have "inj_on (\<lambda>i. logb st (Suc i)) (set [0..<n])" using assms by (auto simp: inj_on_def logb_inj)
  from replay_map [OF this] show "i < n \<Longrightarrow> replay (log_writes st lh V [0..<n]) P (logb st (Suc i)) = V (home lh i)" by (simp add: log_writes_def)
  have z: "logb st 0 \<noteq> logb st (Suc i)" if "i < n" for i using that assms by (simp add: logb_inj)
  show "replay (log_writes st lh V is) P (logb st 0) = P (logb st 0)" if "set is \<subseteq> {..<n}"
    by (rule replay_other) (use that z in \<open>force simp: log_writes_def\<close>)
  have "m \<noteq> logb st (Suc i)" if "outside_log st m" "i < n" for i using outside_logD [OF that(1), of "Suc i"] that(2) assms by simp
  then show "replay (log_writes st lh V is) P m = P m" if "set is \<subseteq> {..<n}" "outside_log st m"
    by (intro replay_other) (use that in \<open>force simp: log_writes_def\<close>)
qed

lemma install_writes_get:
  assumes "n \<le> LOGSIZE" "\<And>i. i < n \<Longrightarrow> outside_log st (home lh i)"
  shows "set is \<subseteq> {..<n} \<Longrightarrow> k \<le> LOGSIZE \<Longrightarrow> replay (install_writes lh V is) P (logb st k) = P (logb st k)"
  using outside_logD [OF assms(2), of _ k] by (intro replay_other) (force simp: install_writes_def)

lemma install_writes_all: "replay (install_writes lh V is) P m = (if m \<in> home lh ` set is then V m else P m)"
  by (induction "is" arbitrary: P) (auto simp: install_writes_def)

lemma commit_view_writes:
  assumes "lh_n lh \<le> int LOGSIZE" "\<And>i. i < nat (lh_n lh) \<Longrightarrow> outside_log st (home lh i)"
  shows "written (commit_writes st lh (vdata a)) a (commit_view st lh a)"
proof -
  let ?n = "nat (lh_n lh)" and ?l = "logb st 0"
  define a1 where "a1 = fold (log_copy st lh) [0..<?n] a"
  define a2 where "a2 = put_block ?l (header_bytes lh (vdata a1 ?l)) a1"
  define a3 where "a3 = fold (install_block st lh) [0..<?n] a2"
  have n: "?n \<le> LOGSIZE" "set [0..<?n] \<subseteq> {..<?n}" "set [0..<?n] \<subseteq> {..<LOGSIZE}" using assms(1) by auto
  have w1: "written (log_writes st lh (vdata a) [0..<?n]) a a1" unfolding a1_def by (rule fold_log_copy_writes) (use n assms(2) in auto)
  then have l1: "vdata a1 ?l = vdata a ?l" using log_writes_get(2) [OF n(1,2)] by (simp add: written_def)
  have w2: "written [(?l, header_bytes lh (vdata a ?l))] a1 a2" unfolding a2_def l1 by (rule written_put)
  have "vdata a2 (logb st (Suc i)) = vdata a (home lh i)" if "i < ?n" for i
    using w1 w2 log_writes_get(1) [OF n(1) that] that n(1) by (auto simp: written_def logb_inj)
  then have w3: "written (install_writes lh (vdata a) [0..<?n]) a2 a3" unfolding a3_def
    by (intro fold_install_writes) (use n assms(2) in auto)
  then have l3: "vdata a3 ?l = header_bytes lh (vdata a ?l)"
    using w2 install_writes_get [OF n(1) assms(2) n(2), of 0 "vdata a" "vdata a2"] by (simp add: written_def)
  have "written [(?l, header_bytes (lh\<lparr>lh_n := 0\<rparr>) (header_bytes lh (vdata a ?l)))] a3 (commit_view st lh a)"
    using written_put [of ?l "header_bytes (lh\<lparr>lh_n := 0\<rparr>) (vdata a3 ?l)" a3] unfolding l3
    by (simp add: commit_view_def Let_def a1_def [symmetric] a2_def [symmetric] a3_def [symmetric] l3)
  from written_trans [OF w1 written_trans [OF w2 written_trans [OF w3 this]]] show ?thesis by (simp add: commit_writes_def Let_def)
qed

section \<open>Crashes during a commit\<close>

lemma take_map_upt: "take k (map f [0..<n]) = map f [0..<min k n]"
  by (simp add: take_map min_def)

lemma committed_after_header:
  assumes n: "0 \<le> lh_n lh" "lh_n lh \<le> int LOGSIZE" and len: "length (V (logb st 0)) = BSIZE"
    and out: "\<And>m. outside_log st m \<Longrightarrow> m \<notin> home lh ` {..<nat (lh_n lh)} \<Longrightarrow> V m = P m"
  shows "committed st (nat (lh_n lh)) (home lh) V
    ((replay (log_writes st lh V [0..<nat (lh_n lh)]) P)(logb st 0 := header_bytes lh (V (logb st 0))))" (is "committed _ ?n _ _ (?P(?l := ?h))")
proof -
  have k: "?n \<le> LOGSIZE" and sub: "set [0..<?n] \<subseteq> {..<?n}" using n by auto
  note h = header_bytes_get [OF len n(2)]
  have "sint (word_of_int (lh_n lh) :: u32) = lh_n lh" 
    unfolding sint_sbintrunc' by (rule signed_take_bit_int_eq_self) (use n in \<open>simp_all add: LOGSIZE_def MAXOPBLOCKS_def\<close>)
  moreover have "?P (logb st (Suc i)) = V (home lh i) \<and> logb st (Suc i) \<noteq> ?l" if "i < ?n" for i
    using log_writes_get(1) [OF k that] that k by (simp add: logb_inj)
  moreover have "?P m = P m \<and> m \<noteq> ?l" if "outside_log st m" for m
    using log_writes_get(3) [OF k sub that] outside_logD [OF that, of 0] by simp
  ultimately show ?thesis using h n out by (auto simp: committed_def)
qed

lemma commit_prefix:
  assumes n: "0 \<le> lh_n lh" "lh_n lh \<le> int LOGSIZE" and o: "\<And>i. i < nat (lh_n lh) \<Longrightarrow> outside_log st (home lh i)"
    and len: "length (V (logb st 0)) = BSIZE" and e: "get32 (P (logb st 0)) 0 = 0"
    and out: "\<And>m. outside_log st m \<Longrightarrow> m \<notin> home lh ` {..<nat (lh_n lh)} \<Longrightarrow> V m = P m" and m: "outside_log st m"
  shows "disk_recovers st (replay (take k (commit_writes st lh V)) P) m = (if k \<le> nat (lh_n lh) then P m else V m)"
proof -
  let ?n = "nat (lh_n lh)" and ?l = "logb st 0"
  define h where "h = header_bytes lh (V ?l)"
  define A where "A = log_writes st lh V [0..<?n]"
  define B where "B = install_writes lh V [0..<?n]"
  define C where "C = [(?l, header_bytes (lh\<lparr>lh_n := 0\<rparr>) h)]"
  have W: "commit_writes st lh V = A @ [(?l, h)] @ B @ C" by (simp add: commit_writes_def Let_def h_def A_def B_def C_def)
  have k: "?n \<le> LOGSIZE" and sub: "set [0..<?n] \<subseteq> {..<?n}" using n by auto
  have lens: "length A = ?n" "length B = ?n" by (simp_all add: A_def B_def log_writes_def install_writes_def)
  consider "k \<le> ?n" | "?n < k" "k \<le> 2 * ?n + 1" | "2 * ?n + 1 < k" by linarith
  then show ?thesis
  proof cases
    case 1
    then have t: "take k (commit_writes st lh V) = log_writes st lh V [0..<k]" by (simp add: W lens) (simp add: A_def log_writes_def take_map_upt)
    have "set [0..<k] \<subseteq> {..<?n}" using 1 by auto
    note g = log_writes_get(2,3) [OF k this]
    show ?thesis using 1 m e by (simp add: t g empty_log_recovers)
  next
    case 2
    let ?j = "k - Suc ?n"
    have t: "take k (commit_writes st lh V) = A @ [(?l, h)] @ install_writes lh V [0..<?j]"
    proof -
      have j: "k = ?n + Suc ?j" "?j \<le> ?n" using 2 by simp_all
      have "take (?n + Suc j) (commit_writes st lh V) = A @ [(?l, h)] @ take j B" if "j \<le> ?n" for j using that by (simp add: W lens)
      from this [OF j(2)] j(1) have "take k (commit_writes st lh V) = A @ [(?l, h)] @ take ?j B" by metis
      moreover have "take ?j B = install_writes lh V [0..<?j]" using j(2) unfolding B_def install_writes_def take_map_upt by (simp add: min_def)
      ultimately show ?thesis by simp
    qed
    have c: "committed st ?n (home lh) V (replay (install_writes lh V [0..<?j]) ((replay A P)(?l := h)))"
      unfolding install_writes_def h_def A_def
      by (rule committed_installs [OF committed_after_header [OF n, of V st P] k o]) (use 2 len out in auto)
    show ?thesis using committed_recovers [OF c k o m] 2 by (simp add: t)
  next
    case 3
    have t: "take k (commit_writes st lh V) = A @ [(?l, h)] @ B @ C" using 3 by (simp add: W lens C_def)
    have z: "get32 (header_bytes (lh\<lparr>lh_n := 0\<rparr>) h) 0 = 0"
      using header_bytes_get(1) [OF len n(2)] header_bytes_get(2) [of h "lh\<lparr>lh_n := 0\<rparr>"] by (simp add: h_def)
    have "m \<noteq> ?l" using outside_logD [OF m, of 0] by simp
    moreover have "replay A P m = P m" using log_writes_get(3) [OF k sub m] by (simp add: A_def)
    ultimately have "replay (A @ [(?l, h)] @ B @ C) P m = V m"
      using out [OF m] by (simp add: C_def B_def install_writes_all) (auto simp: atLeast0LessThan)
    moreover have "disk_recovers st (replay (A @ [(?l, h)] @ B @ C) P) = replay (A @ [(?l, h)] @ B @ C) P"
      by (rule empty_log_recovers) (simp add: C_def z)
    ultimately show ?thesis using 3 by (simp only: t) simp
  qed
qed

section \<open>Crashes during recovery\<close>

text \<open>A header block that recovery can follow.\<close>

definition valid_log :: "int \<Rightarrow> contents \<Rightarrow> bool" where
  "valid_log st P \<longleftrightarrow> (let d = P (logb st 0); n = sint (get32 d 0) in
     length d = BSIZE \<and> 0 \<le> n \<and> n \<le> int LOGSIZE \<and> inj_on (\<lambda>i. get32 d (4 + 4 * i)) {..<nat n}
     \<and> (\<forall>i < nat n. outside_log st (get32 d (4 + 4 * i))))"

lemma committed_self:
  assumes "valid_log st P" "d = P (logb st 0)" "hs = (\<lambda>i. get32 d (4 + 4 * i))" "n = nat (sint (get32 d 0))"
  shows "committed st n hs (disk_recovers st P) P"
proof -
  have v: "int n = sint (get32 d 0)" "n \<le> LOGSIZE" "inj_on hs {..<n}" "\<And>i. i < n \<Longrightarrow> outside_log st (hs i)"
    using assms by (auto simp: valid_log_def Let_def)
  define R where "R k = fold (\<lambda>i Q. Q(hs i := Q (logb st (Suc i)))) [0..<k] P" for k
  have R0: "R 0 = P" by (simp add: R_def)
  have RS: "R (Suc k) x = (if x = hs k then R k (logb st (Suc k)) else R k x)" for k x by (simp add: R_def)
  have f: "(\<forall>i < k. R k (hs i) = P (logb st (Suc i))) \<and> (\<forall>m. m \<notin> hs ` {..<k} \<longrightarrow> R k m = P m)" if "k \<le> n" for k
    using that
  proof (induction k)
    case (Suc k)
    have "logb st (Suc k) \<noteq> hs j" if "j < k" for j using outside_logD [OF v(4), of j "Suc k"] v(2) Suc.prems that by simp
    then have "R k (logb st (Suc k)) = P (logb st (Suc k))" using Suc by (simp add: image_iff)
    moreover have "hs i \<noteq> hs k" if "i < k" for i using inj_onD [OF v(3), of i k] Suc.prems that by auto
    ultimately show ?case using Suc by (auto simp: less_Suc_eq RS lessThan_Suc)
  qed (simp add: R0)
  have "disk_recovers st P = R n" using assms(2-4) by (simp add: disk_recovers_def Let_def R_def)
  then show ?thesis using f [of n] v(1) assms(2,3) by (auto simp: committed_def)
qed

lemma head_at_fields:
  "lh_n (head_at d lh) = sint (get32 d 0)" "i < nat (sint (get32 d 0)) \<Longrightarrow> home (head_at d lh) i = get32 d (4 + 4 * i)"
proof -
  let ?f = "\<lambda>i lh. lh\<lparr>lh_block := (lh_block lh)(i := sint (get32 d (4 + 4 * i)))\<rparr>"
  have f: "lh_n (fold ?f [0..<k] h) = lh_n h \<and> (\<forall>i < k. lh_block (fold ?f [0..<k] h) i = sint (get32 d (4 + 4 * i)))" for k h
    by (induction k) (auto simp: less_Suc_eq)
  have "lh_n (head_at d lh) = lh_n (lh\<lparr>lh_n := sint (get32 d 0)\<rparr>)
      \<and> (\<forall>i < nat (sint (get32 d 0)). lh_block (head_at d lh) i = sint (get32 d (4 + 4 * i)))" unfolding head_at_def by (rule f)
  then show "lh_n (head_at d lh) = sint (get32 d 0)" "i < nat (sint (get32 d 0)) \<Longrightarrow> home (head_at d lh) i = get32 d (4 + 4 * i)"
    by (simp_all add: home_def)
qed

definition recover_writes :: "int \<Rightarrow> logheader \<Rightarrow> contents \<Rightarrow> (u32 \<times> u8 list) list" where
  "recover_writes st lh P = install_writes lh (disk_recovers st P) [0..<nat (lh_n lh)] @ [(logb st 0, header_bytes (lh\<lparr>lh_n := 0\<rparr>) (P (logb st 0)))]"

lemma recover_view_writes:
  assumes v: "valid_log st P" and a: "vdata a = P" and lh: "lh' = head_at (P (logb st 0)) lh"
  shows "written (recover_writes st lh' P) a (recover_view st lh' a)"
proof -
  let ?d = "P (logb st 0)" and ?n = "nat (lh_n lh')" and ?l = "logb st 0"
  note h = head_at_fields [where d = ?d and lh = lh, folded lh]
  have c: "committed st ?n (\<lambda>i. get32 ?d (4 + 4 * i)) (disk_recovers st P) P" by (rule committed_self [OF v refl refl]) (simp add: h)
  have n: "?n \<le> LOGSIZE" "set [0..<?n] \<subseteq> {..<LOGSIZE}" "set [0..<?n] \<subseteq> {..<?n}" using v h by (auto simp: valid_log_def Let_def)
  have o: "outside_log st (home lh' i)" if "i < ?n" for i using v h that by (simp add: valid_log_def Let_def)
  define a1 where "a1 = fold (install_block st lh') [0..<?n] a"
  have w1: "written (install_writes lh' (disk_recovers st P) [0..<?n]) a a1" unfolding a1_def
    by (rule fold_install_writes [OF n(2)]) (use c o h a in \<open>auto simp: committed_def\<close>)
  then have "vdata a1 ?l = ?d" using install_writes_get [OF n(1) o n(3), of 0] a by (simp add: written_def)
  then have "written [(?l, header_bytes (lh'\<lparr>lh_n := 0\<rparr>) ?d)] a1 (recover_view st lh' a)"
    using written_put [of ?l "header_bytes (lh'\<lparr>lh_n := 0\<rparr>) ?d" a1] by (simp add: recover_view_def Let_def a1_def)
  from written_trans [OF w1 this] show ?thesis by (simp add: recover_writes_def)
qed

lemma recover_prefix:
  assumes v: "valid_log st P" and lh: "lh' = head_at (P (logb st 0)) lh"
  shows "valid_log st (replay (take k (recover_writes st lh' P)) P)"
    and "outside_log st m \<Longrightarrow> disk_recovers st (replay (take k (recover_writes st lh' P)) P) m = disk_recovers st P m"
    and "get32 (replay (recover_writes st lh' P) P (logb st 0)) 0 = 0"
proof -
  let ?d = "P (logb st 0)" and ?n = "nat (lh_n lh')" and ?l = "logb st 0" and ?V = "disk_recovers st P"
  let ?h = "header_bytes (lh'\<lparr>lh_n := 0\<rparr>) ?d"
  note h = head_at_fields [where d = ?d and lh = lh, folded lh]
  have c: "committed st ?n (\<lambda>i. get32 ?d (4 + 4 * i)) ?V P" by (rule committed_self [OF v refl refl]) (simp add: h)
  have n: "?n \<le> LOGSIZE" using v h by (auto simp: valid_log_def Let_def)
  have o: "outside_log st (home lh' i)" if "i < ?n" for i using v h that by (simp add: valid_log_def Let_def)
  have o': "outside_log st (get32 ?d (4 + 4 * i))" if "i < ?n" for i using o [OF that] h that by simp
  have z: "get32 ?h 0 = 0" "length ?h = BSIZE" using v header_bytes_get [of ?d "lh'\<lparr>lh_n := 0\<rparr>"] by (simp_all add: valid_log_def Let_def)
  have inst: "replay (install_writes lh' ?V [0..<j]) P ?l = ?d" if "j \<le> ?n" for j
    using install_writes_get [OF n o, of "[0..<j]" 0 ?V P] that by (simp add: atLeast0LessThan)
  have pre: "disk_recovers st (replay (install_writes lh' ?V [0..<j]) P) m = ?V m" if "j \<le> ?n" "outside_log st m" for j m
  proof -
    have "install_writes lh' ?V [0..<j] = map (\<lambda>i. (get32 ?d (4 + 4 * i), ?V (get32 ?d (4 + 4 * i)))) [0..<j]"
      using h that(1) by (simp add: install_writes_def)
    then show ?thesis using committed_recovers [OF committed_installs [OF c n o'] n o' that(2), of "[0..<j]"] that(1) by (simp add: atLeast0LessThan)
  qed
  have full: "replay (recover_writes st lh' P) P = (replay (install_writes lh' ?V [0..<?n]) P)(?l := ?h)" by (simp add: recover_writes_def)
  have cases: "take k (recover_writes st lh' P) = install_writes lh' ?V [0..<min k ?n] \<and> k \<le> ?n \<or> take k (recover_writes st lh' P) = recover_writes st lh' P"
    by (cases "k \<le> ?n") (simp_all add: recover_writes_def install_writes_def take_map_upt)
  have "valid_log st (replay (install_writes lh' ?V [0..<j]) P)" if "j \<le> ?n" for j using v inst [OF that] by (simp add: valid_log_def)
  moreover have "valid_log st (replay (recover_writes st lh' P) P)" using z by (simp add: valid_log_def full)
  ultimately show "valid_log st (replay (take k (recover_writes st lh' P)) P)" using cases by auto
  show "get32 (replay (recover_writes st lh' P) P ?l) 0 = 0" using z by (simp add: full)
  assume m: "outside_log st m"
  have "disk_recovers st (replay (recover_writes st lh' P) P) m = replay (install_writes lh' ?V [0..<?n]) P m"
    using outside_logD [OF m, of 0] z by (simp add: full empty_log_recovers)
  also have "\<dots> = ?V m" using c m h by (auto simp: install_writes_all committed_def)
  finally show "disk_recovers st (replay (take k (recover_writes st lh' P)) P) m = ?V m" using cases pre [OF _ m] by auto
qed

section \<open>Recovery of a machine\<close>

text \<open>Nothing is referenced or locked: what the cache shows is what the disk holds.\<close>

definition fresh_view :: "'z kdev_scheme \<Rightarrow> bview" where
  "fresh_view s = \<lparr>vdata = platter s, vrefs = (\<lambda>_. 0), vheld = Map.empty, vplat = platter s, vhist = disk_writes s\<rparr>"

definition at_rest :: "u32 \<Rightarrow> nat \<Rightarrow> 'z kdev_scheme \<Rightarrow> bool" where
  "at_rest dev p s \<longleftrightarrow> quiet p s \<and> dev \<noteq> 0 \<and> dev = word_of_int (log_dev s) \<and> shows_view dev p (fresh_view s) s"

lemma spare_fresh: "spare 2 (fresh_view s)"
  by (simp add: spare_def fresh_view_def NBUF_def MAXOPBLOCKS_def)

lemma doesD:
  assumes "does dev p a L m Q" "quiet p s" "shows_view dev p a s" "log_of s = L"
  obtains x t a' where "m s = Ok x t" "quiet p t" "shows_view dev p a' t" "Q x a' (log_of t)"
  using assms unfolding does_def by blast

lemma at_restI:
  assumes "quiet p t" "dev \<noteq> 0" "dev = word_of_int (log_dev t)" "shows_view dev p a t" "vrefs a = (\<lambda>_. 0)" "vheld a = Map.empty"
  shows "at_rest dev p t"
proof -
  have "vdata a = vplat a" using shows_viewD(2) [OF assms(4)] assms(5) by auto
  then have "a = fresh_view t" using shows_viewD(4,5) [OF assms(4)] assms(5,6) by (simp add: fresh_view_def)
  then show ?thesis using assms unfolding at_rest_def by blast
qed

lemma written_shows:
  assumes "shows_view dev p a s" "shows_view dev p b t" "written W a b"
  shows "platter t = replay W (platter s)" "disk_writes t = disk_writes s @ W"
  using assms(3) shows_viewD(4,5) [OF assms(1)] shows_viewD(4,5) [OF assms(2)] by (simp_all add: written_def)

lemma fold_install_rest: "vrefs a = (\<lambda>_. 0) \<Longrightarrow> vrefs (fold (install_block st lh) is a) = (\<lambda>_. 0)"
  "vheld (fold (install_block st lh) is a) = vheld a"
  by (induction "is" arbitrary: a) (simp_all add: install_block_def fun_upd_idem)

lemma recover_ok:
  fixes s :: "'z kdev_scheme"
  assumes E: "device_answers E" and s: "at_rest dev p s" and v: "valid_log (log_start s) (platter s)"
  shows "\<exists>t lh. recover_from_log E s = Ok () t \<and> at_rest dev p t \<and> lh_n (log_lh t) = 0 \<and> log_start t = log_start s
    \<and> lh = head_at (platter s (logb (log_start s) 0)) (log_lh s)
    \<and> platter t = replay (recover_writes (log_start s) lh (platter s)) (platter s)
    \<and> disk_writes t = disk_writes s @ recover_writes (log_start s) lh (platter s)"
proof -
  let ?a = "fresh_view s" and ?st = "log_start s"
  let ?d = "platter s (logb ?st 0)"
  define lh where "lh = head_at ?d (log_lh s)"
  note h = head_at_fields [where d = ?d and lh = "log_lh s", folded lh_def]
  have r: "dev \<noteq> 0" "dev = word_of_int (log_dev s)" "quiet p s" "shows_view dev p ?a s" using s unfolding at_rest_def by blast+
  have f: "vdata ?a = platter s" "vrefs ?a = (\<lambda>_. 0)" "vheld ?a = Map.empty" by (simp_all add: fresh_view_def)
  have "does dev p ?a (log_of s) (recover_from_log E) (\<lambda>_ a' L. a' = recover_view ?st lh ?a
      \<and> L = (?st, log_size s, log_outstanding s, log_committing s, log_dev s, lh\<lparr>lh_n := 0\<rparr>))"
    unfolding log_of_def
    by (rule does_recover [OF E r(1,2) spare_fresh f(2)]) (use v h in \<open>auto simp: valid_log_def Let_def lh_def f\<close>)
  from this r(3,4) refl obtain x t a' where t: "recover_from_log E s = Ok x t" "quiet p t" "shows_view dev p a' t" "a' = recover_view ?st lh ?a
      \<and> log_of t = (?st, log_size s, log_outstanding s, log_committing s, log_dev s, lh\<lparr>lh_n := 0\<rparr>)" by (rule doesD)
  have l: "log_start t = ?st" "log_dev t = log_dev s" "lh_n (log_lh t) = 0" using t(4) by (simp_all add: log_of_def)
  have "vrefs a' = (\<lambda>_. 0)" "vheld a' = Map.empty" using t(4) f by (simp_all add: recover_view_def Let_def fold_install_rest)
  then have "at_rest dev p t" using at_restI [OF t(2) r(1) _ t(3)] r(2) l(2) by simp
  moreover have "written (recover_writes ?st lh (platter s)) ?a a'" using recover_view_writes [OF v f(1) lh_def] t(4) by simp
  ultimately show ?thesis using t(1) l lh_def written_shows [OF r(4) t(3)] by auto
qed

lemma recover_result:
  fixes s :: "'z kdev_scheme"
  assumes "device_answers E" "at_rest dev p s" "valid_log (log_start s) (platter s)"
  shows "\<exists>t lh. recover_from_log E s = Ok () t \<and> at_rest dev p t \<and> lh = head_at (platter s (logb (log_start s) 0)) (log_lh s)
    \<and> disk_writes t = disk_writes s @ recover_writes (log_start s) lh (platter s)
    \<and> sint (get32 (platter t (logb (log_start s) 0)) 0) = 0
    \<and> (\<forall>m. outside_log (log_start s) m \<longrightarrow> platter t m = disk_recovers (log_start s) (platter s) m)"
proof -
  let ?st = "log_start s" and ?P = "platter s"
  obtain t lh where t: "recover_from_log E s = Ok () t" "at_rest dev p t" "lh = head_at (?P (logb ?st 0)) (log_lh s)"
    "platter t = replay (recover_writes ?st lh ?P) ?P" "disk_writes t = disk_writes s @ recover_writes ?st lh ?P"
    using recover_ok [OF assms] by blast
  note p = recover_prefix [OF assms(3) t(3)]
  have z: "sint (get32 (platter t (logb ?st 0)) 0) = 0" using p(3) t(4) by simp
  have "platter t m = disk_recovers ?st ?P m" if "outside_log ?st m" for m
    using p(2) [OF that, of "length (recover_writes ?st lh ?P)"] empty_log_recovers [of "platter t" ?st] z t(4) by simp
  then show ?thesis using t(1-3,5) z by blast
qed

text \<open>
  C3. Recovery finishes an interrupted commit and may itself be interrupted at any moment.  On
  a machine at rest whose log header names different blocks outside the log,
  \<^verbatim>\<open>recover_from_log\<close> returns with every block the header names overwritten by its
  copy in the log and the log empty; and after any prefix of the writes it does, the disk
  still is one that recovery can follow, with the same result.
\<close>

theorem recovery_survives_crashes:
  fixes s :: "'z kdev_scheme"
  assumes "device_answers E" "at_rest dev p s" "valid_log (log_start s) (platter s)"
  shows "\<exists>t W. recover_from_log E s = Ok () t \<and> at_rest dev p t \<and> disk_writes t = disk_writes s @ W
    \<and> sint (get32 (platter t (logb (log_start s) 0)) 0) = 0
    \<and> (\<forall>m. outside_log (log_start s) m \<longrightarrow> platter t m = disk_recovers (log_start s) (platter s) m)
    \<and> (\<forall>k. valid_log (log_start s) (replay (take k W) (platter s)))
    \<and> (\<forall>k m. outside_log (log_start s) m \<longrightarrow>
         disk_recovers (log_start s) (replay (take k W) (platter s)) m = disk_recovers (log_start s) (platter s) m)"
proof -
  let ?st = "log_start s" and ?P = "platter s"
  obtain t lh where t: "recover_from_log E s = Ok () t" "at_rest dev p t" "lh = head_at (?P (logb ?st 0)) (log_lh s)"
    "disk_writes t = disk_writes s @ recover_writes ?st lh ?P" "sint (get32 (platter t (logb ?st 0)) 0) = 0"
    "\<forall>m. outside_log ?st m \<longrightarrow> platter t m = disk_recovers ?st ?P m"
    using recover_result [OF assms] by blast
  show ?thesis using t recover_prefix(1,2) [OF assms(3) t(3)] by blast
qed

section \<open>Evaluation\<close>

lemma demo_dev_rest: "at_rest 1 1 (demo_dev P)"
proof -
  have q: "quiet 1 (demo_dev P)" by (simp add: quiet_def NPROC_def disk_idle_def demo_kfile_def)
  have "bcache (demo_dev P) [0..<NBUF]" using demo_bcache by (simp add: bcache_def dlist_def caches_def)
  then have "shows_view 1 1 (fresh_view (demo_dev P)) (demo_dev P)"
    by (auto simp: shows_view_def fresh_view_def buf_shows_def demo_kfile_def)
  then show ?thesis using q by (simp add: at_rest_def)
qed

text \<open>A disk that crashed right after the commit of one block, 50, with contents 7.\<close>

definition crashed_disk :: contents where
  "crashed_disk = (\<lambda>n. if n = 2 then le32 1 @ le32 50 @ replicate (BSIZE - 8) 0 else if n = 3 then replicate BSIZE 7 else replicate BSIZE 0)"

lemma crashed_header: "get32 (crashed_disk 2) 0 = 1" "get32 (crashed_disk 2) 4 = 50" "length (crashed_disk 2) = BSIZE"
  using get_le_here(2) [of 1] get32_append [of "le32 1" 4 "le32 50 @ replicate (BSIZE - 8) 0" 0]
  by (simp_all add: crashed_disk_def BSIZE_def)

lemma logb_2: "logb 2 0 = 2" "logb 2 (Suc 0) = 3"
  by (simp_all add: logb_def)

lemma outside_log_2: "LOGSIZE + 2 < unat m \<Longrightarrow> outside_log 2 m"
proof -
  have "unat (logb 2 k) = 2 + k" if "k \<le> LOGSIZE" for k
    using that by (simp add: logb_def unat_word_ariths unat_of_nat LOGSIZE_def MAXOPBLOCKS_def)
  then show "LOGSIZE + 2 < unat m \<Longrightarrow> outside_log 2 m" by (force simp: outside_log_def)
qed

theorem recovery_survives_crashes_witness:
  "\<exists>t. recover_from_log device_env (demo_dev crashed_disk) = Ok () t \<and> platter t 50 = replicate BSIZE 7"
proof -
  have o: "outside_log 2 50" by (rule outside_log_2) (simp add: LOGSIZE_def MAXOPBLOCKS_def)
  then have "valid_log 2 crashed_disk" using crashed_header by (simp add: valid_log_def Let_def logb_2 LOGSIZE_def MAXOPBLOCKS_def inj_on_def)
  moreover have "disk_recovers 2 crashed_disk 50 = replicate BSIZE 7"
    using crashed_header by (simp add: disk_recovers_def Let_def logb_2) (simp add: crashed_disk_def)
  ultimately show ?thesis
    using recovery_survives_crashes [OF device_env_answers demo_dev_rest, of crashed_disk] o by auto
qed

end
