(* ===== verification/Xv6_Transaction.thy ===== *)
theory Xv6_Transaction
  imports Xv6_Crash
begin

text \<open>
  Transactions.  \<^verbatim>\<open>log_write\<close> records a block once however often it is written;
  between \<^verbatim>\<open>begin_op\<close> and \<^verbatim>\<open>end_op\<close> updates go to the cache only, and
  \<^verbatim>\<open>end_op\<close> commits them all.  A crash at any point of that commit, followed by the
  recovery of the next boot, leaves either all of the updates or none.
\<close>

section \<open>Recording a block\<close>

definition logged :: "logheader \<Rightarrow> u32 list" where
  "logged h = map (home h) [0..<nat (lh_n h)]"

definition lh_add :: "logheader \<Rightarrow> u32 \<Rightarrow> logheader" where
  "lh_add h n = (let i = absorb_index h n in
     h\<lparr>lh_block := (lh_block h)(i := sint n), lh_n := (if int i = lh_n h then lh_n h + 1 else lh_n h)\<rparr>)"

lemma absorb_index_cases:
  assumes "0 \<le> lh_n h"
  shows "n \<in> set (logged h) \<Longrightarrow> absorb_index h n < nat (lh_n h) \<and> home h (absorb_index h n) = n"
    and "n \<notin> set (logged h) \<Longrightarrow> absorb_index h n = nat (lh_n h)"
proof -
  let ?f = "filter (\<lambda>i. word_of_int (lh_block h i) = n) [0..<nat (lh_n h)]"
  have f: "i \<in> set ?f \<longleftrightarrow> i < nat (lh_n h) \<and> home h i = n" for i by (auto simp: home_def)
  show "n \<in> set (logged h) \<Longrightarrow> absorb_index h n < nat (lh_n h) \<and> home h (absorb_index h n) = n"
  proof -
    assume "n \<in> set (logged h)"
    then obtain j where "j \<in> set ?f" by (auto simp: logged_def home_def)
    then obtain i r where "?f = i # r" by (cases ?f) auto
    then show ?thesis using f [of i] by (simp add: absorb_index_def)
  qed
  show "n \<notin> set (logged h) \<Longrightarrow> absorb_index h n = nat (lh_n h)"
  proof -
    assume n: "n \<notin> set (logged h)"
    have "?f = []" using n by (auto simp: logged_def home_def filter_empty_conv)
    then show ?thesis by (simp add: absorb_index_def)
  qed
qed

lemma home_upd:
  "home (h\<lparr>lh_block := (lh_block h)(i := sint n)\<rparr>) j = (if j = i then n else home h j)"
  "home (h\<lparr>lh_block := (lh_block h)(i := sint n), lh_n := m\<rparr>) j = (if j = i then n else home h j)"
  by (simp_all add: home_def)

lemma lh_add_cases:
  assumes "0 \<le> lh_n h"
  shows "n \<in> set (logged h) \<Longrightarrow> logged (lh_add h n) = logged h \<and> lh_n (lh_add h n) = lh_n h"
    and "n \<notin> set (logged h) \<Longrightarrow> logged (lh_add h n) = logged h @ [n] \<and> lh_n (lh_add h n) = lh_n h + 1"
proof -
  let ?i = "absorb_index h n"
  show "n \<in> set (logged h) \<Longrightarrow> logged (lh_add h n) = logged h \<and> lh_n (lh_add h n) = lh_n h"
    using absorb_index_cases(1) [OF assms, of n] by (auto simp: lh_add_def Let_def logged_def home_upd)
  show "n \<notin> set (logged h) \<Longrightarrow> logged (lh_add h n) = logged h @ [n] \<and> lh_n (lh_add h n) = lh_n h + 1"
    using absorb_index_cases(2) [OF assms, of n] assms by (auto simp: lh_add_def Let_def logged_def home_upd nat_add_distrib)
qed

definition pinned :: "nat \<Rightarrow> 'z kdisk_scheme \<Rightarrow> 'z kdisk_scheme" where
  "pinned b = upd_buf b (\<lambda>k. k\<lparr>refcnt := refcnt k + 1\<rparr>)"

lemma pinned_machine [simp]: "cpu_ok (pinned b s) = cpu_ok s" "lock_free lk (pinned b s) = lock_free lk s"
  by (simp_all add: pinned_def)

lemma pinned_klog [simp]:
  "log_lh (pinned b s) = log_lh s" "pinned b (s\<lparr>log_lh := h\<rparr>) = (pinned b s)\<lparr>log_lh := h\<rparr>"
  by (simp_all add: pinned_def upd_buf_def)

lemma bpin_held: "cpu_ok s \<Longrightarrow> lock_free BcacheLock s \<Longrightarrow> bpin b (held LogLock s) = Ok () (held LogLock (pinned b s))"
  by (simp add: bpin_def op_simps acquire_held pinned_def release_held)

lemma log_write_ok:
  fixes s :: "'z klog_scheme"
  assumes "cpu_ok s" "lock_free LogLock s" "lock_free BcacheLock s" "0 \<le> lh_n (log_lh s)"
  shows "log_write b s =
    (if lh_n (log_lh s) \<ge> int LOGSIZE \<or> lh_n (log_lh s) \<ge> log_size s - 1 then Stop (Panic ''too big a transaction'') (held LogLock s)
     else if log_outstanding s < 1 then Stop (Panic ''log_write outside of trans'') (held LogLock s)
     else Ok () (let n = blockno (bufs s b) in (if n \<in> set (logged (log_lh s)) then s else pinned b s)\<lparr>log_lh := lh_add (log_lh s) n\<rparr>))"
proof -
  let ?h = "log_lh s" and ?n = "blockno (bufs s b)"
  have i: "absorb_index ?h ?n < LOGSIZE" if "lh_n ?h < int LOGSIZE"
    using absorb_index_cases [OF assms(4), of ?n] that assms(4) by (cases "?n \<in> set (logged ?h)") (auto simp: nat_less_iff)
  have e: "int (absorb_index ?h ?n) = lh_n ?h \<longleftrightarrow> ?n \<notin> set (logged ?h)"
    using absorb_index_cases [OF assms(4), of ?n] assms(4) by auto
  show ?thesis using assms i e
    by (auto simp: log_write_def op_simps acquire_ok release_ok lh_set_def set_lh_n_def Let_def lh_add_def bpin_held)
qed

text \<open>
  C33. \<^verbatim>\<open>log_write\<close> absorbs repeated writes.  It panics when the log is full or no
  operation is outstanding; otherwise a block that the transaction has already recorded changes
  nothing, and a new one is appended to the recorded blocks and its buffer pinned.
\<close>

theorem log_write_absorbs:
  fixes s :: "'z klog_scheme"
  assumes "cpu_ok s" "lock_free LogLock s" "lock_free BcacheLock s" "0 \<le> lh_n (log_lh s)"
  shows "if lh_n (log_lh s) \<ge> int LOGSIZE \<or> lh_n (log_lh s) \<ge> log_size s - 1
    then log_write b s = Stop (Panic ''too big a transaction'') (held LogLock s)
    else if log_outstanding s < 1 then log_write b s = Stop (Panic ''log_write outside of trans'') (held LogLock s)
    else \<exists>t. log_write b s = Ok () t \<and> (if blockno (bufs s b) \<in> set (logged (log_lh s))
      then logged (log_lh t) = logged (log_lh s) \<and> bufs t = bufs s
      else logged (log_lh t) = logged (log_lh s) @ [blockno (bufs s b)]
        \<and> bufs t = (bufs s)(b := (bufs s b)\<lparr>refcnt := refcnt (bufs s b) + 1\<rparr>))"
  using log_write_ok [OF assms, of b] lh_add_cases [OF assms(4), of "blockno (bufs s b)"]
  by (auto simp: Let_def pinned_def)

lemma does_log_write:
  assumes a: "vheld a n = Some b" "dev \<noteq> 0" "Suc (vrefs a n) < 2 ^ 32"
    and l: "0 \<le> lh_n lh" "lh_n lh < int LOGSIZE" "lh_n lh < sz - 1" "1 \<le> ou"
    and k: "does dev p (if n \<in> set (logged lh) then a else view_upd n (vdata a n) (Suc (vrefs a n)) (Some b) a) (st, sz, ou, cm, dv, lh_add lh n) k Q"
  shows "does dev p a (st, sz, ou, cm, dv, lh) (seq (log_write b) k) Q"
proof (rule does_seq)
  let ?a = "if n \<in> set (logged lh) then a else view_upd n (vdata a n) (Suc (vrefs a n)) (Some b) a"
  show "does dev p a (st, sz, ou, cm, dv, lh) (log_write b) (\<lambda>_ a' L. a' = ?a \<and> L = (st, sz, ou, cm, dv, lh_add lh n))"
  proof (rule doesI)
    fix s assume s: "quiet p s" "shows_view dev p a s" "log_of s = (st, sz, ou, cm, dv, lh)"
    note h = shows_held [OF s(2) a(1)]
    have c: "cpu_ok s" "lock_free LogLock s" "lock_free BcacheLock s" using s(1) plocks_okD(1) by (auto simp: quiet_def)
    have f: "log_lh s = lh" "log_size s = sz" "log_outstanding s = ou" using s(3) by (simp_all add: log_of_def)
    let ?u = "if n \<in> set (logged lh) then s else pinned b s"
    have w: "log_write b s = Ok () (?u\<lparr>log_lh := lh_add lh n\<rparr>)" using log_write_ok [OF c, of b] l f h(4) by (simp add: Let_def)
    have "unat (refcnt (bufs s b) + 1) = Suc (vrefs a n)" using h(7) a(3) by (simp add: unat_word_ariths)
    then have "follows dev p s (view_upd n (vdata a n) (Suc (vrefs a n)) (Some b) a) (pinned b s)"
      using ref_view [OF s(1,2) a(2,1), of "\<lambda>x. x + 1"] by (simp add: pinned_def)
    then have "quiet p ?u \<and> shows_view dev p ?a ?u \<and> log_of ?u = log_of s" using s(1,2) by (simp add: follows_def)
    then have "quiet p (?u\<lparr>log_lh := lh_add lh n\<rparr>) \<and> shows_view dev p ?a (?u\<lparr>log_lh := lh_add lh n\<rparr>)
        \<and> log_of (?u\<lparr>log_lh := lh_add lh n\<rparr>) = (st, sz, ou, cm, dv, lh_add lh n)" using s(3) by (simp add: log_of_def split: if_splits)
    then show "\<exists>x t a'. log_write b s = Ok x t \<and> quiet p t \<and> shows_view dev p a' t \<and> a' = ?a \<and> log_of t = (st, sz, ou, cm, dv, lh_add lh n)"
      using w by blast
  qed
qed (use k in simp)

section \<open>Updating blocks\<close>

text \<open>The way the file system changes a block: read it, change it, record it, release it.\<close>

definition update_block :: "'z klog_scheme env \<Rightarrow> u32 \<Rightarrow> u32 \<Rightarrow> u8 list \<Rightarrow> ('z klog_scheme, unit) op" where
  "update_block E dev n d = bind (bread E dev n) (\<lambda>b. seq (set_data b d) (seq (log_write b) (brelse b)))"

text \<open>A transaction in progress: the recorded blocks are pinned and nothing else is referenced.\<close>

definition logging :: "int \<Rightarrow> logheader \<Rightarrow> bview \<Rightarrow> bool" where
  "logging st lh a \<longleftrightarrow> 0 \<le> lh_n lh \<and> distinct (logged lh) \<and> list_all (outside_log st) (logged lh) \<and> vheld a = Map.empty
     \<and> vrefs a = (\<lambda>m. if m \<in> set (logged lh) then 1 else 0) \<and> (\<forall>m. m \<notin> set (logged lh) \<longrightarrow> vdata a m = vplat a m)"

lemma logged_length: "0 \<le> lh_n lh \<Longrightarrow> int (length (logged lh)) = lh_n lh"
  by (simp add: logged_def)

lemma logging_refs: "logging st lh a \<Longrightarrow> {m. vrefs a m \<noteq> 0} = set (logged lh)"
  by (auto simp: logging_def)

lemma logging_room:
  assumes "logging st lh a" "lh_n lh < int NBUF"
  shows "room a n"
proof -
  have "int (length (logged lh)) = lh_n lh" using assms(1) logged_length by (simp add: logging_def)
  then have "card (set (logged lh)) < NBUF" using assms card_length [of "logged lh"] by simp
  then show ?thesis using assms(1) logging_refs [OF assms(1)] by (simp add: room_def) (simp add: logging_def)
qed

lemma logging_ready:
  assumes "logging st lh a" "lh_n lh < int NBUF"
  shows "ready st lh a"
proof -
  have n: "int (length (logged lh)) = lh_n lh" using assms(1) logged_length by (simp add: logging_def)
  then have c: "card (set (logged lh)) + 1 \<le> NBUF" using assms card_length [of "logged lh"] by simp
  have o: "outside_log st (home lh i) \<and> vrefs a (home lh i) \<noteq> 0" if "i < nat (lh_n lh)" for i
    using assms(1) that by (auto simp: logging_def list_all_iff logged_def)
  have "logb st k \<notin> set (logged lh)" if "k \<le> LOGSIZE" for k using assms(1) that by (auto simp: logging_def list_all_iff outside_log_def)
  then have z: "\<forall>k \<le> LOGSIZE. vrefs a (logb st k) = 0" using assms(1) by (simp add: logging_def)
  have "spare 1 a" using c logging_refs [OF assms(1)] assms(1) by (simp add: spare_def) (auto simp: logging_def)
  then show ?thesis using o z assms by (simp add: ready_def logging_def logged_def NBUF_def LOGSIZE_def)
qed

definition updated :: "u32 \<Rightarrow> u8 list \<Rightarrow> bview \<Rightarrow> bview" where
  "updated n d a = a\<lparr>vdata := (vdata a)(n := d), vrefs := (vrefs a)(n := 1)\<rparr>"

lemma logging_updated:
  assumes "logging st lh a" "outside_log st n"
  shows "logging st (lh_add lh n) (updated n d a)" "lh_n (lh_add lh n) \<le> lh_n lh + 1"
proof -
  have "0 \<le> lh_n lh" using assms(1) by (simp add: logging_def)
  note c = lh_add_cases [OF this, of n]
  show "logging st (lh_add lh n) (updated n d a)" "lh_n (lh_add lh n) \<le> lh_n lh + 1"
    using assms c by (cases "n \<in> set (logged lh)"; auto simp: logging_def updated_def fun_eq_iff)+
qed

lemma does_update:
  fixes E :: "'z kdev_scheme env"
  assumes E: "device_answers E" "dev \<noteq> 0" and l: "logging st lh a" "lh_n lh < int LOGSIZE" "lh_n lh < sz - 1" "1 \<le> ou"
    and k: "does dev p (updated n d a) (st, sz, ou, cm, dv, lh_add lh n) k Q"
  shows "does dev p a (st, sz, ou, cm, dv, lh) (seq (update_block E dev n d) k) Q"
  unfolding update_block_def seq_bind seq_assoc
proof (rule does_bread [OF E])
  show "room a n" by (rule logging_room [OF l(1)]) (use l(2) in \<open>simp add: NBUF_def LOGSIZE_def\<close>)
  have n0: "0 \<le> lh_n lh" "vheld a n = None" and r: "vrefs a n = (if n \<in> set (logged lh) then 1 else 0)" using l(1) by (simp_all add: logging_def)
  fix b
  let ?a = "view_upd n (vdata a n) (Suc (vrefs a n)) (Some b) a"
  let ?b = "view_upd n d (vrefs ?a n) (Some b) ?a"
  let ?c = "if n \<in> set (logged lh) then ?b else view_upd n (vdata ?b n) (Suc (vrefs ?b n)) (Some b) ?b"
  have "updated n d a = view_upd n (vdata ?c n) (vrefs ?c n - 1) None ?c"
    by (rule bview.equality) (use n0 r in \<open>auto simp: updated_def fun_eq_iff\<close>)
  then have "does dev p ?c (st, sz, ou, cm, dv, lh_add lh n) (seq (brelse b) k) Q"
    by (intro does_brelse [where n = n] does_eq [OF k]) (use E(2) r in auto)
  then have "does dev p ?b (st, sz, ou, cm, dv, lh) (seq (log_write b) (seq (brelse b) k)) Q"
    by (intro does_log_write [where n = n]) (use E(2) n0 l r in auto)
  then show "does dev p ?a (st, sz, ou, cm, dv, lh) (seq (set_data b d) (seq (log_write b) (seq (brelse b) k))) Q"
    by (intro does_set_data [where n = n]) (use E(2) in simp_all)
qed

definition log_all :: "(u32 \<times> u8 list) list \<Rightarrow> logheader \<Rightarrow> logheader" where
  "log_all us lh = fold (\<lambda>(n, d) lh. lh_add lh n) us lh"

definition update_all :: "(u32 \<times> u8 list) list \<Rightarrow> bview \<Rightarrow> bview" where
  "update_all us a = fold (\<lambda>(n, d) a. updated n d a) us a"

lemma does_updates:
  fixes E :: "'z kdev_scheme env"
  assumes E: "device_answers E" "dev \<noteq> 0" "1 \<le> ou"
    and "logging st lh a" "lh_n lh + int (length us) \<le> int LOGSIZE" "lh_n lh + int (length us) \<le> sz - 1" "list_all (\<lambda>(n, d). outside_log st n) us"
    and "logging st (log_all us lh) (update_all us a) \<Longrightarrow> lh_n (log_all us lh) \<le> lh_n lh + int (length us) \<Longrightarrow>
      does dev p (update_all us a) (st, sz, ou, cm, dv, log_all us lh) k Q"
  shows "does dev p a (st, sz, ou, cm, dv, lh) (seq (for_each us (\<lambda>(n, d). update_block E dev n d)) k) Q"
  using assms(4-)
proof (induction us arbitrary: lh a)
  case (Cons u us)
  obtain n d where u: "u = (n, d)" by (cases u)
  have o: "outside_log st n" using Cons.prems(4) u by simp
  note g = logging_updated [OF Cons.prems(1) o]
  have "does dev p (updated n d a) (st, sz, ou, cm, dv, lh_add lh n) (seq (for_each us (\<lambda>(n, d). update_block E dev n d)) k) Q"
    by (rule Cons.IH) (use Cons.prems u g in \<open>auto simp: log_all_def update_all_def\<close>)
  moreover have "lh_n lh < int LOGSIZE" "lh_n lh < sz - 1" using Cons.prems(2,3) by simp_all
  ultimately show ?case using does_update [OF E(1,2) Cons.prems(1) _ _ E(3), of sz p n d] by (simp add: u seq_assoc)
qed (simp add: log_all_def update_all_def)

lemma update_all_fields:
  "vdata (update_all us a) = replay us (vdata a)" "vplat (update_all us a) = vplat a" "vhist (update_all us a) = vhist a"
  by (induction us arbitrary: a) (auto simp: update_all_def updated_def)

section \<open>Crashes around a transaction\<close>

lemma replay_range: "replay ws P m = P m \<or> (m, replay ws P m) \<in> set ws"
proof (induction ws arbitrary: P)
  case (Cons w ws)
  obtain n d where w: "w = (n, d)" by (cases w)
  define Q where "Q = P(n := d)"
  have "Q m = P m \<or> n = m \<and> Q m = d" by (auto simp: Q_def)
  then show ?case using Cons [of Q] unfolding w replay_simps Q_def [symmetric] by auto
qed simp

lemma commit_prefix_valid:
  assumes n: "0 \<le> lh_n lh" "lh_n lh \<le> int LOGSIZE" and o: "\<And>i. i < nat (lh_n lh) \<Longrightarrow> outside_log st (home lh i)"
    and d: "inj_on (home lh) {..<nat (lh_n lh)}"
    and len: "length (V (logb st 0)) = BSIZE" "length (P (logb st 0)) = BSIZE" and e: "get32 (P (logb st 0)) 0 = 0"
  shows "valid_log st (replay (take k (commit_writes st lh V)) P)"
proof -
  let ?n = "nat (lh_n lh)" and ?l = "logb st 0"
  define h where "h = header_bytes lh (V ?l)"
  define h0 where "h0 = header_bytes (lh\<lparr>lh_n := 0\<rparr>) h"
  note H = header_bytes_get [OF len(1) n(2), folded h_def]
  have H0: "length h0 = BSIZE" "get32 h0 0 = 0" using header_bytes_get [OF H(1), of "lh\<lparr>lh_n := 0\<rparr>"] by (simp_all add: h0_def)
  have k: "?n \<le> LOGSIZE" using n by simp
  have s: "sint (get32 h 0) = lh_n lh" unfolding H(2) sint_sbintrunc'
    by (rule signed_take_bit_int_eq_self) (use n in \<open>simp_all add: LOGSIZE_def MAXOPBLOCKS_def\<close>)
  have vh: "valid_log st Q" if "Q ?l = h" for Q
    using that H s o d n by (auto simp: valid_log_def Let_def inj_on_def)
  have v0: "valid_log st Q" if "get32 (Q ?l) 0 = 0" "length (Q ?l) = BSIZE" for Q
    using that by (simp add: valid_log_def Let_def)
  have "?l \<notin> home lh ` {..<?n}" using outside_logD [OF o, of _ 0] by auto
  then have "x = h \<or> x = h0" if "(?l, x) \<in> set (commit_writes st lh V)" for x
    using that k by (auto simp: commit_writes_def Let_def h_def h0_def log_writes_def install_writes_def logb_inj)
  then have "Q ?l = P ?l \<or> Q ?l = h \<or> Q ?l = h0" if "Q = replay (take k (commit_writes st lh V)) P" for Q
    using replay_range [of "take k (commit_writes st lh V)" P ?l] in_set_takeD that by metis
  then show ?thesis using vh v0 H0 len(2) e by metis
qed

section \<open>Beginning and ending\<close>

definition transaction :: "'z klog_scheme env \<Rightarrow> u32 \<Rightarrow> (u32 \<times> u8 list) list \<Rightarrow> ('z klog_scheme, unit) op" where
  "transaction E dev us = seq (begin_op E) (seq (for_each us (\<lambda>(n, d). update_block E dev n d)) (end_op E))"

lemma log_flags_frame [simp]:
  "quiet p (log_outstanding_update f s) = quiet p s" "shows_view dev p a (log_outstanding_update f s) = shows_view dev p a s"
  "quiet p (log_committing_update g s) = quiet p s" "shows_view dev p a (log_committing_update g s) = shows_view dev p a s"
  by (simp_all add: quiet_def shows_view_def bcache_def dlist_def caches_def)

lemma awakened_view [simp]:
  "quiet p (awakened ch s) = quiet p s" "shows_view dev p a (awakened ch s) = shows_view dev p a s" "log_of (awakened ch s) = log_of s"
proof -
  show "quiet p (awakened ch s) = quiet p s" "log_of (awakened ch s) = log_of s" by (simp_all add: quiet_def log_of_def)
  have "pid (procs (awakened ch s) p) = pid (procs s p)" "platter (awakened ch s) = platter s" "disk_writes (awakened ch s) = disk_writes s"
    by (simp_all add: awakened_def map_procs_def woken_def)
  then show "shows_view dev p a (awakened ch s) = shows_view dev p a s" by (simp add: shows_view_def bcache_def caches_def)
qed

lemma quiet_log: "quiet p s \<Longrightarrow> cpu_ok s \<and> lock_free LogLock s \<and> plocks_ok s"
  using plocks_okD(1) by (auto simp: quiet_def)

lemma does_begin_op:
  fixes E :: "'z kdev_scheme env"
  assumes "lh_n lh + (ou + 1) * int MAXOPBLOCKS \<le> int LOGSIZE" "does dev p a (st, sz, ou + 1, False, dv, lh) k Q"
  shows "does dev p a (st, sz, ou, False, dv, lh) (seq (begin_op E) k) Q"
proof (rule does_seq)
  show "does dev p a (st, sz, ou, False, dv, lh) (begin_op E) (\<lambda>_ a' L. a' = a \<and> L = (st, sz, ou + 1, False, dv, lh))"
  proof (rule doesI)
    fix s :: "'z kdev_scheme" assume s: "quiet p s" "shows_view dev p a s" "log_of s = (st, sz, ou, False, dv, lh)"
    have "begin_op E s = Ok () (s\<lparr>log_outstanding := ou + 1\<rparr>)"
      using quiet_log [OF s(1)] s(3) assms(1) by (simp add: begin_op_def op_simps acquire_ok release_ok log_of_def)
    then show "\<exists>x t a'. begin_op E s = Ok x t \<and> quiet p t \<and> shows_view dev p a' t \<and> a' = a \<and> log_of t = (st, sz, ou + 1, False, dv, lh)"
      using s by (auto simp: log_of_def)
  qed
qed (use assms(2) in simp)

lemma does_end_op:
  fixes E :: "'z kdev_scheme env"
  assumes "does dev p a (st, sz, 0, True, dv, lh) (commit E) (\<lambda>_ a' L. a' = b \<and> L = (st, sz, 0, True, dv, lh'))"
  shows "does dev p a (st, sz, 1, False, dv, lh) (end_op E) (\<lambda>_ a' L. a' = b \<and> L = (st, sz, 0, False, dv, lh'))"
proof (rule doesI)
  fix s :: "'z kdev_scheme" assume s: "quiet p s" "shows_view dev p a s" "log_of s = (st, sz, 1, False, dv, lh)"
  let ?s = "s\<lparr>log_outstanding := 0, log_committing := True\<rparr>"
  have s': "quiet p ?s" "shows_view dev p a ?s" "log_of ?s = (st, sz, 0, True, dv, lh)" using s by (simp_all add: log_of_def)
  from assms s' obtain x t a' where t: "commit E ?s = Ok x t" "quiet p t" "shows_view dev p a' t" "a' = b \<and> log_of t = (st, sz, 0, True, dv, lh')"
    by (rule doesD)
  let ?t = "awakened (Some ChanLog) (t\<lparr>log_committing := False\<rparr>)"
  have "end_op E s = Ok () ?t"
    using quiet_log [OF s(1)] quiet_log [OF t(2)] s(3) t(1)
    by (simp add: end_op_def op_simps acquire_ok release_ok log_of_def wakeup_held)
  moreover have "quiet p ?t" "shows_view dev p b ?t" "log_of ?t = (st, sz, 0, False, dv, lh')" using t by (simp_all add: log_of_def)
  ultimately show "\<exists>x t a'. end_op E s = Ok x t \<and> quiet p t \<and> shows_view dev p a' t \<and> a' = b \<and> log_of t = (st, sz, 0, False, dv, lh')" by blast
qed

definition transaction_view :: "int \<Rightarrow> logheader \<Rightarrow> (u32 \<times> u8 list) list \<Rightarrow> bview \<Rightarrow> bview" where
  "transaction_view st lh us a = (if lh_n (log_all us lh) > 0 then commit_view st (log_all us lh) (update_all us a) else update_all us a)"

lemma does_transaction:
  fixes E :: "'z kdev_scheme env"
  assumes E: "device_answers E" "dev \<noteq> 0" "dev = word_of_int dv" and a: "logging st lh a" "lh_n lh = 0"
    and us: "length us \<le> MAXOPBLOCKS" "int MAXOPBLOCKS < sz" "list_all (\<lambda>(n, d). outside_log st n) us"
  shows "does dev p a (st, sz, 0, False, dv, lh) (transaction E dev us)
    (\<lambda>_ b L. b = transaction_view st lh us a \<and> L = (st, sz, 0, False, dv, (log_all us lh)\<lparr>lh_n := 0\<rparr>)
      \<and> logging st (log_all us lh) (update_all us a) \<and> lh_n (log_all us lh) \<le> int MAXOPBLOCKS)"
  unfolding transaction_def
proof (rule does_begin_op)
  let ?lh = "log_all us lh" and ?a = "update_all us a"
  show "lh_n lh + (0 + 1) * int MAXOPBLOCKS \<le> int LOGSIZE" by (simp add: a(2) LOGSIZE_def)
  have fin: "does dev p ?a (st, sz, 1, False, dv, ?lh) (end_op E) (\<lambda>_ b L. b = transaction_view st lh us a \<and> L = (st, sz, 0, False, dv, ?lh\<lparr>lh_n := 0\<rparr>))"
    if l: "logging st ?lh ?a" "lh_n ?lh \<le> int (length us)"
  proof (rule does_end_op, cases "0 < lh_n ?lh")
    case True
    have "ready st ?lh ?a" by (rule logging_ready [OF l(1)]) (use l(2) us(1) in \<open>simp add: NBUF_def MAXOPBLOCKS_def\<close>)
    from does_commit [OF E this True]
    show "does dev p ?a (st, sz, 0, True, dv, ?lh) (commit E) (\<lambda>_ b L. b = transaction_view st lh us a \<and> L = (st, sz, 0, True, dv, ?lh\<lparr>lh_n := 0\<rparr>))"
      using True by (simp add: transaction_view_def)
  next
    case False
    then have z: "lh_n ?lh = 0" "?lh\<lparr>lh_n := 0\<rparr> = ?lh" using l(1) by (simp_all add: logging_def)
    show "does dev p ?a (st, sz, 0, True, dv, ?lh) (commit E) (\<lambda>_ b L. b = transaction_view st lh us a \<and> L = (st, sz, 0, True, dv, ?lh\<lparr>lh_n := 0\<rparr>))"
      unfolding commit_def by (rule does_gets [where v = 0]) (use z in \<open>simp_all add: log_of_def transaction_view_def does_ret\<close>)
  qed
  show "does dev p a (st, sz, 0 + 1, False, dv, lh) (seq (for_each us (\<lambda>(n, d). update_block E dev n d)) (end_op E))
    (\<lambda>_ b L. b = transaction_view st lh us a \<and> L = (st, sz, 0, False, dv, ?lh\<lparr>lh_n := 0\<rparr>) \<and> logging st ?lh ?a \<and> lh_n ?lh \<le> int MAXOPBLOCKS)"
    by (rule does_updates [OF E(1,2) _ a(1)]) (use a(2) us fin in \<open>auto simp: LOGSIZE_def MAXOPBLOCKS_def\<close>)
qed

section \<open>Crash safety\<close>

lemma fold_install_refs: "vrefs (fold (install_block st lh) is a) = (\<lambda>m. if m \<in> home lh ` set is then 0 else vrefs a m)"
  by (induction "is" arbitrary: a) (auto simp: install_block_def fun_eq_iff)

lemma commit_view_rest:
  assumes "logging st lh a"
  shows "vrefs (commit_view st lh a) = (\<lambda>_. 0)" "vheld (commit_view st lh a) = Map.empty"
  using assms by (auto simp: commit_view_def Let_def fold_install_refs fold_install_rest fun_eq_iff logging_def logged_def)

lemma transaction_ok:
  fixes s :: "'z kdev_scheme"
  assumes E: "device_answers E" and s: "at_rest dev p s" "lh_n (log_lh s) = 0" "log_outstanding s = 0" "\<not> log_committing s"
    and us: "length us \<le> MAXOPBLOCKS" "int MAXOPBLOCKS < log_size s" "list_all (\<lambda>(n, d). outside_log (log_start s) n) us"
  shows "\<exists>t lh. transaction E dev us s = Ok () t \<and> at_rest dev p t
    \<and> 0 \<le> lh_n lh \<and> lh_n lh \<le> int MAXOPBLOCKS \<and> distinct (logged lh) \<and> list_all (outside_log (log_start s)) (logged lh)
    \<and> (\<forall>m. m \<notin> set (logged lh) \<longrightarrow> replay us (platter s) m = platter s m)
    \<and> (let W = if lh_n lh > 0 then commit_writes (log_start s) lh (replay us (platter s)) else []
       in platter t = replay W (platter s) \<and> disk_writes t = disk_writes s @ W)"
proof -
  let ?a = "fresh_view s" and ?st = "log_start s" and ?h = "log_all us (log_lh s)"
  have r: "dev \<noteq> 0" "dev = word_of_int (log_dev s)" "quiet p s" "shows_view dev p ?a s" using s(1) unfolding at_rest_def by blast+
  have l0: "logging ?st (log_lh s) ?a" using s(2) by (simp add: logging_def logged_def fresh_view_def)
  have lo: "log_of s = (?st, log_size s, 0, False, log_dev s, log_lh s)" using s by (simp add: log_of_def)
  obtain x t b where t: "transaction E dev us s = Ok x t" "quiet p t" "shows_view dev p b t" "b = transaction_view ?st (log_lh s) us ?a
      \<and> log_of t = (?st, log_size s, 0, False, log_dev s, ?h\<lparr>lh_n := 0\<rparr>) \<and> logging ?st ?h (update_all us ?a) \<and> lh_n ?h \<le> int MAXOPBLOCKS"
    by (rule doesD [OF does_transaction [OF E r(1,2) l0 s(2) us, of p] r(3,4) lo])
  let ?u = "update_all us ?a"
  have u: "vdata ?u = replay us (platter s)" "vplat ?u = platter s" "vhist ?u = disk_writes s" by (simp_all add: update_all_fields) (simp_all add: fresh_view_def)
  have l: "logging ?st ?h ?u" "0 \<le> lh_n ?h" "lh_n ?h \<le> int MAXOPBLOCKS" using t(4) by (auto simp: logging_def)
  let ?W = "if lh_n ?h > 0 then commit_writes ?st ?h (replay us (platter s)) else []"
  have out: "outside_log ?st (home ?h i)" if "i < nat (lh_n ?h)" for i using l(1) that by (auto simp: logging_def list_all_iff logged_def)
  have "written ?W ?u b" using t(4) commit_view_writes [of ?h ?st ?u] l(3) out u(1)
    by (auto simp: transaction_view_def written_def LOGSIZE_def)
  then have w: "platter t = replay ?W (platter s)" "disk_writes t = disk_writes s @ ?W"
    using shows_viewD(4,5) [OF t(3)] u by (simp_all add: written_def)
  have "vrefs b = (\<lambda>_. 0) \<and> vheld b = Map.empty"
  proof (cases "lh_n ?h > 0")
    case True
    then show ?thesis using t(4) commit_view_rest [OF l(1)] by (simp add: transaction_view_def)
  next
    case False
    then have "logged ?h = []" using l(2) by (simp add: logged_def)
    then show ?thesis using t(4) l(1) False by (simp add: transaction_view_def logging_def)
  qed
  moreover have "log_dev t = log_dev s" using t(4) by (simp add: log_of_def)
  ultimately have "at_rest dev p t" using at_restI [OF t(2) r(1) _ t(3)] r(2) by simp
  moreover have "replay us (platter s) m = platter s m" if "m \<notin> set (logged ?h)" for m using l(1) u that by (simp add: logging_def)
  ultimately show ?thesis using t(1) l w by (intro exI [of _ t] exI [of _ ?h]) (simp add: logging_def Let_def)
qed

lemma logged_outside:
  assumes "list_all (outside_log st) (logged lh)" "distinct (logged lh)"
  shows "\<And>i. i < nat (lh_n lh) \<Longrightarrow> outside_log st (home lh i)" "inj_on (home lh) {..<nat (lh_n lh)}"
    "set (logged lh) = home lh ` {..<nat (lh_n lh)}" "0 \<le> lh_n lh \<Longrightarrow> lh_n lh \<le> 0 \<Longrightarrow> logged lh = []"
  using assms by (auto simp: logged_def list_all_iff distinct_map atLeast0LessThan)

lemma transaction_prefix:
  assumes l: "0 \<le> lh_n lh" "lh_n lh \<le> int MAXOPBLOCKS" "distinct (logged lh)" "list_all (outside_log st) (logged lh)"
    and v: "\<And>m. m \<notin> set (logged lh) \<Longrightarrow> V m = P m" and h: "length (P (logb st 0)) = BSIZE" "get32 (P (logb st 0)) 0 = 0"
  shows "valid_log st (replay (take k (if lh_n lh > 0 then commit_writes st lh V else [])) P)
    \<and> (outside_log st m \<longrightarrow> disk_recovers st (replay (take k (if lh_n lh > 0 then commit_writes st lh V else [])) P) m
        = (if k \<le> nat (lh_n lh) then P m else V m))"
proof (cases "lh_n lh > 0")
  case True
  note o = logged_outside [OF l(4,3)]
  have n: "lh_n lh \<le> int LOGSIZE" using l(2) by (simp add: LOGSIZE_def)
  have "logb st 0 \<notin> set (logged lh)" using l(4) by (auto simp: list_all_iff outside_log_def)
  then have len: "length (V (logb st 0)) = BSIZE" using v h by simp
  have "valid_log st (replay (take k (commit_writes st lh V)) P)" 
    by (rule commit_prefix_valid [OF l(1) n o(1,2)]) (use len h in simp_all)
  moreover have "disk_recovers st (replay (take k (commit_writes st lh V)) P) m = (if k \<le> nat (lh_n lh) then P m else V m)"
    if "outside_log st m" by (rule commit_prefix [OF l(1) n o(1)]) (use v o(3) len h(2) that in auto)
  ultimately show ?thesis using True by simp
next
  case False
  then have "V m = P m" using v logged_outside(4) [OF l(4,3,1)] by simp
  moreover have "valid_log st P" using h by (simp add: valid_log_def Let_def)
  ultimately show ?thesis using False h by (simp add: empty_log_recovers)
qed

lemma transaction_final:
  assumes l: "0 \<le> lh_n lh" "lh_n lh \<le> int MAXOPBLOCKS" "distinct (logged lh)" "list_all (outside_log st) (logged lh)"
    and v: "\<And>m. m \<notin> set (logged lh) \<Longrightarrow> V m = P m" and h: "length (P (logb st 0)) = BSIZE" "get32 (P (logb st 0)) 0 = 0"
    and m: "outside_log st m"
  shows "replay (if lh_n lh > 0 then commit_writes st lh V else []) P m = V m" (is "replay ?W P m = V m")
proof (cases "lh_n lh > 0")
  case True
  note o = logged_outside [OF l(4,3)]
  have n: "nat (lh_n lh) \<le> LOGSIZE" using l(2) by (simp add: LOGSIZE_def)
  have "m \<noteq> logb st 0" using outside_logD [OF m, of 0] by simp
  then show ?thesis using True v o(3) m log_writes_get(3) [OF n _ m, of "[0..<nat (lh_n lh)]"]
    by (auto simp: commit_writes_def Let_def install_writes_all atLeast0LessThan)
next
  case False
  then show ?thesis using v logged_outside(4) [OF l(4,3,1)] by simp
qed

text \<open>
  C2. Transactions are atomic and durable.  Take a machine at rest with an empty log and a list
  of at most \<open>MAXOPBLOCKS\<close> block updates outside the log.  Running them between
  \<^verbatim>\<open>begin_op\<close> and \<^verbatim>\<open>end_op\<close> returns with all updates on the disk.  Let
  \<open>W\<close> be the writes the disk was asked to do.  There is one of them, the commit point,
  such that a crash after any number \<open>k\<close> of them, followed by the recovery of any
  machine that boots with that disk, gives the old contents of every block outside the log up
  to the commit point and the updated contents after it.
\<close>

theorem transaction_is_atomic:
  fixes s :: "'z kdev_scheme"
  assumes "device_answers E" "at_rest dev p s" "lh_n (log_lh s) = 0" "log_outstanding s = 0" "\<not> log_committing s"
    and "length us \<le> MAXOPBLOCKS" "int MAXOPBLOCKS < log_size s" "list_all (\<lambda>(n, d). outside_log (log_start s) n) us"
    and "length (platter s (logb (log_start s) 0)) = BSIZE" "get32 (platter s (logb (log_start s) 0)) 0 = 0"
  shows "\<exists>t W c. transaction E dev us s = Ok () t \<and> at_rest dev p t \<and> disk_writes t = disk_writes s @ W
    \<and> (\<forall>m. outside_log (log_start s) m \<longrightarrow> platter t m = replay us (platter s) m)
    \<and> (\<forall>k u. at_rest dev p u \<longrightarrow> log_start u = log_start s \<longrightarrow> platter u = replay (take k W) (platter s) \<longrightarrow>
        (\<exists>v. recover_from_log E u = Ok () v \<and> at_rest dev p v
           \<and> (\<forall>m. outside_log (log_start s) m \<longrightarrow> platter v m = (if k \<le> c then platter s m else replay us (platter s) m))))"
proof -
  let ?P = "platter s" and ?V = "replay us (platter s)" and ?st = "log_start s"
  obtain t lh where t: "transaction E dev us s = Ok () t" "at_rest dev p t"
    and l: "0 \<le> lh_n lh" "lh_n lh \<le> int MAXOPBLOCKS" "distinct (logged lh)" "list_all (outside_log ?st) (logged lh)"
      "\<And>m. m \<notin> set (logged lh) \<Longrightarrow> ?V m = ?P m"
    and w: "platter t = replay (if lh_n lh > 0 then commit_writes ?st lh ?V else []) ?P"
      "disk_writes t = disk_writes s @ (if lh_n lh > 0 then commit_writes ?st lh ?V else [])"
    using transaction_ok [OF assms(1-8)] unfolding Let_def by blast
  define W where "W = (if lh_n lh > 0 then commit_writes ?st lh ?V else [])"
  have crash: "valid_log ?st (replay (take k W) ?P)
      \<and> (outside_log ?st m \<longrightarrow> disk_recovers ?st (replay (take k W) ?P) m = (if k \<le> nat (lh_n lh) then ?P m else ?V m))" for k m
    unfolding W_def by (rule transaction_prefix [OF l]) (use assms(9,10) in simp_all)
  have "platter t m = ?V m" if "outside_log ?st m" for m
    unfolding w(1) by (rule transaction_final [OF l]) (use assms(9,10) that in simp_all)
  moreover have "\<exists>v. recover_from_log E u = Ok () v \<and> at_rest dev p v
      \<and> (\<forall>m. outside_log ?st m \<longrightarrow> platter v m = (if k \<le> nat (lh_n lh) then ?P m else ?V m))"
    if u: "at_rest dev p u" "log_start u = ?st" "platter u = replay (take k W) ?P" for k u
    using recover_result [OF assms(1) u(1)] crash [of k] unfolding u(2,3) by metis
  ultimately show ?thesis using t w(2) unfolding W_def by blast
qed

section \<open>Evaluation\<close>

theorem log_write_absorbs_witness:
  "\<exists>t. log_write 4 demo_kfile = Ok () t \<and> logged (log_lh t) = [0] \<and> refcnt (bufs t 4) = 1"
proof -
  have s: "lh_n (log_lh demo_kfile) = 0" "log_size demo_kfile = 30" "log_outstanding demo_kfile = 1" "blockno (bufs demo_kfile 4) = 0"
    "refcnt (bufs demo_kfile 4) = 0" "logged (log_lh demo_kfile) = []" by (simp_all add: demo_kfile_def logged_def)
  show ?thesis using log_write_absorbs [OF demo_ok(2,3,3), of 4] s by (auto simp: LOGSIZE_def MAXOPBLOCKS_def)
qed

theorem transaction_is_atomic_witness:
  "\<exists>t. transaction device_env 1 [(50, [1]), (51, [2]), (50, [3])] (demo_dev (\<lambda>_. replicate BSIZE 0)) = Ok () t
    \<and> platter t 50 = [3] \<and> platter t 51 = [2]"
proof -
  let ?s = "demo_dev (\<lambda>_. replicate BSIZE 0)" and ?us = "[(50, [1]), (51, [2]), (50, [3])] :: (u32 \<times> u8 list) list"
  have o: "outside_log 2 50" "outside_log 2 51"
    by (rule outside_log_2, simp add: LOGSIZE_def MAXOPBLOCKS_def)+
  have z: "get32 (replicate BSIZE 0) 0 = 0" by (simp add: get32_def BSIZE_def)
  show ?thesis
    using transaction_is_atomic [OF device_env_answers demo_dev_rest, of "\<lambda>_. replicate BSIZE 0" ?us] o z
    by (auto simp: MAXOPBLOCKS_def)
qed

end
