(* ===== verification/Xv6_Printf.thy ===== *)
theory Xv6_Printf
  imports Xv6_Output
begin

text \<open>
  What \<^verbatim>\<open>printf\<close> puts on the serial line.  \<open>format\<close> is the text that a format
  string and its arguments stand for; on a line whose transmitter is always ready,
  \<^verbatim>\<open>printf\<close> sends exactly that text and changes nothing else.
\<close>

section \<open>The text\<close>

definition ptr_chars :: "u64 \<Rightarrow> string" where
  "ptr_chars x = ''0x'' @ map (\<lambda>i. digits ! unat (drop_bit 60 (push_bit (4 * i) x))) [0..<16]"

definition arg_text :: "char \<Rightarrow> parg \<Rightarrow> string option" where
  "arg_text d a =
     (case a of
        PInt x \<Rightarrow> if d = CHR ''d'' then Some (printint_chars x 10 True)
                  else if d = CHR ''x'' then Some (printint_chars x 16 True) else None
      | PPtr x \<Rightarrow> if d = CHR ''p'' then Some (ptr_chars x) else None
      | PStr s \<Rightarrow> if d = CHR ''s'' then Some (case s of None \<Rightarrow> ''(null)'' | Some cs \<Rightarrow> cs) else None)"

text \<open>\<open>None\<close>: the arguments do not fit the directives.\<close>

fun format :: "string \<Rightarrow> parg list \<Rightarrow> string option" where
  "format [] args = Some []"
| "format [c] args = Some (if c = CHR ''%'' then [] else [c])"
| "format (c # d # fmt) args =
     (if c \<noteq> CHR ''%'' then map_option ((#) c) (format (d # fmt) args)
      else if d \<in> set ''dxps'' then
        (case args of
           [] \<Rightarrow> None
         | a # as \<Rightarrow> Option.bind (arg_text d a) (\<lambda>cs. map_option ((@) cs) (format fmt as)))
      else map_option ((@) (if d = CHR ''%'' then ''%'' else [CHR ''%'', d])) (format fmt args))"

section \<open>The line\<close>

definition tx_ready :: "'z kuart_scheme \<Rightarrow> bool" where
  "tx_ready s \<longleftrightarrow> 0 < polls s \<and> \<not> panicked s \<and> cpu_ok s \<and> (\<forall>h. ucast (device s h (UART0 + LSR)) AND LSR_TX_IDLE \<noteq> 0)"

definition ascii :: "char \<Rightarrow> u8" where
  "ascii c = word_of_int (of_char c)"

definition char_events :: "char \<Rightarrow> mmio_event list" where
  "char_events c = [MWrite (UART0 + THR) (ucast (ascii c)), MRead (UART0 + LSR)]"

definition shown :: "string \<Rightarrow> 'z kuart_scheme \<Rightarrow> 'z kuart_scheme" where
  "shown cs s = s\<lparr>mmio_log := concat (map char_events (rev cs)) @ mmio_log s\<rparr>"

lemma shown_simps [simp]:
  "shown [] s = s" "shown ds (shown cs s) = shown (cs @ ds) s" "tx_ready (shown cs s) = tx_ready s"
  "cpu_ok (shown cs s) = cpu_ok s" "lock_free lk (shown cs s) = lock_free lk s" "shown cs (held lk s) = held lk (shown cs s)"
  by (simp_all add: shown_def tx_ready_def cpu_ok_def lock_free_def mycpu_def held_def entered_def upd_lock_def)

lemma sent_shown: "sent (shown cs s) = sent s @ map ascii cs"
proof (induction cs arbitrary: s)
  case (Cons c cs)
  have "shown (c # cs) s = shown cs (shown [c] s)" by simp
  moreover have "sent (shown [c] s) = sent s @ [ascii c]" by (simp add: shown_def sent_def char_events_def)
  ultimately show ?case using Cons.IH [of "shown [c] s"] by (simp del: shown_simps)
qed simp

lemma tx_ready_held [simp]: "tx_ready s \<Longrightarrow> tx_ready (held lk s)"
  by (auto simp: tx_ready_def cpu_ok_def held_def entered_def upd_lock_def mycpu_def)

lemma byte_char: "of_char c \<noteq> BACKSPACE"
proof -
  have "of_char c mod 256 = (of_char c :: int)" by (rule of_char_mod_256)
  then have "of_char c < (256 :: int)" by (metis pos_mod_bound zero_less_numeral)
  then show ?thesis by (simp add: BACKSPACE_def)
qed

lemma entered_kuart [simp]:
  "polls (entered s) = polls s" "panicked (entered s) = panicked s" "device (entered s) = device s" "mmio_log (entered s) = mmio_log s"
  "(entered s)\<lparr>mmio_log := l\<rparr> = entered (s\<lparr>mmio_log := l\<rparr>)"
  by (simp_all add: entered_def mycpu_def)

lemma wait_ready:
  assumes "tx_ready s"
  shows "bind (gets polls) wait_tx_idle (entered s) = Ok () (entered (s\<lparr>mmio_log := MRead (UART0 + LSR) # mmio_log s\<rparr>))"
  using assms by (cases "polls s") (simp_all add: tx_ready_def op_simps ReadReg_def mmio_read_def)

lemma consputc_shown:
  assumes "tx_ready s"
  shows "consputc (of_char c) s = Ok () (shown [c] s)"
proof -
  let ?t = "s\<lparr>mmio_log := MRead (UART0 + LSR) # mmio_log s\<rparr>"
  have cp: "cpu_ok s" "\<not> panicked s" using assms by (simp_all add: tx_ready_def)
  have w: "WriteReg THR (word_of_int (of_char c)) (entered ?t) = Ok () (entered (shown [c] s))"
    by (simp add: WriteReg_def mmio_write_def op_simps shown_def char_events_def ascii_def entered_def mycpu_def)
  show ?thesis
    using cp wait_ready [OF assms] w pop_off_ok [of "shown [c] s"] byte_char [of c]
    by (simp add: consputc_def uartputc_sync_def push_off_ok op_simps)
qed

lemma puts_shown: "tx_ready s \<Longrightarrow> puts cs s = Ok () (shown cs s)"
proof (induction cs arbitrary: s)
  case (Cons c cs)
  then show ?case using Cons.IH [of "shown [c] s"] by (simp add: puts_def op_simps consputc_shown)
qed (simp add: puts_def op_simps)

lemma for_each_map: "for_each (map f is) body = for_each is (\<lambda>i. body (f i))"
  by (induction "is") simp_all

lemma printptr_shown: "tx_ready s \<Longrightarrow> printptr x s = Ok () (shown (ptr_chars x) s)"
proof -
  assume r: "tx_ready s"
  have "printptr x s = puts (ptr_chars x) s"
    by (simp add: printptr_def puts_def ptr_chars_def for_each_map)
  then show ?thesis using puts_shown [OF r] by simp
qed

lemma printf_loop_shown:
  "tx_ready s \<Longrightarrow> format fmt args = Some cs \<Longrightarrow> printf_loop fmt args s = Ok () (shown cs s)"
proof (induction fmt args arbitrary: s cs rule: format.induct)
  case (3 c d fmt args)
  consider (plain) "c \<noteq> CHR ''%''" | (arg) "c = CHR ''%''" "d \<in> set ''dxps''" | (other) "c = CHR ''%''" "d \<notin> set ''dxps''"
    by blast
  then show ?case
  proof cases
    case plain
    then obtain ds where "format (d # fmt) args = Some ds" "cs = c # ds" using "3.prems"(2) by auto
    then show ?thesis using plain "3.prems"(1) "3.IH"(1) [of "shown [c] s" ds] by (simp add: op_simps consputc_shown)
  next
    case arg
    then obtain a as bs ds where a: "args = a # as" "arg_text d a = Some bs" "format fmt as = Some ds" "cs = bs @ ds"
      using "3.prems"(2) by (auto simp: bind_eq_Some_conv split: list.splits)
    have "printf_loop fmt as (shown bs s) = Ok () (shown ds (shown bs s))"
      by (rule "3.IH"(2)) (use arg a "3.prems"(1) in auto)
    then show ?thesis using arg a "3.prems"(1)
      by (cases a) (auto simp: arg_text_def op_simps printint_def puts_shown printptr_shown split: if_splits)
  next
    case other
    let ?bs = "if d = CHR ''%'' then ''%'' else [CHR ''%'', d]"
    obtain ds where ds: "format fmt args = Some ds" "cs = ?bs @ ds" using other "3.prems"(2) by auto
    have "printf_loop fmt args (shown ?bs s) = Ok () (shown ds (shown ?bs s))"
      by (rule "3.IH"(3)) (use other "3.prems"(1) ds in auto)
    moreover have "consputc 37 s = Ok () (shown ''%'' s)" using consputc_shown [OF "3.prems"(1), of "CHR ''%''"] by simp
    moreover have "d \<noteq> CHR ''d'' \<and> d \<noteq> CHR ''x'' \<and> d \<noteq> CHR ''p'' \<and> d \<noteq> CHR ''s''" using other(2) by simp
    ultimately show ?thesis using other(1) "3.prems"(1) ds
      by (cases "d = CHR ''%''") (simp_all add: op_simps consputc_shown)
  qed
qed (auto simp: op_simps consputc_shown split: if_splits)

text \<open>The console writes exactly the text of the format.\<close>

lemma printf_shown:
  fixes s :: "'z kcons_scheme"
  assumes "tx_ready s" "lock_free PrLock s" "format fmt args = Some cs"
  shows "printf fmt args s = Ok () (shown cs s)"
proof -
  have cp: "cpu_ok s" using assms(1) by (simp add: tx_ready_def)
  show ?thesis
    using assms cp printf_loop_shown [OF assms(1,3)] printf_loop_shown [OF tx_ready_held [OF assms(1)] assms(3), of PrLock]
    by (cases "pr_locking s") (simp_all add: printf_def op_simps acquire_ok release_ok)
qed

end
