(* ===== verification/Xv6_Tracing.thy ===== *)
theory Xv6_Tracing
  imports Xv6_Trap Xv6_Printf
begin

text \<open>
  The kernel of the system-call exercise where it differs from the kernel of the lottery
  exercise: \<^verbatim>\<open>kernel/proc.c\<close>, \<^verbatim>\<open>kernel/syscall.c\<close> and
  \<^verbatim>\<open>kernel/sysproc.c\<close> under \<^verbatim>\<open>xv6-System-Call-Offline-02\<close>.  A process
  has the number of the system call that it traces (0 for none), the dispatcher prints a line
  for a traced call, \<^verbatim>\<open>sysinfo\<close> prints the free memory and the number of processes,
  and the scheduler goes round the table.  Names that clash with those of the other kernel
  have the suffix \<open>_sc\<close>.  The field \<open>tracer\<close> of \<^verbatim>\<open>struct proc\<close> is a table
  indexed by the slot.
\<close>

section \<open>State\<close>

record ktraced = kfile +
  tracer :: "nat \<Rightarrow> int"

definition set_tracer :: "nat \<Rightarrow> int \<Rightarrow> 'z ktraced_scheme \<Rightarrow> 'z ktraced_scheme" where
  "set_tracer p n s = s\<lparr>tracer := (tracer s)(p := n)\<rparr>"

section \<open>Processes\<close>

definition freeproc_sc :: "nat \<Rightarrow> ('z ktraced_scheme, unit) op" where
  "freeproc_sc p = seq (freeproc p) (modify (set_tracer p 0))"

definition allocproc_sc :: "('z ktraced_scheme, nat option) op" where
  "allocproc_sc =
     bind find_unused (\<lambda>found.
     case found of
       None \<Rightarrow> ret None
     | Some p \<Rightarrow>
         bind allocpid (\<lambda>i.
         seq (modify (upd_proc p (\<lambda>q. q\<lparr>pid := i\<rparr>))) (
         seq (modify (upd_proc p (\<lambda>q. q\<lparr>state := USED\<rparr>))) (
         bind kalloc (\<lambda>tf.
         seq (modify (upd_proc p (\<lambda>q. q\<lparr>trapframe_pa := tf\<rparr>))) (
         if tf = 0 then seq (freeproc_sc p) (seq (release (ProcLock p)) (ret None))
         else bind (proc_pagetable p) (\<lambda>pt.
           seq (modify (upd_proc p (\<lambda>q. q\<lparr>pagetable := pt\<rparr>))) (
           if pt = 0 then seq (freeproc_sc p) (seq (release (ProcLock p)) (ret None))
           else seq (modify (\<lambda>s. upd_proc p (\<lambda>q. q\<lparr>pcontext :=
                  \<lparr>ra = sym_forkret s, sp = kstack q + PGSIZE, sregs = replicate 12 0\<rparr>\<rparr>) s)) (
                ret (Some p))))))))))"

definition fork_sc :: "('z ktraced_scheme, int) op" where
  "fork_sc =
     bind curproc (\<lambda>p.
     bind allocproc_sc (\<lambda>r.
     case r of
       None \<Rightarrow> ret (- 1)
     | Some np \<Rightarrow>
         bind (gets (\<lambda>s. procs s p)) (\<lambda>q.
         bind (gets (\<lambda>s. pagetable (procs s np))) (\<lambda>npt.
         bind (uvmcopy (pagetable q) npt (psz q)) (\<lambda>r.
         if r < 0 then seq (freeproc_sc np) (seq (release (ProcLock np)) (ret (- 1)))
         else
           seq (modify (upd_proc np (\<lambda>k. k\<lparr>psz := psz q\<rparr>))) (
           seq (bind (get_tf p) (\<lambda>t. modify (upd_tf np (\<lambda>_. t)))) (
           seq (modify (upd_tf np (set_reg Ra0 0))) (
           seq (dup_files p np) (
           bind (bind (the_ip (cwd q)) idup) (\<lambda>d.
           seq (modify (upd_proc np (\<lambda>k. k\<lparr>cwd := Some d\<rparr>))) (
           seq (modify (upd_proc np (\<lambda>k. k\<lparr>pname := safestr 16 (pname q)\<rparr>))) (
           bind (gets (\<lambda>s. pid (procs s np))) (\<lambda>i.
           seq (release (ProcLock np)) (
           seq (acquire WaitLock) (
           seq (modify (upd_proc np (\<lambda>k. k\<lparr>parent := Some p\<rparr>))) (
           seq (release WaitLock) (
           seq (acquire (ProcLock np)) (
           seq (modify (upd_proc np (\<lambda>k. k\<lparr>state := RUNNABLE\<rparr>))) (
           seq (release (ProcLock np)) (
           ret i))))))))))))))))))))"

definition wait_scan_sc :: "nat \<Rightarrow> u64 \<Rightarrow> ('z ktraced_scheme, bool + int) op" where
  "wait_scan_sc p addr =
     loop_op [0..<NPROC] (\<lambda>pp havekids.
       bind (gets (\<lambda>s. parent (procs s pp))) (\<lambda>par.
       if par \<noteq> Some p then ret (Inl havekids)
       else
         seq (acquire (ProcLock pp)) (
         bind (gets (\<lambda>s. procs s pp)) (\<lambda>q.
         if state q = ZOMBIE then
           bind (if addr \<noteq> 0
                 then bind (gets (\<lambda>s. pagetable (procs s p))) (\<lambda>pt. copyout pt addr (int_bytes (xstate q)))
                 else ret 0) (\<lambda>r.
           if r < 0 then seq (release (ProcLock pp)) (seq (release WaitLock) (ret (Inr (- 1))))
           else seq (freeproc_sc pp) (seq (release (ProcLock pp)) (seq (release WaitLock) (ret (Inr (pid q))))))
         else seq (release (ProcLock pp)) (ret (Inl True)))))) False"

primrec wait_loop_sc :: "nat \<Rightarrow> 'z ktraced_scheme env \<Rightarrow> nat \<Rightarrow> u64 \<Rightarrow> ('z ktraced_scheme, int) op" where
  "wait_loop_sc 0 E p addr = halt Spin"
| "wait_loop_sc (Suc n) E p addr =
     bind (wait_scan_sc p addr) (\<lambda>r.
     case r of
       Inr v \<Rightarrow> ret v
     | Inl havekids \<Rightarrow>
         bind (if havekids then killed p else ret 0) (\<lambda>k.
         if \<not> havekids \<or> k \<noteq> 0 then seq (release WaitLock) (ret (- 1))
         else seq (sleep E (ChanProc p) WaitLock) (wait_loop_sc n E p addr)))"

definition wait_sc :: "'z ktraced_scheme env \<Rightarrow> u64 \<Rightarrow> ('z ktraced_scheme, int) op" where
  "wait_sc E addr =
     bind curproc (\<lambda>p.
     seq (acquire WaitLock) (
     wait_loop_sc (Suc (wakeups E)) E p addr))"

definition aliveproc :: "('z kproc_scheme, int) op" where
  "aliveproc =
     fold_op [0..<NPROC] (\<lambda>p n.
       seq (acquire (ProcLock p)) (
       bind (gets (\<lambda>s. state (procs s p))) (\<lambda>st.
       let n = (if st \<noteq> UNUSED then n + 1 else n) in
       seq (release (ProcLock p)) (
       ret n)))) 0"

text \<open>
  One pass of the endless loop of \<^verbatim>\<open>scheduler()\<close>; \<open>run p\<close> is the parameter for
  \<^verbatim>\<open>swtch(&c->context, &p->context)\<close>, the execution of process \<open>p\<close> until it
  switches back.
\<close>

definition scheduler_slot :: "(nat \<Rightarrow> ('z kproc_scheme, unit) op) \<Rightarrow> nat \<Rightarrow> ('z kproc_scheme, unit) op" where
  "scheduler_slot run p =
     seq (acquire (ProcLock p)) (
     bind (gets (\<lambda>s. state (procs s p))) (\<lambda>st.
     seq (do_if (st = RUNNABLE) (
       seq (modify (upd_proc p (\<lambda>q. q\<lparr>state := RUNNING\<rparr>))) (
       seq (modify (upd_mycpu (\<lambda>c. c\<lparr>cproc := Some p\<rparr>))) (
       seq (run p) (
       modify (upd_mycpu (\<lambda>c. c\<lparr>cproc := None\<rparr>))))))) (
     release (ProcLock p))))"

definition scheduler_pass :: "(nat \<Rightarrow> ('z kproc_scheme, unit) op) \<Rightarrow> ('z kproc_scheme, unit) op" where
  "scheduler_pass run = seq intr_on (for_each [0..<NPROC] (scheduler_slot run))"

section \<open>System calls\<close>

definition sys_trace :: "('z ktraced_scheme, u64) op" where
  "sys_trace =
     bind curproc (\<lambda>p.
     bind (argint 0) (\<lambda>n.
     seq (modify (set_tracer p n)) (
     ret 0)))"

definition sys_sysinfo :: "('z kfile_scheme, u64) op" where
  "sys_sysinfo =
     seq (printf (LF # ''sysinfo system call prints:'' @ [LF]) []) (
     seq (bind freemem (\<lambda>n. printf (''free-memory: %d bytes'' @ [LF]) [PInt n])) (
     seq (bind aliveproc (\<lambda>n. printf (''n_proc  : %d'' @ [LF, LF]) [PInt n])) (
     ret 0)))"

definition sys_fork_sc :: "('z ktraced_scheme, u64) op" where
  "sys_fork_sc = bind fork_sc (\<lambda>r. ret (word_of_int r))"

definition sys_wait_sc :: "'z ktraced_scheme env \<Rightarrow> ('z ktraced_scheme, u64) op" where
  "sys_wait_sc E = bind (argaddr 0) (\<lambda>p. bind (wait_sc E p) (\<lambda>r. ret (word_of_int r)))"

definition SYS_trace :: int where "SYS_trace = 22"
definition SYS_sysinfo :: int where "SYS_sysinfo = 23"

definition syscalls_sc :: "'z ktraced_scheme env \<Rightarrow> int \<Rightarrow> ('z ktraced_scheme, u64) op option" where
  "syscalls_sc E num =
     map_of [(SYS_fork, sys_fork_sc), (SYS_exit, sys_exit E), (SYS_wait, sys_wait_sc E), (SYS_pipe, sys_pipe E),
       (SYS_read, sys_read E), (SYS_kill, sys_kill), (SYS_exec, sys_exec E), (SYS_fstat, sys_fstat E),
       (SYS_chdir, sys_chdir E), (SYS_dup, sys_dup), (SYS_getpid, sys_getpid), (SYS_sbrk, sys_sbrk),
       (SYS_sleep, sys_sleep E), (SYS_uptime, sys_uptime), (SYS_open, sys_open E), (SYS_write, sys_write E),
       (SYS_mknod, sys_mknod E), (SYS_unlink, sys_unlink E), (SYS_link, sys_link E), (SYS_mkdir, sys_mkdir E),
       (SYS_close, sys_close E), (SYS_trace, sys_trace), (SYS_sysinfo, sys_sysinfo)] num"

text \<open>The table of names: entry 0 is a null pointer, and there is none from 24 on.\<close>

definition syscalltitles :: "string option list" where
  "syscalltitles = None # map Some
     [''fork'', ''exit'', ''wait'', ''pipe'', ''read'', ''kill'', ''exec'', ''fstat'', ''chdir'', ''dup'', ''getpid'',
      ''sbrk'', ''sleep'', ''uptime'', ''open'', ''write'', ''mknod'', ''unlink'', ''link'', ''mkdir'', ''close'',
      ''trace'', ''sysinfo'']"

definition title :: "int \<Rightarrow> ('s, string option) op" where
  "title num =
     (if 0 \<le> num \<and> num < int (length syscalltitles) then ret (syscalltitles ! nat num) else fault ''syscalltitles'')"

text \<open>A 64-bit value passed for \<^verbatim>\<open>%d\<close> is read as an \<^verbatim>\<open>int\<close>.\<close>

definition trace_call :: "nat \<Rightarrow> int \<Rightarrow> ('z ktraced_scheme, unit) op" where
  "trace_call p num =
     bind (gets (\<lambda>s. tracer s p)) (\<lambda>n.
     do_if (n = num) (
       bind (gets (\<lambda>s. pid (procs s p))) (\<lambda>i.
       bind (title num) (\<lambda>name.
       bind (get_tf p) (\<lambda>t.
       printf (''pid: %d, syscall: %s, return value: %d'' @ [LF])
         [PInt i, PStr name, PInt (sint (ucast (regs t Ra0) :: u32))])))))"

definition syscall_sc :: "'z ktraced_scheme env \<Rightarrow> ('z ktraced_scheme, unit) op" where
  "syscall_sc E =
     bind curproc (\<lambda>p.
     bind (get_tf p) (\<lambda>t.
     let num = sint (ucast (regs t Ra7) :: u32) in
     seq (case syscalls_sc E num of
            Some f \<Rightarrow> bind f (\<lambda>v. modify (upd_tf p (set_reg Ra0 v)))
          | None \<Rightarrow>
              bind (gets (\<lambda>s. procs s p)) (\<lambda>q.
              seq (printf (''%d %s: unknown sys call %d'' @ [LF]) [PInt (pid q), PStr (Some (pname q)), PInt num]) (
              modify (upd_tf p (set_reg Ra0 (- 1)))))) (
     trace_call p num)))"

section \<open>The pass of the scheduler\<close>

text \<open>
  A process runs as the current one of the CPU, with its lock held, and it comes back that
  way, as \<^verbatim>\<open>sched()\<close> demands.  \<open>h p\<close> is what its run does to the rest of the
  state: it may change its own slot in any way and wake or create others, but it does not
  take away from another process that it is runnable.
\<close>

definition as_current :: "nat \<Rightarrow> 'z kproc_scheme \<Rightarrow> 'z kproc_scheme" where
  "as_current p u = upd_mycpu (\<lambda>c. c\<lparr>cproc := Some p\<rparr>) (held (ProcLock p) u)"

definition idle :: "'z kproc_scheme \<Rightarrow> bool" where
  "idle u \<longleftrightarrow> plocks_ok u \<and> cproc (mycpu u) = None"

definition comes_back ::
  "(nat \<Rightarrow> ('z kproc_scheme, unit) op) \<Rightarrow> (nat \<Rightarrow> 'z kproc_scheme \<Rightarrow> 'z kproc_scheme) \<Rightarrow> bool" where
  "comes_back run h \<longleftrightarrow>
     (\<forall>p u. p < NPROC \<longrightarrow> idle u \<longrightarrow> state (procs u p) = RUNNING \<longrightarrow>
        run p (as_current p u) = Ok () (as_current p (h p u)) \<and> idle (h p u)
        \<and> (\<forall>q. q \<noteq> p \<longrightarrow> state (procs u q) = RUNNABLE \<longrightarrow> state (procs (h p u) q) = RUNNABLE))"

definition turn :: "(nat \<Rightarrow> 'z kproc_scheme \<Rightarrow> 'z kproc_scheme) \<Rightarrow> nat \<Rightarrow> 'z kproc_scheme \<Rightarrow> 'z kproc_scheme" where
  "turn h p u = h p (upd_proc p (\<lambda>q. q\<lparr>state := RUNNING\<rparr>) u)"

lemma turn_ok:
  assumes "comes_back run h" "p < NPROC" "idle u"
  shows "run p (as_current p (upd_proc p (\<lambda>q. q\<lparr>state := RUNNING\<rparr>) u)) = Ok () (as_current p (turn h p u))"
    "idle (turn h p u)" "q \<noteq> p \<Longrightarrow> state (procs u q) = RUNNABLE \<Longrightarrow> state (procs (turn h p u) q) = RUNNABLE"
proof -
  let ?u = "upd_proc p (\<lambda>q. q\<lparr>state := RUNNING\<rparr>) u"
  have "idle ?u" "state (procs ?u p) = RUNNING" using assms(3) by (simp_all add: idle_def)
  from assms(1) [unfolded comes_back_def, rule_format, OF assms(2) this]
  show "run p (as_current p ?u) = Ok () (as_current p (turn h p u))" "idle (turn h p u)"
    "q \<noteq> p \<Longrightarrow> state (procs u q) = RUNNABLE \<Longrightarrow> state (procs (turn h p u) q) = RUNNABLE"
    by (auto simp: turn_def)
qed

lemma leave_current:
  assumes "idle u"
  shows "upd_mycpu (\<lambda>c. c\<lparr>cproc := None\<rparr>) (as_current p u) = held (ProcLock p) u"
proof -
  have "(cpus u (tp u))\<lparr>noff := n, cproc := None\<rparr> = (cpus u (tp u))\<lparr>noff := n\<rparr>" for n
    using assms by (cases "cpus u (tp u)") (simp add: idle_def mycpu_def)
  then show ?thesis by (cases u) (simp add: as_current_def held_def entered_def machine_defs)
qed

lemma scheduler_slot_eq:
  assumes "comes_back run h" "p < NPROC" "idle u"
  shows "scheduler_slot run p u = Ok () (if state (procs u p) = RUNNABLE then turn h p u else u)"
proof -
  have l: "plocks_ok u" "plocks_ok (turn h p u)" using assms(3) turn_ok(2) [OF assms] by (simp_all add: idle_def)
  show ?thesis
    using locked_read [OF l(1) assms(2)] locked_read [OF l(2) assms(2)] turn_ok(1) [OF assms] leave_current [OF turn_ok(2) [OF assms], of p]
    by (simp add: scheduler_slot_def op_simps as_current_def)
qed

primrec ran :: "(nat \<Rightarrow> 'z kproc_scheme \<Rightarrow> 'z kproc_scheme) \<Rightarrow> nat list \<Rightarrow> 'z kproc_scheme \<Rightarrow> nat list" where
  "ran h [] u = []"
| "ran h (p # is) u = (if state (procs u p) = RUNNABLE then p # ran h is (turn h p u) else ran h is u)"

lemma slots_eq:
  assumes "comes_back run h" "set is \<subseteq> {..<NPROC}" "idle u"
  shows "for_each is (scheduler_slot run) u = Ok () (fold (turn h) (ran h is u) u)"
  using assms(2,3)
proof (induction "is" arbitrary: u)
  case (Cons p "is")
  then show ?case using scheduler_slot_eq [OF assms(1), of p u] turn_ok(2) [OF assms(1), of p u] by (simp add: op_simps)
qed simp

lemma ran_runnable:
  assumes "comes_back run h" "set is \<subseteq> {..<NPROC}" "idle u" "p \<in> set is" "state (procs u p) = RUNNABLE" "distinct is"
  shows "p \<in> set (ran h is u)"
  using assms(2-)
proof (induction "is" arbitrary: u)
  case (Cons i "is")
  then show ?case using turn_ok(2,3) [OF assms(1), of i u] by (cases "p = i") auto
qed simp

lemma ran_sorted: "sorted_wrt (<) is \<Longrightarrow> sorted_wrt (<) (ran h is u) \<and> set (ran h is u) \<subseteq> set is"
  by (induction "is" arbitrary: u) auto

lemma scheduler_pass_start:
  assumes "sched_ready s"
  shows "scheduler_pass run s = for_each [0..<NPROC] (scheduler_slot run) (sched_start s)"
proof -
  have u: "[0..<NPROC] = 0 # [1..<NPROC]" by (simp add: NPROC_def upt_conv_Cons)
  have "noff (mycpu (s\<lparr>sie := (sie s)(tp s := True)\<rparr>)) = 0" using assms by (simp add: sched_ready_def mycpu_def)
  from acquire_norm [OF this] show ?thesis
    unfolding scheduler_pass_def u by (simp add: intr_on_def op_simps scheduler_slot_def sched_start_def)
qed

text \<open>
  C34. A pass of the round-robin scheduler starves nobody: when every process that is run comes
  back to the scheduler, the pass returns, it is the sequence of the turns of some processes in
  strictly increasing order of their slots, and every process that was \<^verbatim>\<open>RUNNABLE\<close> at
  its start is among them, so each of these runs exactly once.
\<close>

theorem scheduler_pass_runs_all_runnable:
  assumes "comes_back run h" "sched_ready s" "cproc (mycpu s) = None"
  shows "\<exists>ps. scheduler_pass run s = Ok () (fold (turn h) ps (sched_start s)) \<and> sorted_wrt (<) ps
    \<and> set ps \<subseteq> {..<NPROC} \<and> {p. p < NPROC \<and> state (procs s p) = RUNNABLE} \<subseteq> set ps"
proof -
  let ?ps = "ran h [0..<NPROC] (sched_start s)"
  have i: "idle (sched_start s)"
    using sched_start_ok(1) [OF assms(2)] assms(3) by (simp add: idle_def sched_start_def norm_intena_def machine_defs)
  have in_range: "set [0..<NPROC] \<subseteq> {..<NPROC}" by auto
  have "p \<in> set ?ps" if "p < NPROC" "state (procs s p) = RUNNABLE" for p
    using ran_runnable [OF assms(1) in_range i, of p] that sched_start_ok(2) [OF assms(2)] by simp
  moreover have "sorted_wrt (<) ?ps \<and> set ?ps \<subseteq> {..<NPROC}" using ran_sorted [of "[0..<NPROC]" h "sched_start s"] by auto
  ultimately show ?thesis
    using scheduler_pass_start [OF assms(2)] slots_eq [OF assms(1) in_range i] by (intro exI [of _ ?ps]) auto
qed

text \<open>Processes that run and wait for the clock.\<close>

definition dozes :: "nat \<Rightarrow> 'z kproc_scheme \<Rightarrow> 'z kproc_scheme" where
  "dozes p = upd_proc p (\<lambda>q. q\<lparr>state := SLEEPING, pchan := Some ChanTicks\<rparr>)"

lemma dozes_comes_back: "comes_back (\<lambda>p. modify (dozes p)) dozes"
  by (auto simp: comes_back_def dozes_def idle_def as_current_def upd_mycpu_def upd_proc_def held_def entered_def upd_lock_def
      plocks_ok_def cpu_ok_def lock_free_def mycpu_def)

theorem scheduler_pass_runs_all_runnable_witness:
  "\<exists>ps. scheduler_pass (\<lambda>p. modify (dozes p)) (demo_kproc demo_two) = Ok () (fold (turn dozes) ps (sched_start (demo_kproc demo_two)))
    \<and> {0, 1} \<subseteq> set ps"
proof -
  have "cproc (mycpu (demo_kproc demo_two)) = None" by (simp add: demo_kproc_def mycpu_def)
  from scheduler_pass_runs_all_runnable [OF dozes_comes_back demo_kproc_ok(2) this] obtain ps where
    "scheduler_pass (\<lambda>p. modify (dozes p)) (demo_kproc demo_two) = Ok () (fold (turn dozes) ps (sched_start (demo_kproc demo_two)))"
    "{p. p < NPROC \<and> state (demo_two p) = RUNNABLE} \<subseteq> set ps" by (auto simp: demo_kproc_ok(3))
  then show ?thesis by (intro exI [of _ ps]) (auto simp: demo_two_def NPROC_def)
qed

section \<open>sysinfo\<close>

lemma shown_kernel [simp]:
  "procs (shown cs s) = procs s" "plocks_ok (shown cs s) = plocks_ok s" "kmem_inv (shown cs s) ps = kmem_inv s ps"
  by (simp_all add: shown_def plocks_ok_def cpu_ok_def lock_free_def mycpu_def kmem_inv_def klock_ok_def valid_page_def)

definition alive :: "(nat \<Rightarrow> proc) \<Rightarrow> nat \<Rightarrow> nat" where
  "alive ps n = card {p. p < n \<and> state (ps p) \<noteq> UNUSED}"

lemma alive_Suc: "alive ps (Suc n) = alive ps n + (if state (ps n) \<noteq> UNUSED then 1 else 0)"
proof -
  have "{p. p < Suc n \<and> state (ps p) \<noteq> UNUSED} =
      (if state (ps n) \<noteq> UNUSED then insert n {p. p < n \<and> state (ps p) \<noteq> UNUSED} else {p. p < n \<and> state (ps p) \<noteq> UNUSED})"
    by (auto simp: less_Suc_eq)
  then show ?thesis by (simp add: alive_def)
qed

lemma aliveproc_eq:
  assumes "plocks_ok s"
  shows "aliveproc s = Ok (int (alive (procs s) NPROC)) s"
proof -
  have "aliveproc s = Ok (fold (\<lambda>p n. if state (procs s p) \<noteq> UNUSED then n + 1 else n) [0..<NPROC] 0) s"
    unfolding aliveproc_def
    by (rule fold_op_pure) (use locked_read [OF assms] in \<open>simp add: op_simps Let_def\<close>)
  moreover have "fold (\<lambda>p n. if state (procs s p) \<noteq> UNUSED then n + 1 else n) [0..<k] 0 = int (alive (procs s) k)" for k
    by (induction k) (simp_all add: alive_Suc, simp add: alive_def)
  ultimately show ?thesis by simp
qed

definition decimal :: "int \<Rightarrow> string" where
  "decimal x = printint_chars x 10 True"

definition sysinfo_text :: "nat \<Rightarrow> nat \<Rightarrow> string" where
  "sysinfo_text bytes count =
     LF # ''sysinfo system call prints:'' @ LF # ''free-memory: '' @ decimal (int bytes) @ '' bytes'' @
     LF # ''n_proc  : '' @ decimal (int count) @ [LF, LF]"

text \<open>
  C36. \<^verbatim>\<open>sysinfo\<close> reports the truth: on a line that is ready it returns 0, the text it
  puts out names the number of bytes in the free list and the number of slots of the process
  table that are in use, and apart from the accesses to the serial line the state is unchanged.
\<close>

theorem sysinfo_reports:
  fixes s :: "'z kfile_scheme"
  assumes "kmem_inv s fs" "plocks_ok s" "tx_ready s" "lock_free PrLock s"
  shows "\<exists>cs. cs = sysinfo_text (4096 * length fs) (card {p. p < NPROC \<and> state (procs s p) \<noteq> UNUSED})
    \<and> sys_sysinfo s = Ok 0 (shown cs s) \<and> sent (shown cs s) = sent s @ map ascii cs"
proof -
  let ?a = "LF # ''sysinfo system call prints:'' @ [LF]"
  let ?b = "''free-memory: '' @ decimal (4096 * int (length fs)) @ '' bytes'' @ [LF]"
  let ?c = "''n_proc  : '' @ decimal (int (alive (procs s) NPROC)) @ [LF, LF]"
  have f: "format ?a [] = Some ?a"
    "format (''free-memory: %d bytes'' @ [LF]) [PInt (4096 * int (length fs))] = Some ?b"
    "format (''n_proc  : %d'' @ [LF, LF]) [PInt (int (alive (procs s) NPROC))] = Some ?c"
    by (simp_all add: arg_text_def decimal_def)
  have p: "printf fmt args (shown cs s) = Ok () (shown (cs @ ds) s)" if "format fmt args = Some ds" for fmt args cs ds
    using printf_shown [of "shown cs s", OF _ _ that] assms by simp
  have m: "freemem (shown cs s) = Ok (4096 * int (length fs)) (shown cs s)" for cs
    using freemem_count [of "shown cs s" fs] assms(1) by simp
  have al: "aliveproc (shown cs s) = Ok (int (alive (procs s) NPROC)) (shown cs s)" for cs
    using aliveproc_eq [of "shown cs s"] assms(2) by simp
  have "sys_sysinfo s = Ok 0 (shown (?a @ ?b @ ?c) s)"
    using p [OF f(1), of "[]"] p [OF f(2), of ?a] p [OF f(3), of "?a @ ?b"] m [of ?a] al [of "?a @ ?b"]
    by (simp add: sys_sysinfo_def op_simps)
  moreover have "?a @ ?b @ ?c = sysinfo_text (4096 * length fs) (card {p. p < NPROC \<and> state (procs s p) \<noteq> UNUSED})"
    by (simp add: sysinfo_text_def alive_def)
  ultimately show ?thesis by (metis sent_shown)
qed

lemma demo_console: "tx_ready demo_kfile" "sent demo_kfile = []"
  by (simp_all add: tx_ready_def) (simp_all add: demo_kfile_def sent_def LSR_TX_IDLE_def)

lemma demo_alive: "{p. p < NPROC \<and> state (procs demo_kfile p) \<noteq> UNUSED} = {0, 1}"
  by (auto simp: demo_kfile_def demo_procs_def demo_proc_def NPROC_def split: if_splits)

theorem sysinfo_reports_witness:
  "\<exists>u. sys_sysinfo demo_kfile = Ok 0 u \<and> sent u = map ascii
     (LF # ''sysinfo system call prints:'' @ LF # ''free-memory: 0 bytes'' @ LF # ''n_proc  : 2'' @ [LF, LF])"
proof -
  have "kmem_inv demo_kfile []" by (simp add: kmem_inv_def klock_ok_def) (simp add: demo_kfile_def KERNBASE_def)
  from sysinfo_reports [OF this] have "\<exists>u. sys_sysinfo demo_kfile = Ok 0 u \<and> sent u = map ascii (sysinfo_text 0 2)"
    by (auto simp: demo_console demo_alive numeral_2_eq_2)
  moreover have "decimal 0 = ''0''" "decimal 2 = ''2''"
    by (simp_all add: decimal_def printint_chars_def digits_rev.simps digits_def)
  ultimately show ?thesis by (simp add: sysinfo_text_def)
qed

section \<open>Tracing\<close>

definition trace_line :: "int \<Rightarrow> string \<Rightarrow> u64 \<Rightarrow> string" where
  "trace_line i name v =
     ''pid: '' @ decimal i @ '', syscall: '' @ name @ '', return value: '' @ decimal (sint (ucast v :: u32)) @ [LF]"

lemma trace_line_format:
  "format (''pid: %d, syscall: %s, return value: %d'' @ [LF]) [PInt i, PStr (Some name), PInt (sint (ucast v :: u32))]
    = Some (trace_line i name v)"
  by (simp add: arg_text_def decimal_def trace_line_def)

lemma upd_tf_kernel [simp]:
  "tx_ready (upd_tf p f s) = tx_ready s" "lock_free lk (upd_tf p f s) = lock_free lk s" "procs (upd_tf p f s) = procs s"
  "tracer (upd_tf p f t) = tracer t" "sent (upd_tf p f s) = sent s"
  by (simp_all add: upd_tf_def tx_ready_def cpu_ok_def lock_free_def mycpu_def sent_def)

lemma numbered_call:
  assumes "syscalls_sc E num = Some f"
  shows "0 < num" "num < int (length syscalltitles)" "\<exists>name. syscalltitles ! nat num = Some name"
proof -
  have "num \<in> {1..23}" using assms by (auto simp: syscalls_sc_def SYS_defs SYS_trace_def SYS_sysinfo_def split: if_splits)
  then show n: "0 < num" "num < int (length syscalltitles)" by (simp_all add: syscalltitles_def)
  have "list_all (\<lambda>x. x \<noteq> None) (tl syscalltitles)" "length (tl syscalltitles) = 23" by (simp_all add: syscalltitles_def)
  then have "\<exists>name. syscalltitles ! Suc k = Some name" if "k < 23" for k
    using that nth_tl [of k syscalltitles] by (cases "syscalltitles ! Suc k") (auto simp: list_all_length)
  moreover have "nat num = Suc (nat (num - 1))" "nat (num - 1) < 23" using \<open>num \<in> {1..23}\<close> by auto
  ultimately show "\<exists>name. syscalltitles ! nat num = Some name" by simp
qed

text \<open>
  C35. The dispatcher traces exactly the call that is asked for.  A system call with an entry in
  the table that returns \<open>v\<close> leaves \<open>v\<close> in \<^verbatim>\<open>a0\<close>; afterwards one line with
  the process id, the name of the call and its result as a signed 32-bit number goes to the
  console if the tracer of the process is that number, and nothing is printed otherwise.
\<close>

theorem syscall_traces_call:
  fixes s t :: "'z ktraced_scheme"
  assumes "cpu_ok s" "cproc (mycpu s) = Some p"
    and "num = sint (ucast (regs (tframes s (trapframe_pa (procs s p))) Ra7) :: u32)"
    and "syscalls_sc E num = Some f" "f s = Ok v t" "tx_ready t" "lock_free PrLock t"
  shows "\<exists>u name. syscall_sc E s = Ok () u \<and> syscalltitles ! nat num = Some name
    \<and> regs (tframes u (trapframe_pa (procs u p))) Ra0 = v
    \<and> sent u = sent t @ (if tracer t p = num then map ascii (trace_line (pid (procs t p)) name v) else [])"
proof -
  let ?u = "upd_tf p (set_reg Ra0 v) t"
  obtain name where n: "syscalltitles ! nat num = Some name" "0 < num" "num < int (length syscalltitles)"
    using numbered_call [OF assms(4)] by blast
  have a: "regs (tframes ?u (trapframe_pa (procs t p))) Ra0 = v" by (simp add: upd_tf_def set_reg_def)
  have call: "syscall_sc E s = trace_call p num ?u"
    using assms by (simp add: syscall_sc_def op_simps curproc_ok get_tf_def Let_def)
  have p: "printf (''pid: %d, syscall: %s, return value: %d'' @ [LF])
      [PInt (pid (procs t p)), PStr (Some name), PInt (sint (ucast v :: u32))] ?u
    = Ok () (shown (trace_line (pid (procs t p)) name v) ?u)"
    by (rule printf_shown) (use assms in \<open>simp_all add: trace_line_format del: append.simps\<close>)
  show ?thesis
  proof (cases "tracer t p = num")
    case True
    let ?w = "shown (trace_line (pid (procs t p)) name v) ?u"
    have "trace_call p num ?u = Ok () ?w"
      using True n a p by (simp add: trace_call_def op_simps title_def get_tf_def)
    moreover have "tframes ?w = tframes ?u" by (simp add: shown_def)
    ultimately show ?thesis using True call n(1) a by (intro exI [of _ ?w]) (simp add: sent_shown)
  next
    case False
    then have "trace_call p num ?u = Ok () ?u" by (simp add: trace_call_def op_simps)
    then show ?thesis using False call n(1) a by (intro exI [of _ ?u]) simp
  qed
qed

text \<open>Process 1 has asked for the tracing of \<^verbatim>\<open>getpid\<close> and calls it.\<close>

definition demo_traced :: ktraced where
  "demo_traced = kfile.extend (demo_kfile\<lparr>tframes := \<lambda>_. \<lparr>kernel_satp = 0, kernel_sp = 0, kernel_trap = 0, epc = 0,
     kernel_hartid = 0, regs = (\<lambda>_. 0)(Ra7 := 11)\<rparr>\<rparr>) \<lparr>tracer = (\<lambda>_. 0)(1 := 11)\<rparr>"

lemma demo_traced_ok:
  "cpu_ok demo_traced" "cproc (mycpu demo_traced) = Some 1" "tx_ready demo_traced" "lock_free PrLock demo_traced"
  "pid (procs demo_traced 1) = 2" "tracer demo_traced 1 = 11" "sent demo_traced = []"
  "regs (tframes demo_traced (trapframe_pa (procs demo_traced 1))) Ra7 = 11"
  by (simp_all add: demo_traced_def kfile.defs demo_kfile_def cpu_ok_def mycpu_def tx_ready_def lock_free_def sent_def
      LSR_TX_IDLE_def demo_procs_def)

theorem syscall_traces_call_witness:
  "\<exists>u. syscall_sc demo_env demo_traced = Ok () u \<and> sent u = map ascii (''pid: 2, syscall: getpid, return value: 2'' @ [LF])"
proof -
  have f: "syscalls_sc demo_env 11 = Some sys_getpid"
    by (simp add: syscalls_sc_def SYS_defs SYS_trace_def SYS_sysinfo_def)
  have g: "sys_getpid demo_traced = Ok 2 demo_traced"
    using demo_traced_ok by (simp add: sys_getpid_def op_simps curproc_ok)
  have "decimal 2 = ''2''" by (simp add: decimal_def printint_chars_def digits_rev.simps digits_def)
  moreover have "syscalltitles ! 11 = Some ''getpid''" by (simp add: syscalltitles_def)
  ultimately show ?thesis
    using syscall_traces_call [OF demo_traced_ok(1,2) _ f g demo_traced_ok(3,4)]
    by (auto simp: demo_traced_ok [unfolded One_nat_def] trace_line_def)
qed

end
