(* ===== verification/Usr_Grep.thy ===== *)
theory Usr_Grep
  imports "HOL-Library.Sublist"
begin

text \<open>
  \<^verbatim>\<open>user/grep.c\<close>: the matcher for patterns with \<^verbatim>\<open>^ . * $\<close> and the loop
  that reads a file into a buffer of 1024 bytes and prints the lines that match.  A C string
  is the list of its characters without the terminator.  The matcher is compared with a
  declarative meaning of patterns, the loop with the list of the lines of the file.
\<close>

section \<open>The matcher\<close>

function (sequential) matchhere :: "string \<Rightarrow> string \<Rightarrow> bool" and matchstar :: "char \<Rightarrow> string \<Rightarrow> string \<Rightarrow> bool" where
  "matchhere re tx =
     (case re of
        [] \<Rightarrow> True
      | c # re1 \<Rightarrow>
          if re1 \<noteq> [] \<and> hd re1 = CHR ''*'' then matchstar c (tl re1) tx
          else if c = CHR ''$'' \<and> re1 = [] then tx = []
          else if tx \<noteq> [] \<and> (c = CHR ''.'' \<or> c = hd tx) then matchhere re1 (tl tx)
          else False)"
| "matchstar c re tx =
     (if matchhere re tx then True
      else if tx \<noteq> [] \<and> (hd tx = c \<or> c = CHR ''.'') then matchstar c re (tl tx)
      else False)"
  by pat_completeness auto
termination
  by (relation "measure (\<lambda>x. case x of Inl (re, tx) \<Rightarrow> 2 * length re + length tx | Inr (c, re, tx) \<Rightarrow> 2 * length re + length tx + 1)")
     (auto simp: neq_Nil_conv)

declare matchhere.simps [simp del] matchstar.simps [simp del]

primrec match_anywhere :: "string \<Rightarrow> string \<Rightarrow> bool" where
  "match_anywhere re [] = matchhere re []"
| "match_anywhere re (c # tx) = (if matchhere re (c # tx) then True else match_anywhere re tx)"

definition match :: "string \<Rightarrow> string \<Rightarrow> bool" where
  "match re tx = (if re \<noteq> [] \<and> hd re = CHR ''^'' then matchhere (tl re) tx else match_anywhere re tx)"

section \<open>What a pattern means\<close>

datatype atom = One char | Many char

definition fits :: "char \<Rightarrow> char \<Rightarrow> bool" where
  "fits c x \<longleftrightarrow> c = CHR ''.'' \<or> x = c"

primrec atom_lang :: "atom \<Rightarrow> string set" where
  "atom_lang (One c) = {[x] | x. fits c x}"
| "atom_lang (Many c) = {u. list_all (fits c) u}"

primrec lang :: "atom list \<Rightarrow> string set" where
  "lang [] = {[]}"
| "lang (a # as) = {u @ v | u v. u \<in> atom_lang a \<and> v \<in> lang as}"

text \<open>The atoms of a pattern, and whether it ends in an anchor.\<close>

fun atoms :: "string \<Rightarrow> atom list" where
  "atoms [] = []"
| "atoms [c] = (if c = CHR ''$'' then [] else [One c])"
| "atoms (c # d # re) = (if d = CHR ''*'' then Many c # atoms re else One c # atoms (d # re))"

fun ends_at :: "string \<Rightarrow> string set" where
  "ends_at [] = UNIV"
| "ends_at [c] = (if c = CHR ''$'' then {[]} else UNIV)"
| "ends_at (c # d # re) = (if d = CHR ''*'' then ends_at re else ends_at (d # re))"

text \<open>The texts that begin with a word of the pattern, with the rest allowed by the anchor.\<close>

definition prefixed :: "string \<Rightarrow> string set" where
  "prefixed re = {u @ v | u v. u \<in> lang (atoms re) \<and> v \<in> ends_at re}"

lemma lang_One: "x # v \<in> lang (One c # as) \<longleftrightarrow> fits c x \<and> v \<in> lang as" "[] \<notin> lang (One c # as)"
  by (auto intro: exI [of _ "[x]"])

lemma prefixed_One:
  assumes "atoms re = One c # atoms re1" "ends_at re = ends_at re1"
  shows "tx \<in> prefixed re \<longleftrightarrow> tx \<noteq> [] \<and> fits c (hd tx) \<and> tl tx \<in> prefixed re1"
proof (cases tx)
  case Nil
  then show ?thesis using assms lang_One(2) by (auto simp: prefixed_def simp del: lang.simps)
next
  case (Cons x xs)
  have "tx \<in> prefixed re \<longleftrightarrow> (\<exists>u v. tx = u @ v \<and> u \<in> lang (One c # atoms re1) \<and> v \<in> ends_at re1)"
    by (simp add: prefixed_def assms del: lang.simps)
  also have "\<dots> \<longleftrightarrow> (\<exists>u v. xs = u @ v \<and> fits c x \<and> u \<in> lang (atoms re1) \<and> v \<in> ends_at re1)"
  proof
    assume "\<exists>u v. tx = u @ v \<and> u \<in> lang (One c # atoms re1) \<and> v \<in> ends_at re1"
    then obtain u v where u: "tx = u @ v" "u \<in> lang (One c # atoms re1)" "v \<in> ends_at re1" by blast
    then obtain u' where "u = x # u'" using Cons lang_One(2) by (cases u) auto
    then show "\<exists>u v. xs = u @ v \<and> fits c x \<and> u \<in> lang (atoms re1) \<and> v \<in> ends_at re1" using u Cons lang_One(1) by auto
  next
    assume "\<exists>u v. xs = u @ v \<and> fits c x \<and> u \<in> lang (atoms re1) \<and> v \<in> ends_at re1"
    then obtain u v where "xs = u @ v" "fits c x" "u \<in> lang (atoms re1)" "v \<in> ends_at re1" by blast
    then show "\<exists>u v. tx = u @ v \<and> u \<in> lang (One c # atoms re1) \<and> v \<in> ends_at re1"
      using Cons lang_One(1) by (intro exI [of _ "x # u"] exI [of _ v]) (simp del: lang.simps)
  qed
  finally show ?thesis using Cons by (auto simp: prefixed_def)
qed

lemma prefixed_Many:
  assumes "atoms re = Many c # atoms re1" "ends_at re = ends_at re1"
  shows "tx \<in> prefixed re \<longleftrightarrow> tx \<in> prefixed re1 \<or> tx \<noteq> [] \<and> fits c (hd tx) \<and> tl tx \<in> prefixed re"
proof -
  have s: "tx \<in> prefixed re \<longleftrightarrow> (\<exists>w v. tx = w @ v \<and> list_all (fits c) w \<and> v \<in> prefixed re1)" for tx
    unfolding prefixed_def assms lang.simps atom_lang.simps mem_Collect_eq by (metis append_assoc)
  have "(\<exists>w v. tx = w @ v \<and> list_all (fits c) w \<and> v \<in> prefixed re1) \<longleftrightarrow>
      tx \<in> prefixed re1 \<or> tx \<noteq> [] \<and> fits c (hd tx) \<and> (\<exists>w v. tl tx = w @ v \<and> list_all (fits c) w \<and> v \<in> prefixed re1)"
    (is "?l \<longleftrightarrow> ?r")
  proof
    assume ?l
    then obtain w v where w: "tx = w @ v" "list_all (fits c) w" "v \<in> prefixed re1" by blast
    then show ?r by (cases w) auto
  next
    assume ?r
    then show ?l
    proof
      assume "tx \<in> prefixed re1"
      then show ?l by (intro exI [of _ "[]"] exI [of _ tx]) auto
    next
      assume "tx \<noteq> [] \<and> fits c (hd tx) \<and> (\<exists>w v. tl tx = w @ v \<and> list_all (fits c) w \<and> v \<in> prefixed re1)"
      then obtain w v where "tx = (hd tx # w) @ v" "list_all (fits c) (hd tx # w)" "v \<in> prefixed re1"
        by (auto simp: neq_Nil_conv)
      then show ?l by blast
    qed
  qed
  then show ?thesis by (simp only: s)
qed

lemma matchhere_one:
  assumes "re = [] \<or> hd re \<noteq> CHR ''*''" "re = [] \<longrightarrow> c \<noteq> CHR ''$''"
  shows "matchhere (c # re) tx \<longleftrightarrow> tx \<noteq> [] \<and> fits c (hd tx) \<and> matchhere re (tl tx)"
  using assms by (auto simp: matchhere.simps [of "c # re"] fits_def)

lemma matchhere_correct:
  "matchhere re tx \<longleftrightarrow> tx \<in> prefixed re"
  "matchstar c re tx \<longleftrightarrow> tx \<in> prefixed (c # CHR ''*'' # re)"
proof (induction re tx and c re tx rule: matchhere_matchstar.induct)
  case (1 re tx)
  show ?case
  proof (cases re rule: atoms.cases)
    case 1
    then show ?thesis by (simp add: matchhere.simps prefixed_def)
  next
    case (2 c)
    show ?thesis
    proof (cases "c = CHR ''$''")
      case True
      then show ?thesis using 2 by (simp add: matchhere.simps prefixed_def)
    next
      case False
      have "atoms [c] = One c # atoms []" "ends_at [c] = ends_at []" using False by simp_all
      note p = prefixed_One [OF this, of tx]
      show ?thesis using 2 False p "1.IH"(2) [of c "[]"] by (auto simp: matchhere_one fits_def)
    qed
  next
    case (3 c d re')
    show ?thesis
    proof (cases "d = CHR ''*''")
      case True
      then show ?thesis using 3 "1.IH"(1) [of c "d # re'"] by (simp add: matchhere.simps)
    next
      case False
      have "atoms (c # d # re') = One c # atoms (d # re')" "ends_at (c # d # re') = ends_at (d # re')" using False by simp_all
      note p = prefixed_One [OF this, of tx]
      show ?thesis using 3 False p "1.IH"(2) [of c "d # re'"] by (auto simp: matchhere_one fits_def)
    qed
  qed
next
  case (2 c re tx)
  have "atoms (c # CHR ''*'' # re) = Many c # atoms re" "ends_at (c # CHR ''*'' # re) = ends_at re" by simp_all
  from prefixed_Many [OF this, of tx] show ?case using "2.IH" by (auto simp: matchstar.simps fits_def)
qed

lemma match_anywhere_correct: "match_anywhere re tx \<longleftrightarrow> (\<exists>pre post. tx = pre @ post \<and> post \<in> prefixed re)"
proof (induction tx)
  case Nil
  show ?case by (simp add: matchhere_correct)
next
  case (Cons c tx)
  then show ?case by (auto simp: matchhere_correct Cons_eq_append_conv)
qed

text \<open>
  C37. \<^verbatim>\<open>match\<close> decides the declarative meaning of its pattern: it returns 1 exactly
  when the text is \<open>pre @ mid @ post\<close> with \<open>mid\<close> a word of the pattern (each character
  for itself, a dot for any character, a starred character for any number of them), nothing
  before it if the pattern begins with a caret and nothing after it if it ends in a dollar.
\<close>

theorem match_decides_pattern:
  "match re tx \<longleftrightarrow>
     (let (start, body) = (if re \<noteq> [] \<and> hd re = CHR ''^'' then ({[]}, tl re) else (UNIV, re))
      in \<exists>pre mid post. tx = pre @ mid @ post \<and> pre \<in> start \<and> mid \<in> lang (atoms body) \<and> post \<in> ends_at body)"
  by (auto simp: match_def matchhere_correct match_anywhere_correct prefixed_def)

section \<open>The loop over a file\<close>

text \<open>
  The first line of a buffer: \<^verbatim>\<open>strchr\<close> looks for the newline but stops at a NUL.
  \<open>None\<close> is its null result.
\<close>

definition NL :: char where "NL = CHR 0x0A"
definition NUL :: char where "NUL = CHR 0x00"

primrec strchr_split :: "char \<Rightarrow> string \<Rightarrow> (string \<times> string) option" where
  "strchr_split c [] = None"
| "strchr_split c (x # xs) =
     (if x = NUL then None
      else if x = c then Some ([], xs)
      else case strchr_split c xs of None \<Rightarrow> None | Some (u, v) \<Rightarrow> Some (x # u, v))"

lemma strchr_split_length: "strchr_split c xs = Some (u, v) \<Longrightarrow> length v < length xs"
  by (induction xs arbitrary: u) (auto split: if_splits option.splits)

text \<open>The inner loop: the lines written to the output, and what is left from \<^verbatim>\<open>p\<close> on.\<close>

function grep_lines :: "string \<Rightarrow> string \<Rightarrow> string list \<times> string" where
  "grep_lines pattern p =
     (case strchr_split NL p of
        None \<Rightarrow> ([], p)
      | Some (l, q) \<Rightarrow>
          (case grep_lines pattern q of
             (out, rest) \<Rightarrow> (if match pattern l then (l @ [NL]) # out else out, rest)))"
  by pat_completeness auto
termination
  by (relation "measure (\<lambda>(pattern, p). length p)") (auto simp: strchr_split_length)

declare grep_lines.simps [simp del]

text \<open>
  The outer loop.  \<^verbatim>\<open>read\<close> returns as many bytes as it likes up to the number asked
  for, none at the end of the file; \<open>ks\<close> gives the number it would return each time,
  zero standing for an error.  At most \<open>sizeof(buf) - m - 1\<close> bytes are asked for.
\<close>

definition bufsize :: nat where "bufsize = 1024"

function grep :: "string \<Rightarrow> (nat \<Rightarrow> nat) \<Rightarrow> nat \<Rightarrow> string \<Rightarrow> string \<Rightarrow> string list" where
  "grep pattern ks i input buf =
     (let n = min (ks i) (min (bufsize - length buf - 1) (length input)) in
      if n = 0 then []
      else case grep_lines pattern (buf @ take n input) of
        (out, rest) \<Rightarrow> out @ grep pattern ks (Suc i) (drop n input) rest)"
  by pat_completeness auto
termination
  by (relation "measure (\<lambda>(pattern, ks, i, input, buf). length input)") (auto simp: Let_def)

declare grep.simps [simp del]

lemma strchr_split_line: "NUL \<notin> set l \<Longrightarrow> NL \<notin> set l \<Longrightarrow> strchr_split NL (l @ NL # p) = Some (l, p)"
  by (induction l) (auto simp: NL_def NUL_def)

lemma strchr_split_none: "NL \<notin> set p \<Longrightarrow> strchr_split NL p = None"
  by (induction p) (auto split: option.splits)

definition lines :: "string list \<Rightarrow> string" where
  "lines ls = concat (map (\<lambda>l. l @ [NL]) ls)"

definition plain_line :: "string \<Rightarrow> bool" where
  "plain_line l \<longleftrightarrow> NL \<notin> set l \<and> NUL \<notin> set l \<and> length l + 1 < bufsize"

lemma grep_lines_split:
  assumes "list_all plain_line ls" "NL \<notin> set rest"
  shows "grep_lines pattern (lines ls @ rest) = (map (\<lambda>l. l @ [NL]) (filter (match pattern) ls), rest)"
  using assms(1)
proof (induction ls)
  case Nil
  show ?case using strchr_split_none [OF assms(2)] by (simp add: lines_def grep_lines.simps)
next
  case (Cons l ls)
  have "strchr_split NL (lines (l # ls) @ rest) = Some (l, lines ls @ rest)"
    using Cons.prems strchr_split_line [of l] by (simp add: lines_def plain_line_def)
  then show ?case using Cons by (simp add: grep_lines.simps [of _ "lines (l # ls) @ rest"])
qed

text \<open>A prefix of a text of lines is some of its lines and the beginning of the next one.\<close>

lemma lines_prefix:
  assumes "xs @ ys = lines ls @ t" "NL \<notin> set t" "list_all plain_line ls"
  shows "\<exists>us vs u. ls = us @ vs \<and> xs = lines us @ u \<and> NL \<notin> set u \<and> u @ ys = lines vs @ t"
  using assms
proof (induction ls arbitrary: xs)
  case Nil
  then show ?case by (intro exI [of _ "[]"] exI [of _ xs]) (auto simp: lines_def)
next
  case (Cons l ls)
  show ?case
  proof (cases "length xs \<le> length l")
    case True
    have "xs @ ys = l @ NL # lines ls @ t" using Cons.prems(1) by (simp add: lines_def)
    then have "xs = take (length xs) l" using True by (metis append_eq_append_conv_if take_all_iff nle_le)
    then have "NL \<notin> set xs" using Cons.prems(3) in_set_takeD [of NL "length xs" l] by (auto simp: plain_line_def)
    then show ?thesis using Cons.prems(1) by (intro exI [of _ "[]"] exI [of _ "l # ls"] exI [of _ xs]) (simp add: lines_def)
  next
    case False
    have e: "xs @ ys = (l @ [NL]) @ lines ls @ t" using Cons.prems(1) by (simp add: lines_def)
    then obtain xs' where x: "xs = (l @ [NL]) @ xs'" using False by (auto simp: append_eq_append_conv2 append_eq_Cons_conv)
    then have "xs' @ ys = lines ls @ t" using e by simp
    from Cons.IH [OF this Cons.prems(2)] Cons.prems(3) obtain us vs u
      where "ls = us @ vs" "xs' = lines us @ u" "NL \<notin> set u" "u @ ys = lines vs @ t" by auto
    then show ?thesis using x by (intro exI [of _ "l # us"] exI [of _ vs] exI [of _ u]) (simp add: lines_def)
  qed
qed

lemma partial_line:
  assumes "buf @ input = lines ls @ t" "NL \<notin> set buf" "list_all plain_line ls" "length t + 1 < bufsize"
  shows "length buf + 1 < bufsize"
proof (cases ls)
  case Nil
  then have "length buf \<le> length t" using assms(1) by (metis append_Nil concat.simps(1) length_append le_add1 lines_def list.simps(8))
  then show ?thesis using assms(4) by simp
next
  case (Cons l ls')
  have "length buf \<le> length l"
  proof (rule ccontr)
    assume "\<not> length buf \<le> length l"
    then have "buf ! length l = (buf @ input) ! length l" "length l < length buf" by (simp_all add: nth_append)
    moreover have "(buf @ input) ! length l = NL" unfolding assms(1) Cons by (simp add: lines_def nth_append)
    ultimately show False using assms(2) nth_mem by metis
  qed
  then show ?thesis using assms(3) Cons by (simp add: plain_line_def)
qed

lemma grep_correct:
  assumes "\<And>i. 0 < ks i" "buf @ input = lines ls @ t" "NL \<notin> set buf" "list_all plain_line ls" "NL \<notin> set t" "length t + 1 < bufsize"
  shows "grep pattern ks i input buf = map (\<lambda>l. l @ [NL]) (filter (match pattern) ls)"
  using assms(2-4)
proof (induction "length input" arbitrary: input buf ls i rule: less_induct)
  case less
  define n where "n = min (ks i) (min (bufsize - length buf - 1) (length input))"
  have g: "grep pattern ks i input buf = (if n = 0 then [] else case grep_lines pattern (buf @ take n input) of
      (out, rest) \<Rightarrow> out @ grep pattern ks (Suc i) (drop n input) rest)"
    unfolding grep.simps [of pattern ks i input buf] Let_def n_def ..
  show ?case
  proof (cases "input = []")
    case True
    then have "ls = []" using less.prems(1,2) by (cases ls) (auto simp: lines_def)
    then show ?thesis using True by (simp add: grep.simps)
  next
    case False
    have "length buf + 1 < bufsize" by (rule partial_line [OF less.prems assms(6)])
    then have n: "0 < n" "n \<le> length input" using assms(1) [of i] False by (simp_all add: n_def)
    have "(buf @ take n input) @ drop n input = lines ls @ t" using less.prems(1) by simp
    from lines_prefix [OF this assms(5) less.prems(3)] obtain us vs u
      where u: "ls = us @ vs" "buf @ take n input = lines us @ u" "NL \<notin> set u" "u @ drop n input = lines vs @ t" by blast
    have p: "list_all plain_line us" "list_all plain_line vs" using less.prems(3) u(1) by simp_all
    have "grep pattern ks (Suc i) (drop n input) u = map (\<lambda>l. l @ [NL]) (filter (match pattern) vs)"
      by (rule less.hyps) (use n u(3,4) p in simp_all)
    then show ?thesis using n grep_lines_split [OF p(1) u(3), of pattern] u(1) by (simp add: g u(2))
  qed
qed

text \<open>
  C38. \<^verbatim>\<open>grep\<close> prints exactly the matching lines of a file, in order and each with its
  newline, however \<^verbatim>\<open>read\<close> cuts the file into pieces, if no line has a NUL or more
  than 1022 characters.  What follows the last newline is not looked at.
\<close>

theorem grep_prints_matching_lines:
  assumes "\<forall>i. 0 < ks i" "list_all plain_line ls" "NL \<notin> set t" "length t + 1 < bufsize"
  shows "grep pattern ks 0 (lines ls @ t) [] = map (\<lambda>l. l @ [NL]) (filter (match pattern) ls)"
  by (rule grep_correct [of _ _ _ _ t]) (use assms in simp_all)

theorem grep_prints_matching_lines_witness:
  "grep ''^a*b$'' (\<lambda>_. 3) 0 (''aab'' @ NL # ''abc'' @ NL # ''b'' @ NL # ''ab'') [] = [''aab'' @ [NL], ''b'' @ [NL]]"
proof -
  have "grep ''^a*b$'' (\<lambda>_. 3) 0 (lines [''aab'', ''abc'', ''b''] @ ''ab'') []
      = map (\<lambda>l. l @ [NL]) (filter (match ''^a*b$'') [''aab'', ''abc'', ''b''])"
    by (rule grep_prints_matching_lines) (simp_all add: plain_line_def NL_def NUL_def bufsize_def)
  moreover have "match ''^a*b$'' ''aab''" "\<not> match ''^a*b$'' ''abc''" "match ''^a*b$'' ''b''"
    by (simp_all add: match_def matchhere.simps matchstar.simps)
  ultimately show ?thesis by (simp add: lines_def)
qed

text \<open>A line that fills the buffer ends the loop: the rest of the file is never read.\<close>

lemma grep_stops_at_long_line:
  assumes "\<And>i. bufsize \<le> ks i" "NL \<notin> set l" "length l + 1 = bufsize"
  shows "grep pattern ks i (l @ rest) [] = []"
proof -
  have "grep_lines pattern l = ([], l)" using strchr_split_none [OF assms(2)] by (simp add: grep_lines.simps)
  moreover have "grep pattern ks (Suc i) rest l = []" using assms(3) by (simp add: grep.simps)
  ultimately show ?thesis using assms(1) [of i] assms(3) by (simp add: grep.simps [of _ _ _ "l @ rest"] Let_def)
qed

end
