(* ===== verification/Usr_Malloc.thy ===== *)
theory Usr_Malloc
  imports Xv6_Prelude
begin

text \<open>
  \<^verbatim>\<open>user/umalloc.c\<close>: the heap of user programs.  A \<^verbatim>\<open>Header *\<close> is the byte
  address of the header, and the two fields of a header are maps from that address; a header has
  16 bytes, so \<^verbatim>\<open>p + n\<close> is \<open>p + 16 * n\<close>.  The free blocks form a ring in the order of
  their addresses, through the static header \<^verbatim>\<open>base\<close>, which is below the heap.  The system
  call \<^verbatim>\<open>sbrk\<close> is the parameter \<open>sb\<close>: from the old break and the argument it gives the
  new break, or \<open>None\<close> when it fails; its value is the old break.  A loop that does not end is
  the value \<open>None\<close> of the result.
\<close>

section \<open>Definitions\<close>

record heap =
  hptr :: "nat \<Rightarrow> nat"
  hsize :: "nat \<Rightarrow> nat"
  base :: nat
  freep :: nat
  brk :: nat

type_synonym sbrk = "nat \<Rightarrow> int \<Rightarrow> nat option"

text \<open>The loop that looks for the place of a block in the ring.\<close>

partial_function (option) find_slot :: "heap \<Rightarrow> nat \<Rightarrow> nat \<Rightarrow> nat option" where
  "find_slot s bp p =
     (if p < bp \<and> bp < hptr s p then Some p
      else if hptr s p \<le> p \<and> (p < bp \<or> bp < hptr s p) then Some p
      else find_slot s bp (hptr s p))"

definition join_next :: "nat \<Rightarrow> nat \<Rightarrow> heap \<Rightarrow> heap" where
  "join_next bp p s =
     (let q = hptr s p in
      if bp + 16 * hsize s bp = q
      then s\<lparr>hsize := (hsize s)(bp := hsize s bp + hsize s q), hptr := (hptr s)(bp := hptr s q)\<rparr>
      else s\<lparr>hptr := (hptr s)(bp := q)\<rparr>)"

definition join_prev :: "nat \<Rightarrow> nat \<Rightarrow> heap \<Rightarrow> heap" where
  "join_prev bp p s =
     (if p + 16 * hsize s p = bp
      then s\<lparr>hsize := (hsize s)(p := hsize s p + hsize s bp), hptr := (hptr s)(p := hptr s bp)\<rparr>
      else s\<lparr>hptr := (hptr s)(p := bp)\<rparr>)"

definition ufree :: "nat \<Rightarrow> heap \<Rightarrow> heap option" where
  "ufree ap s =
     (let bp = ap - 16 in
      map_option (\<lambda>p. (join_prev bp p (join_next bp p s))\<lparr>freep := p\<rparr>) (find_slot s bp (freep s)))"

definition morecore :: "sbrk \<Rightarrow> nat \<Rightarrow> heap \<Rightarrow> (nat \<times> heap) option" where
  "morecore sb nu s =
     (let nu = (if nu < 4096 then 4096 else nu) in
      case sb (brk s) (i32 (16 * int nu)) of
        None \<Rightarrow> Some (0, s)
      | Some b \<Rightarrow>
          let hp = brk s in
          map_option (\<lambda>s. (freep s, s)) (ufree (hp + 16) (s\<lparr>brk := b, hsize := (hsize s)(hp := nu)\<rparr>)))"

definition take_block :: "nat \<Rightarrow> nat \<Rightarrow> nat \<Rightarrow> heap \<Rightarrow> nat \<times> heap" where
  "take_block nu prevp p s =
     (if hsize s p = nu then (p + 16, s\<lparr>hptr := (hptr s)(prevp := hptr s p), freep := prevp\<rparr>)
      else
        let sz = hsize s p - nu; q = p + 16 * sz in
        (q + 16, s\<lparr>hsize := (hsize s)(p := sz, q := nu), freep := prevp\<rparr>))"

partial_function (option) malloc_loop :: "sbrk \<Rightarrow> nat \<Rightarrow> heap \<Rightarrow> nat \<Rightarrow> nat \<Rightarrow> (nat \<times> heap) option" where
  "malloc_loop sb nu s prevp p =
     (if nu \<le> hsize s p then Some (take_block nu prevp p s)
      else if p = freep s then
        Option.bind (morecore sb nu s) (\<lambda>(q, t).
          if q = 0 then Some (0, t) else malloc_loop sb nu t q (hptr t q))
      else malloc_loop sb nu s p (hptr s p))"

definition units :: "u32 \<Rightarrow> nat" where
  "units nbytes = (unat nbytes + 16 - 1) div 16 + 1"

definition malloc :: "sbrk \<Rightarrow> u32 \<Rightarrow> heap \<Rightarrow> (nat \<times> heap) option" where
  "malloc sb nbytes s =
     (let s = (if freep s = 0 then s\<lparr>hptr := (hptr s)(base s := base s), freep := base s, hsize := (hsize s)(base s := 0)\<rparr> else s)
      in malloc_loop sb (units nbytes) s (freep s) (hptr s (freep s)))"

section \<open>The ring\<close>

primrec linked :: "(nat \<Rightarrow> nat) \<Rightarrow> nat \<Rightarrow> nat list \<Rightarrow> nat \<Rightarrow> bool" where
  "linked f p [] q \<longleftrightarrow> f p = q"
| "linked f p (x # xs) q \<longleftrightarrow> f p = x \<and> linked f x xs q"

lemma linked_append: "linked f p (xs @ y # ys) q \<longleftrightarrow> linked f p xs y \<and> linked f y ys q"
  by (induction xs arbitrary: p) auto

lemma linked_upd [simp]: "x \<noteq> p \<Longrightarrow> x \<notin> set xs \<Longrightarrow> linked (f(x := v)) p xs q = linked f p xs q"
  by (induction xs arbitrary: p) auto

lemma linked_first: "linked f p xs q \<Longrightarrow> f p = hd (xs @ [q])"
  by (cases xs) auto

lemma linked_cycle:
  assumes "linked f b as b" "p \<in> set (b # as)" "distinct (b # as)"
  obtains xs where "linked f p xs p" "set (p # xs) = set (b # as)" "distinct (p # xs)"
proof (cases "p = b")
  case True
  then show ?thesis using that [of as] assms by simp
next
  case False
  then obtain us vs where "as = us @ p # vs" using assms(2) by (auto dest: split_list)
  then show ?thesis using that [of "vs @ b # us"] assms by (auto simp: linked_append)
qed

section \<open>Blocks\<close>

type_synonym block = "nat \<times> nat"

definition cells :: "block \<Rightarrow> nat set" where
  "cells k = {fst k..<fst k + 16 * snd k}"

text \<open>Free blocks in order, none empty, no two touching: adjacent ones have been joined.\<close>

primrec spaced :: "nat \<Rightarrow> block list \<Rightarrow> bool" where
  "spaced lo [] \<longleftrightarrow> True"
| "spaced lo (k # ks) \<longleftrightarrow> lo < fst k \<and> 0 < snd k \<and> spaced (fst k + 16 * snd k) ks"

definition block_end :: "nat \<Rightarrow> block list \<Rightarrow> nat" where
  "block_end lo ks = (if ks = [] then lo else fst (last ks) + 16 * snd (last ks))"

lemma spaced_append: "spaced lo (xs @ ys) \<longleftrightarrow> spaced lo xs \<and> spaced (block_end lo xs) ys"
  by (induction xs arbitrary: lo) (auto simp: block_end_def)

lemma spaced_above: "spaced lo ks \<Longrightarrow> k \<in> set ks \<Longrightarrow> lo < fst k \<and> 0 < snd k"
  by (induction ks arbitrary: lo) fastforce+

lemma spaced_weaken: "spaced lo ks \<Longrightarrow> lo' \<le> lo \<Longrightarrow> spaced lo' ks"
  by (cases ks) auto

lemma spaced_distinct: "spaced lo ks \<Longrightarrow> distinct (lo # map fst ks)"
proof (induction ks arbitrary: lo)
  case (Cons k ks)
  then have "distinct (map fst ks)" "\<forall>j \<in> set ks. fst k + 16 * snd k < fst j"
    using spaced_above [of "fst k + 16 * snd k" ks] by auto
  then show ?case using Cons.prems by fastforce
qed simp

lemma spaced_ordered: "spaced lo (xs @ ys) \<Longrightarrow> x \<in> set xs \<Longrightarrow> y \<in> set ys \<Longrightarrow> fst x + 16 * snd x < fst y"
proof (induction xs arbitrary: lo)
  case (Cons k xs)
  then show ?case using spaced_above [of "fst k + 16 * snd k" "xs @ ys" y] by auto
qed simp

lemma block_end_above: "spaced lo xs \<Longrightarrow> lo \<le> block_end lo xs"
  using spaced_above [of lo xs "last xs"] by (fastforce simp: block_end_def)

definition free_cells :: "block list \<Rightarrow> nat set" where
  "free_cells ks = (\<Union>k \<in> set ks. cells k)"

lemma free_cells_simps [simp]:
  "free_cells [] = {}" "free_cells (k # ks) = cells k \<union> free_cells ks" "free_cells (xs @ ys) = free_cells xs \<union> free_cells ys"
  by (auto simp: free_cells_def)

lemma spaced_disjoint:
  assumes "spaced lo (xs @ ys)"
  shows "free_cells ys \<inter> free_cells xs = {}"
proof -
  have "cells y \<inter> cells x = {}" if "x \<in> set xs" "y \<in> set ys" for x y
    using spaced_ordered [OF assms that] by (auto simp: cells_def)
  then show ?thesis unfolding free_cells_def by blast
qed

lemma block_not_free:
  assumes "spaced lo ks" "0 < n" "cells (bp, n) \<inter> free_cells ks = {}"
  shows "bp \<notin> fst ` set ks"
proof
  assume "bp \<in> fst ` set ks"
  then obtain k where k: "k \<in> set ks" "bp = fst k" by blast
  then have "0 < snd k" using spaced_above [OF assms(1)] by blast
  then have "bp \<in> cells (bp, n) \<inter> free_cells ks" using k assms(2) by (force simp: cells_def free_cells_def)
  then show False using assms(3) by auto
qed

text \<open>Memory holds the ring of the free blocks \<open>ks\<close>.\<close>

definition ring_ok :: "heap \<Rightarrow> block list \<Rightarrow> bool" where
  "ring_ok s ks \<longleftrightarrow> linked (hptr s) (base s) (map fst ks) (base s) \<and> spaced (base s) ks \<and> 0 < base s \<and> hsize s (base s) = 0
     \<and> (\<forall>k \<in> set ks. hsize s (fst k) = snd k) \<and> freep s \<in> set (base s # map fst ks)"

lemma ring_cycle:
  assumes "ring_ok s ks"
  obtains xs where "linked (hptr s) (freep s) xs (freep s)" "set (freep s # xs) = set (base s # map fst ks)" "distinct (freep s # xs)"
proof -
  have "linked (hptr s) (base s) (map fst ks) (base s)" "freep s \<in> set (base s # map fst ks)" "distinct (base s # map fst ks)"
    using assms spaced_distinct by (simp_all only: ring_ok_def)
  then show ?thesis by (rule linked_cycle) (rule that)
qed

section \<open>free\<close>

definition here :: "heap \<Rightarrow> nat \<Rightarrow> nat \<Rightarrow> bool" where
  "here s bp p \<longleftrightarrow> p < bp \<and> bp < hptr s p \<or> hptr s p \<le> p \<and> (p < bp \<or> bp < hptr s p)"

lemma find_slot_path:
  "linked (hptr s) p xs t \<Longrightarrow> list_all (\<lambda>x. \<not> here s bp x) (p # xs) \<Longrightarrow> here s bp t \<Longrightarrow> find_slot s bp p = Some t"
proof (induction xs arbitrary: p)
  case Nil
  then show ?case by (subst find_slot.simps, subst find_slot.simps) (auto simp: here_def)
next
  case (Cons x xs)
  then have "find_slot s bp x = Some t" by simp
  then show ?case using Cons.prems by (subst find_slot.simps) (auto simp: here_def)
qed

lemma first_on_path:
  assumes "linked f p xs q" "x \<in> set xs" "P x"
  obtains us t where "linked f p us t" "P t" "list_all (\<lambda>x. \<not> P x) us" "t \<in> set xs" "set us \<subseteq> set xs"
proof -
  from split_list_first_prop [of xs P] assms(2,3) obtain us t vs where
    "xs = us @ t # vs" "P t" "\<forall>u \<in> set us. \<not> P u" by blast
  then show ?thesis using that [of us t] assms(1) by (auto simp: linked_append list_all_iff)
qed

lemma node_next:
  assumes "ring_ok s (ls @ rs)"
  shows "hptr s (fst (last ((base s, 0) # ls))) = hd (map fst rs @ [base s])"
proof (cases ls rule: rev_cases)
  case Nil
  then show ?thesis using assms linked_first by (auto simp: ring_ok_def)
next
  case (snoc us u)
  then show ?thesis using assms linked_first by (auto simp: ring_ok_def linked_append)
qed

lemma node_split:
  assumes "x \<in> set (base s # map fst ks)"
  obtains ls rs where "ks = ls @ rs" "x = fst (last ((base s, 0) # ls))"
proof (cases "x = base s")
  case True
  then show ?thesis using that [of "[]" ks] by simp
next
  case False
  then obtain k where "k \<in> set ks" "x = fst k" using assms by auto
  then obtain us vs where "ks = us @ k # vs" "x = fst k" by (auto dest: split_list)
  then show ?thesis using that [of "us @ [k]" vs] by simp
qed

text \<open>The search finds the last node below the block.\<close>

lemma slot_split:
  assumes "ring_ok s ks" "x \<in> set (base s # map fst ks)" "here s bp x" "base s < bp"
  obtains ls rs where "ks = ls @ rs" "x = fst (last ((base s, 0) # ls))" "hptr s x = hd (map fst rs @ [base s])"
    "x < bp" "list_all (\<lambda>k. bp < fst k) rs"
proof -
  obtain ls rs where k: "ks = ls @ rs" "x = fst (last ((base s, 0) # ls))" by (rule node_split [OF assms(2)])
  have r: "linked (hptr s) (base s) (map fst ks) (base s)" "spaced (base s) ks" using assms(1) by (auto simp: ring_ok_def)
  have n: "hptr s x = hd (map fst rs @ [base s])" using node_next assms(1) k by simp
  have below: "base s \<le> x" using k r(2) spaced_above [of "base s" ls "last ls"] by (auto simp: spaced_append)
  have sep: "x < fst y" if "y \<in> set rs" for y
    using k r(2) that spaced_ordered [of "base s" ls rs "last ls" y] spaced_above [of "base s" rs y]
    by (cases "ls = []") auto
  have "x < bp \<and> list_all (\<lambda>k. bp < fst k) rs"
  proof (cases rs)
    case Nil
    then show ?thesis using assms(3,4) n below by (auto simp: here_def)
  next
    case (Cons y ys)
    then have xb: "x < bp" "bp < fst y" using assms(3) n sep [of y] by (auto simp: here_def)
    have "spaced (block_end (base s) ls) (y # ys)" using r(2) k Cons by (simp add: spaced_append)
    then have "fst y < fst z" if "z \<in> set ys" for z using spaced_above [of "fst y + 16 * snd y" ys z] that by auto
    then show ?thesis using xb Cons by (fastforce simp: list_all_iff)
  qed
  then show ?thesis using that [OF k n] by simp
qed

lemma find_slot_ok:
  assumes "ring_ok s ks" "base s < bp" "bp \<notin> fst ` set ks"
  obtains x where "find_slot s bp (freep s) = Some x" "x \<in> set (base s # map fst ks)" "here s bp x"
proof -
  let ?ls = "takeWhile (\<lambda>k. fst k < bp) ks" and ?rs = "dropWhile (\<lambda>k. fst k < bp) ks"
  let ?y = "fst (last ((base s, 0) # ?ls))"
  have ks: "ks = ?ls @ ?rs" by simp
  have last: "last ?ls \<in> set ks \<and> fst (last ?ls) < bp" if "?ls \<noteq> []"
    using last_in_set [OF that] by (blast dest: set_takeWhileD)
  have y: "?y \<in> set (base s # map fst ks)" and lt: "?y < bp" using last assms(2) by (cases "?ls = []"; simp)+
  have "hptr s ?y = hd (map fst ?rs @ [base s])" using node_next [of s ?ls ?rs] assms(1) by simp
  moreover have "bp < fst (hd ?rs)" if "?rs \<noteq> []"
  proof -
    have "\<not> fst (hd ?rs) < bp" using hd_dropWhile [OF that] .
    moreover have "hd ?rs \<in> set ks" using that by (metis hd_in_set set_dropWhileD)
    ultimately show ?thesis using assms(3) by (metis imageI linorder_neqE_nat)
  qed
  moreover have "base s \<le> ?y"
    using assms(1) spaced_above [of "base s" ks "last ?ls"] last by (cases "?ls = []") (auto simp: ring_ok_def)
  ultimately have hy: "here s bp ?y" using lt by (cases "?rs = []") (auto simp: here_def hd_append hd_map)
  obtain xs where c: "linked (hptr s) (freep s) xs (freep s)" "set (freep s # xs) = set (base s # map fst ks)"
    using ring_cycle [OF assms(1)] by metis
  show ?thesis
  proof (cases "here s bp (freep s)")
    case True
    then have "find_slot s bp (freep s) = Some (freep s)" by (subst find_slot.simps) (auto simp: here_def)
    then show ?thesis using that True c(2) by fastforce
  next
    case False
    then have "?y \<noteq> freep s" using hy by metis
    then have "?y \<in> set xs" using y c(2) by (metis set_ConsD)
    from first_on_path [where P = "here s bp", OF c(1) this hy] obtain us t where
      "linked (hptr s) (freep s) us t" "here s bp t" "list_all (\<lambda>x. \<not> here s bp x) us" "t \<in> set xs" by metis
    then show ?thesis using that [of t] find_slot_path [of s "freep s" us t bp] False c(2) by auto
  qed
qed

lemma join_next_ok:
  assumes "linked (hptr s) x (map fst rs) (base s)" "spaced lo rs" "list_all (\<lambda>k. bp < fst k) rs" "\<forall>k \<in> set rs. hsize s (fst k) = snd k"
    "cells (bp, hsize s bp) \<inter> free_cells rs = {}" "0 < hsize s bp" "base s < bp" "bp \<noteq> x"
  obtains n ks where "join_next bp x s = s\<lparr>hsize := (hsize s)(bp := n), hptr := (hptr s)(bp := hd (map fst ks @ [base s]))\<rparr>"
    "spaced (bp + 16 * n) ks" "cells (bp, n) \<union> free_cells ks = cells (bp, hsize s bp) \<union> free_cells rs"
    "hsize s bp \<le> n" "linked ((hptr s)(bp := hd (map fst ks @ [base s]))) bp (map fst ks) (base s)" "set ks \<subseteq> set rs"
proof (cases rs)
  case Nil
  then show ?thesis using that [of "[]" "hsize s bp"] assms by (auto simp: join_next_def Let_def)
next
  case (Cons c cs)
  have nx: "hptr s x = fst c" "hsize s (fst c) = snd c" "bp < fst c" "0 < snd c" using assms Cons by auto
  have tail: "linked (hptr s) (fst c) (map fst cs) (base s)" "spaced (fst c + 16 * snd c) cs" using assms(1,2) Cons by auto
  then have hc: "hptr s (fst c) = hd (map fst cs @ [base s])" by (simp add: linked_first)
  have bp: "bp \<notin> set (map fst cs)" "bp \<noteq> fst c" using assms(3) Cons by (auto simp: list_all_iff)
  have gap: "bp + 16 * hsize s bp \<le> fst c"
  proof (rule ccontr)
    assume "\<not> ?thesis"
    then have "fst c \<in> cells (bp, hsize s bp) \<inter> free_cells rs" using nx Cons by (auto simp: cells_def)
    then show False using assms(5) by auto
  qed
  show ?thesis
  proof (cases "bp + 16 * hsize s bp = fst c")
    case True
    have "cells (bp, hsize s bp + snd c) = cells (bp, hsize s bp) \<union> cells c" using True nx by (auto simp: cells_def)
    moreover have "bp + 16 * (hsize s bp + snd c) = fst c + 16 * snd c" using True by simp
    then have sp: "spaced (bp + 16 * (hsize s bp + snd c)) cs" using tail(2) by (simp only:)
    moreover have "linked ((hptr s)(bp := hptr s (fst c))) bp (map fst cs) (base s)"
      using tail(1) bp by (cases cs) auto
    ultimately show ?thesis
      using that [of cs "hsize s bp + snd c"] True nx sp Cons hc by (auto simp: join_next_def Let_def simp del: add_mult_distrib2)
  next
    case False
    then show ?thesis
      using that [of rs "hsize s bp"] nx gap tail Cons bp by (auto simp: join_next_def Let_def)
  qed
qed

lemma node_linked:
  assumes "ring_ok s (ls @ rs)"
  shows "linked (hptr s) (fst (last ((base s, 0) # ls))) (map fst rs) (base s)"
proof (cases ls rule: rev_cases)
  case Nil
  then show ?thesis using assms by (auto simp: ring_ok_def)
next
  case (snoc us u)
  then show ?thesis using assms by (auto simp: ring_ok_def linked_append)
qed

text \<open>The block \<open>(bp, n)\<close>, already joined with what follows it, is put behind \<open>ls\<close>.\<close>

lemma join_prev_last:
  assumes "ring_ok s (ls @ rs)" "x = fst (last ((base s, 0) # ls))" "ls = us @ [u]" "x < bp" "set ks \<subseteq> set rs" "0 < n"
    and "spaced (bp + 16 * n) ks" "linked ((hptr s)(bp := v)) bp (map fst ks) (base s)" "cells (bp, n) \<inter> free_cells ls = {}"
    and t: "t = (join_prev bp x (s\<lparr>hsize := (hsize s)(bp := n), hptr := (hptr s)(bp := v)\<rparr>))\<lparr>freep := x\<rparr>"
    and v: "v = hd (map fst ks @ [base s])" and bp: "list_all (\<lambda>k. bp < fst k) rs"
  obtains js where "ring_ok t js" "free_cells js = free_cells ls \<union> cells (bp, n) \<union> free_cells ks" "base t = base s" "brk t = brk s"
    "\<forall>a. a \<notin> free_cells js \<longrightarrow> hsize t a = hsize s a" "\<exists>k \<in> set js. n \<le> snd k"
proof -
  note snoc = assms(3)
  have r: "linked (hptr s) (base s) (map fst us) x" "spaced (base s) (us @ u # rs)" "x = fst u" "hsize s x = snd u" "0 < base s"
    "hsize s (base s) = 0" "\<forall>k \<in> set us \<union> set rs. hsize s (fst k) = snd k"
    using assms(1,2) snoc by (auto simp: ring_ok_def linked_append)
  have sp: "spaced (base s) us" "block_end (base s) us < x" "0 < snd u" using r(2,3) by (auto simp: spaced_append)
  have low: "fst k < x" if "k \<in> set us" for k
    using spaced_ordered [OF r(2) that, of u] r(3) by auto
  have high: "bp < fst k" if "k \<in> set ks" for k using that assms(5) bp by (auto simp: list_all_iff)
  have base: "base s < x" using sp block_end_above by fastforce
  have gap: "x + 16 * snd u \<le> bp"
  proof (rule ccontr)
    assume "\<not> ?thesis"
    then have "bp \<in> cells (bp, n) \<inter> free_cells ls" using assms(4,6) snoc r(3) by (auto simp: cells_def)
    then show False using assms(9) by auto
  qed
  have away: "x \<notin> fst ` set us" "bp \<notin> fst ` set us" "x \<notin> fst ` set ks" "bp \<notin> fst ` set ks"
    using low high assms(4) by fastforce+
  have same: "fst k \<noteq> x \<and> fst k \<noteq> bp \<and> hsize s (fst k) = snd k" if "k \<in> set us \<union> set ks" for k
    using that away r(7) assms(5) by blast
  show ?thesis
  proof (cases "x + 16 * snd u = bp")
    case True
    let ?js = "us @ (x, snd u + n) # ks"
    have tt: "t = s\<lparr>hsize := (hsize s)(bp := n, x := snd u + n), hptr := (hptr s)(bp := v, x := v), freep := x\<rparr>"
      using True assms(4) r(4) by (simp add: t join_prev_def)
    have "linked (hptr t) x (map fst ks) (base s)" using assms(8) v away assms(4) by (cases ks) (auto simp: tt)
    moreover have "linked (hptr t) (base s) (map fst us) x" using r(1) away base assms(4) by (auto simp: tt)
    moreover have e: "x + 16 * (snd u + n) = bp + 16 * n" using True by simp
    have "spaced (x + 16 * (snd u + n)) ks" unfolding e by (rule assms(7))
    then have "spaced (base s) ?js" using sp by (simp add: spaced_append)
    moreover have "hsize t x = snd u + n" "hsize t (base s) = 0" "base t = base s" "freep t = x"
      using r(6) base assms(4) by (simp_all add: tt)
    moreover have "\<forall>k \<in> set us \<union> set ks. hsize t (fst k) = snd k" using same by (simp add: tt)
    ultimately have "ring_ok t ?js" using r(5) by (auto simp: ring_ok_def linked_append)
    moreover have "cells (x, snd u + n) = cells u \<union> cells (bp, n)" using True r(3) by (auto simp: cells_def)
    moreover have "bp \<in> cells (x, snd u + n)" "x \<in> cells (x, snd u + n)" using True assms(6) by (auto simp: cells_def)
    ultimately show ?thesis by (intro that [of ?js]) (use snoc in \<open>auto simp: tt\<close>)
  next
    case False
    let ?js = "ls @ (bp, n) # ks"
    have tt: "t = s\<lparr>hsize := (hsize s)(bp := n), hptr := (hptr s)(bp := v, x := bp), freep := x\<rparr>"
      using False assms(4) r(4) by (simp add: t join_prev_def)
    have "linked (hptr t) bp (map fst ks) (base s)" using assms(8) v away assms(4) by (cases ks) (auto simp: tt)
    moreover have "linked (hptr t) (base s) (map fst us) x" "hptr t x = bp" using r(1) away base assms(4) by (auto simp: tt)
    moreover have "spaced (base s) ?js" using sp assms(6,7) snoc gap False r(3) by (auto simp: spaced_append block_end_def)
    moreover have "hsize t x = snd u" "hsize t bp = n" "hsize t (base s) = 0" "base t = base s" "freep t = x"
      using r(4,6) base assms(4) by (simp_all add: tt)
    moreover have "\<forall>k \<in> set us \<union> set ks. hsize t (fst k) = snd k" using same by (simp add: tt)
    ultimately have "ring_ok t ?js" using r(3,5) snoc by (auto simp: ring_ok_def linked_append)
    moreover have "bp \<in> cells (bp, n)" using assms(6) by (auto simp: cells_def)
    ultimately show ?thesis by (intro that [of ?js]) (auto simp: tt)
  qed
qed

lemma join_prev_ok:
  assumes "ring_ok s (ls @ rs)" "x = fst (last ((base s, 0) # ls))" "x < bp" "set ks \<subseteq> set rs" "0 < n"
    and "spaced (bp + 16 * n) ks" "linked ((hptr s)(bp := v)) bp (map fst ks) (base s)" "cells (bp, n) \<inter> free_cells ls = {}"
    and t: "t = (join_prev bp x (s\<lparr>hsize := (hsize s)(bp := n), hptr := (hptr s)(bp := v)\<rparr>))\<lparr>freep := x\<rparr>"
    and v: "v = hd (map fst ks @ [base s])" and bp: "list_all (\<lambda>k. bp < fst k) rs"
  obtains js where "ring_ok t js" "free_cells js = free_cells ls \<union> cells (bp, n) \<union> free_cells ks" "base t = base s" "brk t = brk s"
    "\<forall>a. a \<notin> free_cells js \<longrightarrow> hsize t a = hsize s a" "\<exists>k \<in> set js. n \<le> snd k"
proof (cases ls rule: rev_cases)
  case Nil
  have x: "x = base s" "base s < bp" "hsize s (base s) = 0" using Nil assms(1-3) by (auto simp: ring_ok_def)
  have tt: "t = s\<lparr>hsize := (hsize s)(bp := n), hptr := (hptr s)(bp := v, x := bp), freep := x\<rparr>"
    using x by (simp add: t join_prev_def)
  have b: "base s \<notin> fst ` set ks" "bp \<notin> fst ` set ks"
    using assms(6) spaced_above [of "bp + 16 * n" ks] x(2) by fastforce+
  have "ring_ok t ((bp, n) # ks)"
    using assms(1,4-7) x b by (auto simp: ring_ok_def tt Nil fun_upd_twist)
  then show ?thesis by (rule that) (use Nil x assms(5) in \<open>auto simp: tt cells_def\<close>)
next
  case (snoc us u)
  show ?thesis by (rule join_prev_last [OF assms(1,2) snoc assms(3-)]) (rule that)
qed

lemma ufree_ok:
  assumes "ring_ok s ks" "base s < bp" "0 < hsize s bp" "cells (bp, hsize s bp) \<inter> free_cells ks = {}"
  obtains t js where "ufree (bp + 16) s = Some t" "ring_ok t js" "free_cells js = cells (bp, hsize s bp) \<union> free_cells ks"
    "base t = base s" "brk t = brk s" "\<forall>a. a \<notin> free_cells js \<longrightarrow> hsize t a = hsize s a" "\<exists>k \<in> set js. hsize s bp \<le> snd k"
proof -
  have S: "spaced (base s) ks" using assms(1) by (simp add: ring_ok_def)
  note new = block_not_free [OF S assms(3,4)]
  obtain x where x: "find_slot s bp (freep s) = Some x" "x \<in> set (base s # map fst ks)" "here s bp x"
    by (rule find_slot_ok [OF assms(1,2) new])
  obtain ls rs where k: "ks = ls @ rs" "x = fst (last ((base s, 0) # ls))" "x < bp" "list_all (\<lambda>k. bp < fst k) rs"
    by (rule slot_split [OF assms(1) x(2,3) assms(2)])
  have r: "linked (hptr s) x (map fst rs) (base s)" using node_linked assms(1) k by simp
  have sp: "spaced (block_end (base s) ls) rs" "\<forall>k \<in> set rs. hsize s (fst k) = snd k"
    using assms(1) k by (auto simp: ring_ok_def spaced_append)
  have d: "cells (bp, hsize s bp) \<inter> free_cells rs = {}" "cells (bp, hsize s bp) \<inter> free_cells ls = {}" "free_cells rs \<inter> free_cells ls = {}"
    using S assms(4) k(1) spaced_disjoint by auto
  have bx: "bp \<noteq> x" using k(3) by simp
  obtain n js where j: "join_next bp x s = s\<lparr>hsize := (hsize s)(bp := n), hptr := (hptr s)(bp := hd (map fst js @ [base s]))\<rparr>"
    "spaced (bp + 16 * n) js" "cells (bp, n) \<union> free_cells js = cells (bp, hsize s bp) \<union> free_cells rs" "hsize s bp \<le> n"
    "linked ((hptr s)(bp := hd (map fst js @ [base s]))) bp (map fst js) (base s)" "set js \<subseteq> set rs"
    by (rule join_next_ok [OF r sp(1) k(4) sp(2) d(1) assms(3,2) bx])
  let ?t = "(join_prev bp x (join_next bp x s))\<lparr>freep := x\<rparr>"
  have n: "0 < n" "cells (bp, n) \<inter> free_cells ls = {}" using j(3,4) assms(3) d by auto
  have R: "ring_ok s (ls @ rs)" using assms(1) k(1) by simp
  have t: "?t = (join_prev bp x (s\<lparr>hsize := (hsize s)(bp := n), hptr := (hptr s)(bp := hd (map fst js @ [base s]))\<rparr>))\<lparr>freep := x\<rparr>"
    by (simp only: j(1))
  have u: "ufree (bp + 16) s = Some ?t" using x(1) by (simp add: ufree_def)
  obtain zs where "ring_ok ?t zs" "free_cells zs = free_cells ls \<union> cells (bp, n) \<union> free_cells js" "base ?t = base s" "brk ?t = brk s"
    "\<forall>a. a \<notin> free_cells zs \<longrightarrow> hsize ?t a = hsize s a" "\<exists>k \<in> set zs. n \<le> snd k"
    by (rule join_prev_ok [OF R k(2,3) j(6) n(1) j(2,5) n(2) t refl k(4)])
  then show ?thesis using j(3,4) k(1) by (intro that [OF u, of zs]) (auto intro: order_trans)
qed

section \<open>The heap\<close>

text \<open>
  \<open>A\<close> are the headers of the blocks that are handed out; they and the free blocks are
  disjoint and together make up \<open>U\<close>.
\<close>

definition used :: "heap \<Rightarrow> nat set \<Rightarrow> nat set" where
  "used s A = (\<Union>a \<in> A. cells (a, hsize s a))"

definition heap_inv :: "heap \<Rightarrow> block list \<Rightarrow> nat set \<Rightarrow> nat set \<Rightarrow> bool" where
  "heap_inv s ks A U \<longleftrightarrow> ring_ok s ks \<and> (\<forall>a \<in> A. 0 < hsize s a)
     \<and> (\<forall>a \<in> A. \<forall>b \<in> A. a \<noteq> b \<longrightarrow> cells (a, hsize s a) \<inter> cells (b, hsize s b) = {})
     \<and> used s A \<inter> free_cells ks = {} \<and> used s A \<union> free_cells ks = U \<and> U \<subseteq> {base s<..<brk s} \<and> base s < brk s"

lemma used_cong: "(\<And>a. a \<in> A \<Longrightarrow> hsize t a = hsize s a) \<Longrightarrow> used t A = used s A"
  by (simp add: used_def)

lemma used_insert [simp]: "used s (insert a A) = cells (a, hsize s a) \<union> used s A"
  by (simp add: used_def)

lemma header_used: "0 < hsize s a \<Longrightarrow> a \<in> A \<Longrightarrow> a \<in> used s A"
  by (force simp: used_def cells_def)

lemma heap_inv_insert:
  assumes "heap_inv s ks A V" "\<And>a. a \<in> A \<Longrightarrow> hsize t a = hsize s a" "ring_ok t js" "0 < hsize t q" "base t < brk t"
    and "cells (q, hsize t q) \<inter> used s A = {}" "(cells (q, hsize t q) \<union> used s A) \<inter> free_cells js = {}"
    and "cells (q, hsize t q) \<union> used s A \<union> free_cells js = U" "U \<subseteq> {base t<..<brk t}"
  shows "heap_inv t js (insert q A) U"
proof -
  have "used t A = used s A" using assms(2) by (rule used_cong)
  moreover have "cells (q, hsize t q) \<inter> cells (a, hsize t a) = {}" if "a \<in> A" for a
    using assms(2,6) that by (auto simp: used_def)
  ultimately show ?thesis using assms by (auto simp: heap_inv_def)
qed

text \<open>Headers outside the free blocks keep their sizes when a used block is freed.\<close>

lemma ufree_inv:
  assumes "heap_inv s ks (insert bp A) U" "bp \<notin> A"
  obtains t js where "ufree (bp + 16) s = Some t" "heap_inv t js A U" "base t = base s" "brk t = brk s"
    "\<forall>a \<in> A. hsize t a = hsize s a" "\<exists>k \<in> set js. hsize s bp \<le> snd k"
proof -
  have i: "ring_ok s ks" "0 < hsize s bp" "cells (bp, hsize s bp) \<inter> free_cells ks = {}" "cells (bp, hsize s bp) \<inter> used s A = {}"
    using assms by (auto simp: heap_inv_def used_def)
  have "bp \<in> U" using assms(1) header_used [OF i(2), of "insert bp A"] by (auto simp: heap_inv_def)
  then have b: "base s < bp" using assms(1) by (auto simp: heap_inv_def)
  obtain t js where t: "ufree (bp + 16) s = Some t" "ring_ok t js" "free_cells js = cells (bp, hsize s bp) \<union> free_cells ks"
    "base t = base s" "brk t = brk s" "\<forall>a. a \<notin> free_cells js \<longrightarrow> hsize t a = hsize s a" "\<exists>k \<in> set js. hsize s bp \<le> snd k"
    by (rule ufree_ok [OF i(1) b i(2,3)])
  have dis: "used s A \<inter> free_cells js = {}" using t(3) i(4) assms(1) by (auto simp: heap_inv_def)
  have "\<forall>a \<in> A. a \<in> used s A" using assms(1) header_used by (simp add: heap_inv_def)
  then have h: "\<forall>a \<in> A. hsize t a = hsize s a" using t(6) dis by blast
  then have "used t A = used s A" by (intro used_cong) blast
  then have "heap_inv t js A U" using assms(1) t(2-5) h dis by (auto simp: heap_inv_def)
  then show ?thesis using that t h by blast
qed

text \<open>What the kernel promises: the break moves up by what was asked for.\<close>

definition sbrk_grows :: "sbrk \<Rightarrow> bool" where
  "sbrk_grows sb \<longleftrightarrow> (\<forall>b n b'. 0 < n \<longrightarrow> sb b n = Some b' \<longrightarrow> b' = b + nat n)"

lemma ring_ok_size:
  assumes "ring_ok s ks" "x \<notin> set (base s # map fst ks)"
  shows "ring_ok (s\<lparr>brk := b, hsize := (hsize s)(x := n)\<rparr>) ks"
proof -
  have "fst k \<noteq> x" if "k \<in> set ks" for k using assms(2) that by auto
  then show ?thesis using assms by (auto simp: ring_ok_def)
qed

lemma node_in_heap:
  assumes "heap_inv s ks A U" "x \<in> set (base s # map fst ks)"
  shows "x < brk s"
proof (cases "x = base s")
  case False
  then obtain k where k: "k \<in> set ks" "x = fst k" using assms(2) by auto
  then have "0 < snd k" using assms(1) spaced_above by (metis heap_inv_def ring_ok_def)
  then have "x \<in> free_cells ks" using k by (force simp: free_cells_def cells_def)
  then show ?thesis using assms(1) by (auto simp: heap_inv_def)
qed (use assms in \<open>simp add: heap_inv_def\<close>)

lemma morecore_ok:
  assumes "heap_inv s ks A U" "sbrk_grows sb" "16 * nu < 2 ^ 31" "0 < nu"
  obtains (refused) "morecore sb nu s = Some (0, s)"
    | (grown) t js where "morecore sb nu s = Some (freep t, t)" "heap_inv t js A (U \<union> {brk s..<brk t})" "base t = base s" "brk s \<le> brk t"
      "\<forall>a \<in> A. hsize t a = hsize s a" "\<exists>k \<in> set js. nu \<le> snd k"
proof -
  define m where "m = (if nu < 4096 then 4096 else nu)"
  have m: "nu \<le> m" "0 < m" "i32 (16 * int m) = 16 * int m" using assms(3,4) by (auto simp: m_def)
  show ?thesis
  proof (cases "sb (brk s) (16 * int m)")
    case None
    then show ?thesis using refused m(3) by (simp add: morecore_def m_def)
  next
    case (Some b)
    have "(0 :: int) < 16 * int m" using m(2) by simp
    then have "b = brk s + nat (16 * int m)" using assms(2) Some unfolding sbrk_grows_def by blast
    then have b: "b = brk s + 16 * m" by (simp add: nat_mult_distrib)
    let ?s = "s\<lparr>brk := b, hsize := (hsize s)(brk s := m)\<rparr>"
    have top: "brk s \<notin> set (base s # map fst ks)" using node_in_heap [OF assms(1), of "brk s"] by auto
    have "brk s \<notin> U" using assms(1) by (auto simp: heap_inv_def)
    then have fresh: "brk s \<notin> A" using header_used [of s "brk s" A] assms(1) by (auto simp: heap_inv_def)
    have size: "hsize ?s a = hsize s a" if "a \<in> A" for a using fresh that by auto
    have c: "cells (brk s, m) = {brk s..<b}" by (simp add: cells_def b)
    have "used s A \<union> free_cells ks = U" "U \<subseteq> {base s<..<brk s}" "used s A \<inter> free_cells ks = {}" "ring_ok s ks"
      using assms(1) by (auto simp: heap_inv_def)
    then have "heap_inv ?s ks (insert (brk s) A) (U \<union> {brk s..<b})"
      using ring_ok_size [OF _ top] m(2) c b assms(1) fresh
      by (intro heap_inv_insert [OF assms(1)]) (auto simp: size heap_inv_def)
    then obtain t js where t: "ufree (brk s + 16) ?s = Some t" "heap_inv t js A (U \<union> {brk s..<b})" "base t = base s" "brk t = b"
      "\<forall>a \<in> A. hsize t a = hsize ?s a" "\<exists>k \<in> set js. hsize ?s (brk s) \<le> snd k"
      using ufree_inv [OF _ fresh, of ?s ks "U \<union> {brk s..<b}"] by auto
    have "morecore sb nu s = Some (freep t, t)" using Some m(3) t(1) by (simp add: morecore_def m_def [symmetric])
    moreover have "\<exists>k \<in> set js. nu \<le> snd k" using t(6) m(1) by simp (meson order_trans)
    ultimately show ?thesis using grown [of t js] t(2-5) b size by auto
  qed
qed

section \<open>malloc\<close>

text \<open>Unlinking the block after the node behind \<open>ls\<close>, and cutting its tail off.\<close>

lemma ring_ok_unlink:
  assumes "ring_ok s (ls @ k # rs)" "x = fst (last ((base s, 0) # ls))"
  shows "ring_ok (s\<lparr>hptr := (hptr s)(x := hptr s (fst k)), freep := x\<rparr>) (ls @ rs)"
proof -
  have d: "distinct (base s # map fst (ls @ k # rs))" and r: "linked (hptr s) (base s) (map fst (ls @ k # rs)) (base s)"
    and sp: "spaced (base s) (ls @ k # rs)" using assms(1) spaced_distinct by (simp_all only: ring_ok_def)
  let ?f = "(hptr s)(x := hptr s (fst k))"
  have l: "linked (hptr s) (fst k) (map fst rs) (base s)" using r by (simp add: linked_append)
  have "linked ?f (base s) (map fst (ls @ rs)) (base s)"
  proof (cases ls rule: rev_cases)
    case Nil
    then show ?thesis using l assms(2) d by (cases rs) auto
  next
    case (snoc us u)
    have "linked ?f x (map fst rs) (base s)" using l assms(2) d snoc by (cases rs) auto
    moreover have "linked ?f (base s) (map fst us) x" using r assms(2) d snoc by (auto simp: linked_append)
    ultimately show ?thesis using snoc assms(2) by (simp add: linked_append)
  qed
  moreover have "spaced (base s) (ls @ rs)"
    using sp spaced_weaken [of "fst k + 16 * snd k" rs "block_end (base s) ls"] by (simp add: spaced_append)
  moreover have "x \<in> set (base s # map fst (ls @ rs))" using assms(2) last_in_set [of ls] by auto
  ultimately show ?thesis using assms(1) by (auto simp: ring_ok_def)
qed

lemma ring_ok_shrink:
  assumes "ring_ok s (ls @ (p, n) # rs)" "0 < m" "m \<le> n" "q \<notin> set (base s # map fst (ls @ (p, n) # rs))"
    and "x \<in> set (base s # map fst (ls @ (p, n) # rs))"
  shows "ring_ok (s\<lparr>hsize := (hsize s)(p := m, q := c), freep := x\<rparr>) (ls @ (p, m) # rs)"
proof -
  have d: "distinct (base s # map fst (ls @ (p, n) # rs))" and sp: "spaced (base s) (ls @ (p, n) # rs)"
    using assms(1) spaced_distinct by (simp_all only: ring_ok_def)
  have "spaced (base s) (ls @ (p, m) # rs)"
    using sp assms(2,3) spaced_weaken [of "p + 16 * n" rs "p + 16 * m"] by (simp add: spaced_append)
  moreover have "fst k \<noteq> p \<and> fst k \<noteq> q" if "k \<in> set ls \<union> set rs" for k using that d assms(4) by auto
  moreover have "p \<noteq> q" "base s \<noteq> q" "base s \<noteq> p" using d assms(4) by auto
  ultimately show ?thesis using assms(1,5) by (auto simp: ring_ok_def)
qed

lemma take_block_ok:
  assumes "heap_inv s ks A U" "x \<in> set (base s # map fst ks)" "p = hptr s x" "nu \<le> hsize s p" "0 < nu"
  obtains q t js where "take_block nu x p s = (q + 16, t)" "heap_inv t js (insert q A) U" "q \<notin> A" "hsize t q = nu"
    "\<forall>a \<in> A. hsize t a = hsize s a" "base t = base s" "brk t = brk s"
proof -
  have r: "ring_ok s ks" and U: "used s A \<inter> free_cells ks = {}" "used s A \<union> free_cells ks = U" "U \<subseteq> {base s<..<brk s}" "base s < brk s"
    using assms(1) by (auto simp: heap_inv_def)
  obtain ls rs where k: "ks = ls @ rs" "x = fst (last ((base s, 0) # ls))" by (rule node_split [OF assms(2)])
  have "p = hd (map fst rs @ [base s])" using node_next r k assms(3) by simp
  moreover have "p \<noteq> base s" using r assms(4,5) by (auto simp: ring_ok_def)
  ultimately obtain n rs' where rs: "rs = (p, n) # rs'" by (cases rs) auto
  have n: "hsize s p = n" using r k rs by (auto simp: ring_ok_def)
  have sp: "spaced (base s) (ls @ (p, n) # rs')" and kk: "ks = ls @ (p, n) # rs'" using r k rs by (auto simp: ring_ok_def)
  have dj: "cells (p, n) \<inter> free_cells (ls @ rs') = {}"
    using spaced_disjoint [OF sp] spaced_disjoint [of "block_end (base s) ls" "[(p, n)]" rs'] sp by (auto simp: spaced_append)
  have A: "a \<in> used s A" if "a \<in> A" for a using assms(1) that header_used by (auto simp: heap_inv_def)
  define q where "q = p + 16 * (n - nu)"
  have cut: "cells (p, n) = cells (p, n - nu) \<union> cells (q, nu)" "cells (p, n - nu) \<inter> cells (q, nu) = {}" "q \<in> cells (q, nu)"
    using assms(4,5) n by (auto simp: cells_def q_def)
  have qf: "q \<in> free_cells ks" using cut kk by auto
  then have q: "q \<notin> A" "q \<noteq> base s" using A U by auto
  show ?thesis
  proof (cases "n = nu")
    case True
    let ?t = "s\<lparr>hptr := (hptr s)(x := hptr s p), freep := x\<rparr>"
    have "ring_ok ?t (ls @ rs')" using ring_ok_unlink [of s ls "(p, n)" rs' x] r kk k(2) by simp
    then have "heap_inv ?t (ls @ rs') (insert p A) U"
      using U kk dj n True assms(5) by (intro heap_inv_insert [OF assms(1)]) auto
    then show ?thesis using that [of p ?t "ls @ rs'"] n True q by (simp add: take_block_def q_def)
  next
    case False
    let ?t = "s\<lparr>hsize := (hsize s)(p := n - nu, q := nu), freep := x\<rparr>"
    have lt: "0 < n - nu" using False assms(4) n by simp
    then have pf: "p \<in> free_cells ks" using kk by (auto simp: cells_def)
    have "fst k \<noteq> q" if "k \<in> set (ls @ rs')" for k
    proof -
      have "0 < snd k" using spaced_above [OF sp] that by auto
      then have "fst k \<in> free_cells (ls @ rs')" using that by (force simp: free_cells_def cells_def)
      then show ?thesis using cut dj by auto
    qed
    moreover have "p \<noteq> q" using lt by (simp add: q_def)
    ultimately have "q \<notin> set (map fst ks)" using kk by fastforce
    then have "ring_ok ?t (ls @ (p, n - nu) # rs')"
      using ring_ok_shrink [of s ls p n rs' "n - nu" q x nu] r kk q(2) lt assms(2) by simp
    moreover have same: "hsize ?t a = hsize s a" if "a \<in> A" for a using that q(1) A [OF that] U(1) pf by auto
    ultimately have "heap_inv ?t (ls @ (p, n - nu) # rs') (insert q A) U"
      using U kk dj cut assms(5) by (intro heap_inv_insert [OF assms(1)]) auto
    moreover have "take_block nu x p s = (q + 16, ?t)" using n False by (simp add: take_block_def q_def Let_def)
    ultimately show ?thesis using that [of q ?t "ls @ (p, n - nu) # rs'"] same q(1) by simp
  qed
qed

lemma malloc_loop_path:
  "linked (hptr s) x xs p \<Longrightarrow> list_all (\<lambda>y. hsize s y < nu \<and> y \<noteq> freep s) xs
    \<Longrightarrow> malloc_loop sb nu s x (hptr s x) = malloc_loop sb nu s (last (x # xs)) p"
proof (induction xs arbitrary: x)
  case (Cons y xs)
  then have "malloc_loop sb nu s x (hptr s x) = malloc_loop sb nu s y (hptr s y)"
    by (subst malloc_loop.simps) simp
  then show ?case using Cons by simp
qed simp

lemma linked_last: "linked f x xs p \<Longrightarrow> f (last (x # xs)) = p"
  by (induction xs arbitrary: x) auto

text \<open>With a block that is large enough in the ring, one is taken without asking the kernel.\<close>

lemma malloc_loop_fits:
  assumes "heap_inv s ks A U" "\<exists>k \<in> set ks. nu \<le> snd k" "0 < nu"
  obtains q t js where "malloc_loop sb nu s (freep s) (hptr s (freep s)) = Some (q + 16, t)" "heap_inv t js (insert q A) U" "q \<notin> A"
    "hsize t q = nu" "\<forall>a \<in> A. hsize t a = hsize s a" "base t = base s" "brk t = brk s"
proof -
  have r: "ring_ok s ks" using assms(1) by (simp add: heap_inv_def)
  obtain k where k: "k \<in> set ks" "nu \<le> hsize s (fst k)" using assms(2) r by (auto simp: ring_ok_def)
  obtain xs where c: "linked (hptr s) (freep s) xs (freep s)" "set (freep s # xs) = set (base s # map fst ks)" "distinct (freep s # xs)"
    by (rule ring_cycle [OF r])
  have "\<exists>us p. linked (hptr s) (freep s) us p \<and> nu \<le> hsize s p \<and> list_all (\<lambda>y. \<not> nu \<le> hsize s y) us \<and> set us \<subseteq> set xs"
  proof (cases "\<exists>y \<in> set xs. nu \<le> hsize s y")
    case True
    then obtain y where "y \<in> set xs" "nu \<le> hsize s y" by blast
    from first_on_path [where P = "\<lambda>y. nu \<le> hsize s y", OF c(1) this] show ?thesis by metis
  next
    case False
    then have "nu \<le> hsize s (freep s)" using c(2) k by (metis image_eqI list.set_map set_ConsD list.set_intros(2))
    then show ?thesis using False c(1) by (auto simp: list_all_iff)
  qed
  then obtain us p where u: "linked (hptr s) (freep s) us p" "nu \<le> hsize s p" "list_all (\<lambda>y. \<not> nu \<le> hsize s y) us" "set us \<subseteq> set xs"
    by blast
  let ?x = "last (freep s # us)"
  have "list_all (\<lambda>y. hsize s y < nu \<and> y \<noteq> freep s) us" using u(3,4) c(3) by (auto simp: list_all_iff)
  then have "malloc_loop sb nu s (freep s) (hptr s (freep s)) = malloc_loop sb nu s ?x p" by (rule malloc_loop_path [OF u(1)])
  also have "\<dots> = Some (take_block nu ?x p s)" using u(2) by (subst malloc_loop.simps) simp
  finally have m: "malloc_loop sb nu s (freep s) (hptr s (freep s)) = Some (take_block nu ?x p s)" .
  have "?x \<in> set (freep s # us)" by (rule last_in_set) simp
  then have x: "?x \<in> set (base s # map fst ks)" using u(4) unfolding c(2) [symmetric] by auto
  have p: "p = hptr s ?x" using linked_last [OF u(1)] by simp
  obtain q t js where "take_block nu ?x p s = (q + 16, t)" "heap_inv t js (insert q A) U" "q \<notin> A" "hsize t q = nu"
    "\<forall>a \<in> A. hsize t a = hsize s a" "base t = base s" "brk t = brk s" by (rule take_block_ok [OF assms(1) x p u(2) assms(3)])
  then show ?thesis using that [of q t js] m by simp
qed

lemma malloc_loop_ok:
  assumes "heap_inv s ks A U" "sbrk_grows sb" "16 * nu < 2 ^ 31" "0 < nu"
  obtains (null) "malloc_loop sb nu s (freep s) (hptr s (freep s)) = Some (0, s)"
    | (block) q t js where "malloc_loop sb nu s (freep s) (hptr s (freep s)) = Some (q + 16, t)" "q \<notin> A" "hsize t q = nu"
      "heap_inv t js (insert q A) (U \<union> {brk s..<brk t})" "\<forall>a \<in> A. hsize t a = hsize s a" "base t = base s" "brk s \<le> brk t"
proof (cases "\<exists>k \<in> set ks. nu \<le> snd k")
  case True
  then obtain q t js where "malloc_loop sb nu s (freep s) (hptr s (freep s)) = Some (q + 16, t)" "heap_inv t js (insert q A) U" "q \<notin> A"
    "hsize t q = nu" "\<forall>a \<in> A. hsize t a = hsize s a" "base t = base s" "brk t = brk s"
    by (rule malloc_loop_fits [OF assms(1) _ assms(4)])
  then show ?thesis using block by simp
next
  case False
  have r: "ring_ok s ks" using assms(1) by (simp add: heap_inv_def)
  obtain xs where c: "linked (hptr s) (freep s) xs (freep s)" "set (freep s # xs) = set (base s # map fst ks)" "distinct (freep s # xs)"
    by (rule ring_cycle [OF r])
  have small: "hsize s y < nu" if y: "y \<in> set (freep s # xs)" for y
  proof (cases "y = base s")
    case False': False
    then obtain k where "k \<in> set ks" "y = fst k" using y unfolding c(2) by auto
    then show ?thesis using r False by (auto simp: ring_ok_def not_le)
  qed (use r assms(4) in \<open>simp add: ring_ok_def\<close>)
  have "list_all (\<lambda>y. hsize s y < nu \<and> y \<noteq> freep s) xs" using small c(3) by (auto simp: list_all_iff)
  then have "malloc_loop sb nu s (freep s) (hptr s (freep s)) = malloc_loop sb nu s (last (freep s # xs)) (freep s)"
    by (rule malloc_loop_path [OF c(1)])
  also have "\<dots> = Option.bind (morecore sb nu s) (\<lambda>(q, t). if q = 0 then Some (0, t) else malloc_loop sb nu t q (hptr t q))"
    using small [of "freep s"] by (subst malloc_loop.simps) simp
  finally have m: "malloc_loop sb nu s (freep s) (hptr s (freep s)) =
    Option.bind (morecore sb nu s) (\<lambda>(q, t). if q = 0 then Some (0, t) else malloc_loop sb nu t q (hptr t q))" .
  show ?thesis
  proof (cases rule: morecore_ok [OF assms])
    case 1
    then show ?thesis using null m by simp
  next
    case (2 t js)
    have "freep t \<noteq> 0" using 2(2) spaced_above by (fastforce simp: heap_inv_def ring_ok_def)
    then have m': "malloc_loop sb nu s (freep s) (hptr s (freep s)) = malloc_loop sb nu t (freep t) (hptr t (freep t))" using m 2(1) by simp
    obtain q u is' where "malloc_loop sb nu t (freep t) (hptr t (freep t)) = Some (q + 16, u)"
      "heap_inv u is' (insert q A) (U \<union> {brk s..<brk t})" "q \<notin> A" "hsize u q = nu" "\<forall>a \<in> A. hsize u a = hsize t a" "base u = base t" "brk u = brk t"
      by (rule malloc_loop_fits [OF 2(2,6) assms(4)])
    then show ?thesis using block [of q u is'] m' 2 by simp
  qed
qed

text \<open>Before the first request there is no ring.\<close>

definition heap_ok :: "heap \<Rightarrow> block list \<Rightarrow> nat set \<Rightarrow> nat set \<Rightarrow> bool" where
  "heap_ok s ks A U \<longleftrightarrow>
     (if freep s = 0 then ks = [] \<and> A = {} \<and> U = {} \<and> 0 < base s \<and> base s < brk s else heap_inv s ks A U)"

lemma heap_inv_ok: "heap_inv s ks A U \<Longrightarrow> heap_ok s ks A U"
  using spaced_above by (fastforce simp: heap_ok_def heap_inv_def ring_ok_def)

lemma units_bounds: "unat n + 16 \<le> 16 * units n" "16 * units n < unat n + 32" "0 < units n"
  by (simp_all add: units_def)

lemma malloc_ok:
  assumes "heap_ok s ks A U" "sbrk_grows sb" "unat n + 32 \<le> 2 ^ 31"
  obtains (null) t where "malloc sb n s = Some (0, t)" "heap_ok t ks A U" "base t = base s" "brk t = brk s" "\<forall>a \<in> A. hsize t a = hsize s a"
    | (block) q t js where "malloc sb n s = Some (q + 16, t)" "q \<notin> A" "hsize t q = units n"
      "heap_ok t js (insert q A) (U \<union> {brk s..<brk t})" "\<forall>a \<in> A. hsize t a = hsize s a" "base t = base s" "brk s \<le> brk t"
proof -
  define r where "r = (if freep s = 0 then s\<lparr>hptr := (hptr s)(base s := base s), freep := base s, hsize := (hsize s)(base s := 0)\<rparr> else s)"
  have i: "heap_inv r ks A U"
  proof (cases "freep s = 0")
    case True
    then show ?thesis using assms(1) by (auto simp: r_def heap_ok_def heap_inv_def ring_ok_def used_def)
  qed (use assms(1) in \<open>simp add: r_def heap_ok_def\<close>)
  have same: "base r = base s" "brk r = brk s" "\<forall>a \<in> A. hsize r a = hsize s a" using assms(1) by (auto simp: r_def heap_ok_def)
  have m: "malloc sb n s = malloc_loop sb (units n) r (freep r) (hptr r (freep r))" by (simp add: malloc_def r_def)
  have u: "16 * units n < 2 ^ 31" using units_bounds(2) [of n] assms(3) by linarith
  show ?thesis
  proof (cases rule: malloc_loop_ok [OF i assms(2) u units_bounds(3)])
    case 1
    then show ?thesis using null [of r] m same heap_inv_ok [OF i] by simp
  next
    case (2 q t js)
    then show ?thesis using block [of q t js] m same heap_inv_ok [OF 2(4)] by simp
  qed
qed

section \<open>Clients\<close>

text \<open>
  A client asks for memory and frees what it holds; \<open>live\<close> maps the pointers that it holds
  to the numbers of bytes it asked for.
\<close>

datatype request = Malloc u32 | Free nat

fun serve :: "sbrk \<Rightarrow> request \<Rightarrow> heap \<times> (nat \<rightharpoonup> nat) \<Rightarrow> (heap \<times> (nat \<rightharpoonup> nat)) option" where
  "serve sb (Malloc n) (s, live) = map_option (\<lambda>(p, t). (t, if p = 0 then live else live(p \<mapsto> unat n))) (malloc sb n s)"
| "serve sb (Free p) (s, live) =
     (if live p = None then Some (s, live) else map_option (\<lambda>t. (t, live(p := None))) (ufree p s))"

primrec serve_all :: "sbrk \<Rightarrow> request list \<Rightarrow> heap \<times> (nat \<rightharpoonup> nat) \<Rightarrow> (heap \<times> (nat \<rightharpoonup> nat)) option" where
  "serve_all sb [] c = Some c"
| "serve_all sb (r # rs) c = Option.bind (serve sb r c) (serve_all sb rs)"

text \<open>Requests whose size in bytes, rounded up, still is a positive \<^verbatim>\<open>int\<close>.\<close>

primrec moderate :: "request \<Rightarrow> bool" where
  "moderate (Malloc n) \<longleftrightarrow> unat n + 32 \<le> 2 ^ 31"
| "moderate (Free p) \<longleftrightarrow> True"

definition client_ok :: "nat \<Rightarrow> heap \<times> (nat \<rightharpoonup> nat) \<Rightarrow> bool" where
  "client_ok b c \<longleftrightarrow>
     (\<exists>ks A. heap_ok (fst c) ks A {b..<brk (fst c)} \<and> b \<le> brk (fst c) \<and> dom (snd c) = (\<lambda>a. a + 16) ` A
        \<and> (\<forall>a n. snd c (a + 16) = Some n \<longrightarrow> n + 16 \<le> 16 * hsize (fst c) a))"

lemma serve_malloc_ok:
  assumes "client_ok b (s, live)" "sbrk_grows sb" "unat n + 32 \<le> 2 ^ 31"
  shows "\<exists>c. serve sb (Malloc n) (s, live) = Some c \<and> client_ok b c"
proof -
  obtain ks A where k: "heap_ok s ks A {b..<brk s}" "b \<le> brk s" "dom live = (\<lambda>a. a + 16) ` A"
    "\<forall>a n. live (a + 16) = Some n \<longrightarrow> n + 16 \<le> 16 * hsize s a" using assms(1) by (auto simp: client_ok_def)
  have held: "a \<in> A" if "live (a + 16) = Some m" for a m
  proof -
    have "a + 16 \<in> (\<lambda>a. a + 16) ` A" using that k(3) by blast
    then show ?thesis by auto
  qed
  show ?thesis
  proof (cases rule: malloc_ok [OF k(1) assms(2,3)])
    case (1 t)
    have "client_ok b (t, live)" unfolding client_ok_def by (intro exI [of _ ks] exI [of _ A]) (use 1 k held in auto)
    then show ?thesis using 1(1) by simp
  next
    case (2 q t js)
    have U: "{b..<brk s} \<union> {brk s..<brk t} = {b..<brk t}" using k(2) 2(7) by auto
    have "client_ok b (t, live(q + 16 \<mapsto> unat n))" unfolding client_ok_def
      by (intro exI [of _ js] exI [of _ "insert q A"]) (use 2 k held U units_bounds(1) [of n] in auto)
    then show ?thesis using 2(1) by simp
  qed
qed

lemma serve_free_ok:
  assumes "client_ok b (s, live)"
  shows "\<exists>c. serve sb (Free p) (s, live) = Some c \<and> client_ok b c"
proof (cases "live p")
  case (Some n)
  obtain ks A where k: "heap_ok s ks A {b..<brk s}" "b \<le> brk s" "dom live = (\<lambda>a. a + 16) ` A"
    "\<forall>a n. live (a + 16) = Some n \<longrightarrow> n + 16 \<le> 16 * hsize s a" using assms by (auto simp: client_ok_def)
  from Some have "p \<in> (\<lambda>a. a + 16) ` A" using k(3) by blast
  then obtain a where a: "a \<in> A" "p = a + 16" by blast
  define B where "B = A - {a}"
  have B: "A = insert a B" "a \<notin> B" using a(1) by (auto simp: B_def)
  have "heap_inv s ks (insert a B) {b..<brk s}" using k(1) B by (auto simp: heap_ok_def split: if_splits)
  then obtain t js where t: "ufree (a + 16) s = Some t" "heap_inv t js B {b..<brk s}" "base t = base s" "brk t = brk s"
    "\<forall>a \<in> B. hsize t a = hsize s a" by (rule ufree_inv [OF _ B(2)])
  have d: "dom (live(p := None)) = (\<lambda>a. a + 16) ` B" using k(3) a(2) B by auto
  have "n + 16 \<le> 16 * hsize t x" if n: "(live(p := None)) (x + 16) = Some n" for x n
  proof -
    have "x + 16 \<in> (\<lambda>a. a + 16) ` B" using n d by blast
    then have "x \<in> B" by auto
    moreover have "live (x + 16) = Some n" using n by (auto split: if_splits)
    ultimately show ?thesis using k(4) t(5) by auto
  qed
  then have "client_ok b (t, live(p := None))" unfolding client_ok_def
    by (intro exI [of _ js] exI [of _ B]) (use k(2) t(4) d heap_inv_ok [OF t(2)] in simp)
  moreover have "serve sb (Free p) (s, live) = Some (t, live(p := None))" using Some t(1) a(2) by simp
  ultimately show ?thesis by blast
next
  case None
  then have "serve sb (Free p) (s, live) = Some (s, live)" by simp
  then show ?thesis using assms by blast
qed

lemma serve_all_ok:
  assumes "client_ok b c" "sbrk_grows sb" "list_all moderate rs"
  shows "\<exists>d. serve_all sb rs c = Some d \<and> client_ok b d"
  using assms(1,3)
proof (induction rs arbitrary: c)
  case (Cons r rs)
  obtain s live where c: "c = (s, live)" by (cases c)
  have "\<exists>d. serve sb r c = Some d \<and> client_ok b d"
  proof (cases r)
    case (Malloc n)
    then show ?thesis using serve_malloc_ok [of b s live sb n] assms(2) Cons.prems c by simp
  next
    case (Free p)
    then show ?thesis using serve_free_ok [of b s live sb p] Cons.prems(1) c by blast
  qed
  then show ?case using Cons.IH Cons.prems(2) by auto
qed simp


definition demo_heap :: heap where
  "demo_heap = \<lparr>hptr = (\<lambda>_. 0), hsize = (\<lambda>_. 0), base = 0x1000, freep = 0, brk = 0x3000\<rparr>"

definition demo_sbrk :: sbrk where
  "demo_sbrk b n = (if b + nat n \<le> 0x8000000 then Some (b + nat n) else None)"


end
