(* ===== verification/Usr_Sh.thy ===== *)
theory Usr_Sh
  imports Main
begin

text \<open>
  \<^verbatim>\<open>user/sh.c\<close>: the parser of the shell.  The line is the list of its characters
  without the terminator; a pointer into it is an index, and the character at the end is NUL.
  A parsed command holds for each word the indices of its beginning and its end, as the
  structures of the code do; \<^verbatim>\<open>nulterminate\<close> then stores a NUL at each end.  A call
  of \<^verbatim>\<open>panic\<close> is a result of its own.  Allocation of the structures is taken to
  succeed.
\<close>

section \<open>Commands\<close>

datatype cmd =
    Exec "(nat \<times> nat) list"
  | Redir cmd nat nat nat nat
  | Pipe cmd cmd
  | Seq cmd cmd
  | Back cmd

datatype 'a parsed = Done 'a | Panic string | Endless

primrec and_then :: "'a parsed \<Rightarrow> ('a \<Rightarrow> 'b parsed) \<Rightarrow> 'b parsed" where
  "and_then (Done x) f = f x"
| "and_then (Panic e) f = Panic e"
| "and_then Endless f = Endless"

definition MAXARGS :: nat where "MAXARGS = 10"

text \<open>Flags of \<^verbatim>\<open>open\<close> (\<^verbatim>\<open>kernel/fcntl.h\<close>).\<close>

abbreviation (input) o_rdonly :: nat where "o_rdonly \<equiv> 0x000"
abbreviation (input) o_wronly :: nat where "o_wronly \<equiv> 0x001"
abbreviation (input) o_create :: nat where "o_create \<equiv> 0x200"
abbreviation (input) o_trunc :: nat where "o_trunc \<equiv> 0x400"

section \<open>Tokens\<close>

definition NUL :: char where "NUL = CHR 0x00"

definition whitespace :: string where
  "whitespace = [CHR '' '', CHR 0x09, CHR 0x0D, CHR 0x0A, CHR 0x0B]"

definition symbols :: string where
  "symbols = ''<|>&;()''"

definition char_at :: "string \<Rightarrow> nat \<Rightarrow> char" where
  "char_at s i = (if i < length s then s ! i else NUL)"

definition skip :: "string \<Rightarrow> nat \<Rightarrow> nat" where
  "skip s i = i + length (takeWhile (\<lambda>c. c \<in> set whitespace) (drop i s))"

definition word_char :: "char \<Rightarrow> bool" where
  "word_char c \<longleftrightarrow> c \<notin> set whitespace \<and> c \<notin> set symbols"

text \<open>The token, where it begins, where it ends, and where parsing goes on.\<close>

definition gettoken :: "string \<Rightarrow> nat \<Rightarrow> char \<times> nat \<times> nat \<times> nat" where
  "gettoken s i =
     (let q = skip s i; c = char_at s q;
          (ret, eq) =
            (if c = NUL then (c, q)
             else if c \<in> set ''|();&<'' then (c, q + 1)
             else if c = CHR ''>'' then
               (if char_at s (q + 1) = CHR ''>'' then (CHR ''+'', q + 2) else (c, q + 1))
             else (CHR ''a'', q + length (takeWhile word_char (drop q s))))
      in (ret, q, eq, skip s eq))"

definition peek :: "string \<Rightarrow> nat \<Rightarrow> string \<Rightarrow> bool \<times> nat" where
  "peek s i toks = (let p = skip s i in (char_at s p \<noteq> NUL \<and> char_at s p \<in> set toks, p))"

lemma skip_bounds: "i \<le> skip s i" "i \<le> length s \<Longrightarrow> skip s i \<le> length s"
  using length_takeWhile_le [of "\<lambda>c. c \<in> set whitespace" "drop i s"] by (simp_all add: skip_def)

lemma peek_bounds: "peek s i toks = (b, p) \<Longrightarrow> i \<le> p \<and> (i \<le> length s \<longrightarrow> p \<le> length s) \<and> (b \<longrightarrow> p < length s)"
  using skip_bounds [of i s] by (auto simp: peek_def Let_def char_at_def split: if_splits)

text \<open>A token other than the end of the line takes at least one character.\<close>

lemma skip_stops: "skip s i < length s \<Longrightarrow> s ! skip s i \<notin> set whitespace"
proof -
  assume l: "skip s i < length s"
  let ?n = "length (takeWhile (\<lambda>c. c \<in> set whitespace) (drop i s))"
  have "?n < length (drop i s)" using l by (simp add: skip_def)
  then have "drop i s ! ?n \<notin> set whitespace" by (rule nth_length_takeWhile)
  then show ?thesis using l by (simp add: skip_def)
qed

lemma word_length:
  assumes "q < length s" "word_char (s ! q)"
  shows "0 < length (takeWhile word_char (drop q s))"
  using assms by (simp add: Cons_nth_drop_Suc [symmetric])

lemma gettoken_bounds:
  assumes "gettoken s i = (t, q, eq, j)"
  shows "i \<le> q" "q \<le> eq" "eq \<le> j" "i \<le> length s \<Longrightarrow> j \<le> length s" "t \<noteq> NUL \<Longrightarrow> q < eq" "q = skip s i"
    "t = CHR ''a'' \<Longrightarrow> char_at s q \<noteq> NUL \<and> eq = q + length (takeWhile word_char (drop q s)) \<and> q < length s" "t = NUL \<Longrightarrow> char_at s q = NUL"
proof -
  have q: "q = skip s i" "j = skip s eq" using assms by (simp_all add: gettoken_def Let_def split: prod.splits)
  have e: "eq = q \<and> t = NUL \<and> char_at s q = NUL \<or> eq = q + 1 \<and> q < length s \<or> eq = q + 2 \<and> q + 1 < length s
      \<or> eq = q + length (takeWhile word_char (drop q s)) \<and> q < length s \<and> word_char (s ! q)"
    using assms skip_stops [of s i] by (auto simp: gettoken_def Let_def char_at_def word_char_def symbols_def NUL_def split: if_splits prod.splits)
  have w: "length (takeWhile word_char (drop q s)) \<le> length s - q" using length_takeWhile_le [of word_char "drop q s"] by simp
  have b: "i \<le> length s \<Longrightarrow> eq \<le> length s" using e w skip_bounds(2) [of i s] q by auto
  show "i \<le> q" "eq \<le> j" using q skip_bounds(1) by simp_all
  show "q \<le> eq" using e by auto
  show "i \<le> length s \<Longrightarrow> j \<le> length s" using b q skip_bounds(2) by simp
  show "t \<noteq> NUL \<Longrightarrow> q < eq" using e word_length [of q s] by auto
  show "q = skip s i" by (rule q(1))
  have k: "t = NUL \<and> char_at s q = NUL \<or> t \<noteq> NUL \<and> t \<noteq> CHR ''a''
      \<or> t \<noteq> NUL \<and> char_at s q \<noteq> NUL \<and> eq = q + length (takeWhile word_char (drop q s))"
    using assms by (auto simp: gettoken_def Let_def NUL_def split: if_splits)
  then show "t = NUL \<Longrightarrow> char_at s q = NUL" by auto
  show "t = CHR ''a'' \<Longrightarrow> char_at s q \<noteq> NUL \<and> eq = q + length (takeWhile word_char (drop q s)) \<and> q < length s"
    using k by (auto simp: char_at_def NUL_def split: if_splits)
qed

lemma skip_idem [simp]: "skip s (skip s i) = skip s i"
proof (cases "skip s i < length s")
  case True
  then show ?thesis using skip_stops [OF True] by (simp add: skip_def [of s "skip s i"] Cons_nth_drop_Suc [symmetric])
next
  case False
  then show ?thesis by (simp add: skip_def [of s "skip s i"])
qed

lemma peek_token:
  assumes "peek s i toks = (True, p)" "gettoken s p = (t, q, eq, j)"
  shows "i \<le> p" "p < j" "p < length s" "j \<le> length s" "q = p"
proof -
  have p: "p = skip s i" "char_at s p \<noteq> NUL" using assms(1) by (auto simp: peek_def Let_def)
  then have l: "p < length s" by (simp add: char_at_def split: if_splits)
  note g = gettoken_bounds [OF assms(2)]
  have q: "q = p" using g(6) p(1) by simp
  then have "t \<noteq> NUL" using g(8) p(2) by auto
  then show "i \<le> p" "p < j" "p < length s" "j \<le> length s" "q = p" using g l p(1) q skip_bounds(1) [of i s] by auto
qed

lemma gettoken_word_bounds:
  assumes "gettoken s i = (CHR ''a'', q, eq, j)"
  shows "i \<le> q \<and> q < j \<and> q < length s"
proof -
  note g = gettoken_bounds [OF assms]
  have "q < eq" by (rule g(5)) (simp add: NUL_def)
  moreover have "q < length s" using g(7) by simp
  ultimately show ?thesis using g(1,3) by linarith
qed

section \<open>The loops\<close>

function back_loop :: "string \<Rightarrow> nat \<Rightarrow> cmd \<Rightarrow> cmd \<times> nat" where
  "back_loop s i c =
     (case peek s i ''&'' of
        (b, p) \<Rightarrow> if b then (case gettoken s p of (t, q, eq, j) \<Rightarrow> back_loop s j (Back c)) else (c, p))"
  by pat_completeness auto
termination
proof (relation "measure (\<lambda>(s, i, c). length s - i)", simp)
  fix s :: string and i c b p t q eq j t' q' eq'
  assume "(b, p) = peek s i ''&''" "b" "(t, t') = gettoken s p" "(q, q') = t'" "(eq, j) = q'"
  then show "((s, j, Back c), s, i, c) \<in> measure (\<lambda>(s, i, c). length s - i)" using peek_token [of s i "''&''" p t q eq j] by auto
qed

definition redir_mode :: "char \<Rightarrow> nat \<times> nat" where
  "redir_mode tok =
     (if tok = CHR ''<'' then (o_rdonly, 0)
      else if tok = CHR ''>'' then (o_wronly + o_create + o_trunc, 1)
      else (o_wronly + o_create, 1))"

function parseredirs :: "string \<Rightarrow> nat \<Rightarrow> (nat \<times> nat \<times> nat \<times> nat) list \<Rightarrow> ((nat \<times> nat \<times> nat \<times> nat) list \<times> nat) parsed" where
  "parseredirs s i rs =
     (case peek s i ''<>'' of
        (b, p) \<Rightarrow>
          if \<not> b then Done (rs, p)
          else case gettoken s p of
            (tok, q0, eq0, j) \<Rightarrow> (case gettoken s j of
              (t, q, eq, k) \<Rightarrow>
                if t \<noteq> CHR ''a'' then Panic ''missing file for redirection''
                else (case redir_mode tok of (mode, fd) \<Rightarrow> parseredirs s k (rs @ [(q, eq, mode, fd)]))))"
  by pat_completeness auto
termination
proof (relation "measure (\<lambda>(s, i, rs). length s - i)", simp)
  fix s :: string and i b p t q eq k tok q0 eq0 j mode fd x1 x2 x3 x4 and rs :: "(nat \<times> nat \<times> nat \<times> nat) list"
  assume "(b, p) = peek s i ''<>''" "\<not> \<not> b" "(tok, x1) = gettoken s p" "(q0, x2) = x1" "(eq0, j) = x2"
    "(t, x3) = gettoken s j" "(q, x4) = x3" "(eq, k) = x4"
  then show "((s, k, rs @ [(q, eq, mode, fd)]), s, i, rs) \<in> measure (\<lambda>(s, i, rs). length s - i)"
    using peek_token [of s i "''<>''" p tok q0 eq0 j] gettoken_bounds(1,2,3) [of s j t q eq k] by auto
qed

lemma parseredirs_bounds:
  "parseredirs s i rs = Done (rs', k) \<Longrightarrow> i \<le> k \<and> (i \<le> length s \<longrightarrow> k \<le> length s)"
proof (induction s i rs arbitrary: rs' k rule: parseredirs.induct)
  case (1 s i rs)
  obtain b p where p: "peek s i ''<>'' = (b, p)" by fastforce
  obtain tok q0 eq0 j where g: "gettoken s p = (tok, q0, eq0, j)" by (metis prod_cases4)
  obtain t q eq l where h: "gettoken s j = (t, q, eq, l)" by (metis prod_cases4)
  obtain mode fd where m: "redir_mode tok = (mode, fd)" by fastforce
  show ?case
  proof (cases b)
    case False
    then show ?thesis using "1.prems" p peek_bounds [OF p] by (subst (asm) parseredirs.simps) simp
  next
    case b: True
    then have t: "t = CHR ''a''" "parseredirs s l (rs @ [(q, eq, mode, fd)]) = Done (rs', k)"
      using "1.prems" p g h m by (subst (asm) parseredirs.simps, simp split: if_splits)+
    have "l \<le> k \<and> (l \<le> length s \<longrightarrow> k \<le> length s)"
      using "1.IH" [OF p [symmetric]] b g h m t by simp
    then show ?thesis using peek_token [of s i "''<>''" p tok q0 eq0 j] gettoken_bounds(1-4) [OF h] b p g by auto
  qed
qed

function arg_loop :: "string \<Rightarrow> nat \<Rightarrow> (nat \<times> nat) list \<Rightarrow> (nat \<times> nat \<times> nat \<times> nat) list
    \<Rightarrow> ((nat \<times> nat) list \<times> (nat \<times> nat \<times> nat \<times> nat) list \<times> nat) parsed" where
  "arg_loop s i as rs =
     (case peek s i ''|)&;'' of
        (b, p) \<Rightarrow>
          if b then Done (as, rs, p)
          else case gettoken s p of
            (tok, q, eq, j) \<Rightarrow>
              if tok = NUL then Done (as, rs, j)
              else if tok \<noteq> CHR ''a'' then Panic ''syntax''
              else if MAXARGS \<le> length as + 1 then Panic ''too many args''
              else (case parseredirs s j rs of
                      Done r \<Rightarrow> arg_loop s (snd r) (as @ [(q, eq)]) (fst r)
                    | Panic e \<Rightarrow> Panic e
                    | Endless \<Rightarrow> Endless))"
  by pat_completeness auto
termination
proof (relation "measure (\<lambda>(s, i, as, rs). length s - i)", simp)
  fix s :: string and i b p tok q eq j x1 x2 r as rs
  assume "(b, p) = peek s i ''|)&;''" "\<not> b" "(tok, x1) = gettoken s p" "(q, x2) = x1" "(eq, j) = x2" "tok \<noteq> NUL"
    "\<not> tok \<noteq> CHR ''a''" "parseredirs s j rs = Done r"
  then show "((s, snd r, as @ [(q, eq)], fst r), s, i, as, rs) \<in> measure (\<lambda>(s, i, as, rs). length s - i)"
    using peek_bounds [of s i "''|)&;''" b p] gettoken_word_bounds [of s p q eq j] parseredirs_bounds [of s j rs "fst r" "snd r"]
    by (auto simp del: parseredirs.simps)
qed

declare back_loop.simps [simp del] parseredirs.simps [simp del] arg_loop.simps [simp del]

section \<open>The parser\<close>

definition redircmds :: "(nat \<times> nat \<times> nat \<times> nat) list \<Rightarrow> cmd \<Rightarrow> cmd" where
  "redircmds rs c = fold (\<lambda>(q, eq, mode, fd) c. Redir c q eq mode fd) rs c"

text \<open>
  The four procedures call each other; the first argument bounds the depth of the calls.
\<close>

fun parseline :: "nat \<Rightarrow> string \<Rightarrow> nat \<Rightarrow> (cmd \<times> nat) parsed"
and parsepipe :: "nat \<Rightarrow> string \<Rightarrow> nat \<Rightarrow> (cmd \<times> nat) parsed"
and parseexec :: "nat \<Rightarrow> string \<Rightarrow> nat \<Rightarrow> (cmd \<times> nat) parsed"
and parseblock :: "nat \<Rightarrow> string \<Rightarrow> nat \<Rightarrow> (cmd \<times> nat) parsed" where
  "parseline 0 s i = Endless"
| "parseline (Suc n) s i =
     and_then (parsepipe n s i) (\<lambda>(c, j).
       let (c, j) = back_loop s j c; (b, p) = peek s j '';'' in
       if b then
         let (t, q, eq, k) = gettoken s p in
         and_then (parseline n s k) (\<lambda>(d, l). Done (Seq c d, l))
       else Done (c, p))"
| "parsepipe 0 s i = Endless"
| "parsepipe (Suc n) s i =
     and_then (parseexec n s i) (\<lambda>(c, j).
       let (b, p) = peek s j ''|'' in
       if b then
         let (t, q, eq, k) = gettoken s p in
         and_then (parsepipe n s k) (\<lambda>(d, l). Done (Pipe c d, l))
       else Done (c, p))"
| "parseexec 0 s i = Endless"
| "parseexec (Suc n) s i =
     (let (b, p) = peek s i ''('' in
      if b then parseblock n s p
      else and_then (parseredirs s p []) (\<lambda>(rs, j).
             and_then (arg_loop s j [] rs) (\<lambda>(as, rs, k). Done (redircmds rs (Exec as), k))))"
| "parseblock 0 s i = Endless"
| "parseblock (Suc n) s i =
     (let (b, p) = peek s i ''('' in
      if \<not> b then Panic ''parseblock''
      else
        let (t, q, eq, j) = gettoken s p in
        and_then (parseline n s j) (\<lambda>(c, k).
          let (b, p) = peek s k '')'' in
          if \<not> b then Panic ''syntax - missing )''
          else
            let (t, q, eq, l) = gettoken s p in
            and_then (parseredirs s l []) (\<lambda>(rs, m). Done (redircmds rs c, m))))"

text \<open>The bytes of the line, its terminator included, after \<^verbatim>\<open>nulterminate\<close>.\<close>

primrec nulterminate :: "cmd \<Rightarrow> string \<Rightarrow> string" where
  "nulterminate (Exec as) b = fold (\<lambda>(q, eq) b. b[eq := NUL]) as b"
| "nulterminate (Redir c q eq mode fd) b = (nulterminate c b)[eq := NUL]"
| "nulterminate (Pipe c d) b = nulterminate d (nulterminate c b)"
| "nulterminate (Seq c d) b = nulterminate d (nulterminate c b)"
| "nulterminate (Back c) b = nulterminate c b"

definition parsecmd :: "string \<Rightarrow> (cmd \<times> string) parsed" where
  "parsecmd s =
     and_then (parseline (4 * length s + 4) s 0) (\<lambda>(c, i).
       let (b, p) = peek s i [] in
       if p \<noteq> length s then Panic ''syntax''
       else Done (c, nulterminate c (s @ [NUL])))"

section \<open>Words\<close>

text \<open>A word is a longest run of word characters from its first one.\<close>

definition word_at :: "string \<Rightarrow> nat \<times> nat \<Rightarrow> bool" where
  "word_at s w \<longleftrightarrow> fst w < snd w \<and> snd w = fst w + length (takeWhile word_char (drop (fst w) s))"

primrec words :: "cmd \<Rightarrow> (nat \<times> nat) list" where
  "words (Exec as) = as"
| "words (Redir c q eq mode fd) = words c @ [(q, eq)]"
| "words (Pipe c d) = words c @ words d"
| "words (Seq c d) = words c @ words d"
| "words (Back c) = words c"

definition redir_words :: "(nat \<times> nat \<times> nat \<times> nat) list \<Rightarrow> (nat \<times> nat) list" where
  "redir_words rs = map (\<lambda>(q, eq, mode, fd). (q, eq)) rs"

lemma gettoken_word: "gettoken s i = (CHR ''a'', q, eq, j) \<Longrightarrow> word_at s (q, eq)"
  using gettoken_bounds(5,7) [of s i "CHR ''a''" q eq j] by (auto simp: word_at_def NUL_def)

lemma words_redircmds [simp]: "words (redircmds rs c) = words c @ redir_words rs"
  by (induction rs arbitrary: c) (auto simp: redircmds_def redir_words_def)

lemma redir_words_append [simp]:
  "redir_words [] = []" "redir_words (rs @ [(q, eq, m, f)]) = redir_words rs @ [(q, eq)]"
  by (simp_all add: redir_words_def)

definition redirs_ok :: "string \<Rightarrow> nat \<Rightarrow> ((nat \<times> nat \<times> nat \<times> nat) list \<times> nat) parsed \<Rightarrow> bool" where
  "redirs_ok s i r =
     (case r of Done (rs, k) \<Rightarrow> i \<le> k \<and> k \<le> length s \<and> list_all (word_at s) (redir_words rs)
      | Panic e \<Rightarrow> True | Endless \<Rightarrow> False)"

definition args_ok :: "string \<Rightarrow> nat \<Rightarrow> ((nat \<times> nat) list \<times> (nat \<times> nat \<times> nat \<times> nat) list \<times> nat) parsed \<Rightarrow> bool" where
  "args_ok s i r =
     (case r of Done (as, rs, k) \<Rightarrow> i \<le> k \<and> k \<le> length s \<and> length as < MAXARGS
                    \<and> list_all (word_at s) as \<and> list_all (word_at s) (redir_words rs)
      | Panic e \<Rightarrow> True | Endless \<Rightarrow> False)"

lemma redirs_ok_le: "redirs_ok s j r \<Longrightarrow> i \<le> j \<Longrightarrow> redirs_ok s i r"
  by (auto simp: redirs_ok_def split: parsed.splits)

lemma args_ok_le: "args_ok s j r \<Longrightarrow> i \<le> j \<Longrightarrow> args_ok s i r"
  by (auto simp: args_ok_def split: parsed.splits)

lemma parseredirs_ok:
  "i \<le> length s \<Longrightarrow> list_all (word_at s) (redir_words rs) \<Longrightarrow> redirs_ok s i (parseredirs s i rs)"
proof (induction s i rs rule: parseredirs.induct)
  case (1 s i rs)
  obtain b p where p: "peek s i ''<>'' = (b, p)" by fastforce
  obtain tok q0 eq0 j where g: "gettoken s p = (tok, q0, eq0, j)" by (metis prod_cases4)
  obtain t q eq l where h: "gettoken s j = (t, q, eq, l)" by (metis prod_cases4)
  obtain mode fd where m: "redir_mode tok = (mode, fd)" by fastforce
  show ?case
  proof (cases "b \<and> t = CHR ''a''")
    case False
    then show ?thesis using "1.prems" p g h peek_bounds [OF p] by (subst parseredirs.simps) (auto simp: redirs_ok_def)
  next
    case True
    note pt = peek_token [of s i "''<>''" p tok q0 eq0 j]
    have l: "l \<le> length s" "i \<le> l" using pt gettoken_bounds(1-4) [OF h] True p g by auto
    have "redirs_ok s l (parseredirs s l (rs @ [(q, eq, mode, fd)]))"
      using "1.IH" [OF p [symmetric]] True g h m l "1.prems" gettoken_word by simp
    then show ?thesis using redirs_ok_le l p g h m True by (subst parseredirs.simps) simp
  qed
qed

lemma arg_loop_ok:
  "i \<le> length s \<Longrightarrow> length as < MAXARGS \<Longrightarrow> list_all (word_at s) as \<Longrightarrow> list_all (word_at s) (redir_words rs)
    \<Longrightarrow> args_ok s i (arg_loop s i as rs)"
proof (induction s i as rs rule: arg_loop.induct)
  case (1 s i as rs)
  obtain b p where p: "peek s i ''|)&;'' = (b, p)" by fastforce
  obtain tok q eq j where g: "gettoken s p = (tok, q, eq, j)" by (metis prod_cases4)
  have j: "i \<le> p" "p \<le> length s" "i \<le> j" "j \<le> length s"
    using peek_bounds [OF p] gettoken_bounds(1-4) [OF g] "1.prems"(1) by auto
  have r: "redirs_ok s j (parseredirs s j rs)" using parseredirs_ok j "1.prems" by simp
  show ?case
  proof (cases "\<not> b \<and> tok \<noteq> NUL \<and> tok = CHR ''a'' \<and> \<not> MAXARGS \<le> length as + 1 \<and> (\<exists>d. parseredirs s j rs = Done d)")
    case True
    then obtain rs' k where d: "parseredirs s j rs = Done (rs', k)" by auto
    have "args_ok s k (arg_loop s k (as @ [(q, eq)]) rs')"
      using "1.IH" [OF p [symmetric] _ g [symmetric] refl refl _ _ _ d] True r "1.prems" gettoken_word [of s p q eq j] g d
      by (auto simp: redirs_ok_def)
    then have "args_ok s i (arg_loop s k (as @ [(q, eq)]) rs')" using args_ok_le j r d by (auto simp: redirs_ok_def)
    then show ?thesis using p g True d by (subst arg_loop.simps) auto
  next
    case False
    then show ?thesis using p g j r "1.prems"
      by (subst arg_loop.simps) (auto simp: args_ok_def redirs_ok_def split: parsed.splits)
  qed
qed

lemma back_loop_ok:
  assumes "back_loop s i c = (c', k)" "i \<le> length s"
  shows "i \<le> k \<and> k \<le> length s \<and> words c' = words c"
  using assms
proof (induction s i c rule: back_loop.induct)
  case (1 s i c)
  obtain b p where p: "peek s i ''&'' = (b, p)" by fastforce
  obtain t q eq j where g: "gettoken s p = (t, q, eq, j)" by (metis prod_cases4)
  show ?case
  proof (cases b)
    case True
    note pt = peek_token [of s i "''&''" p t q eq j]
    have "back_loop s j (Back c) = (c', k)" using "1.prems"(1) p g True by (subst (asm) back_loop.simps) simp
    then show ?thesis using "1.IH" [OF p [symmetric] True g [symmetric] refl refl] pt p g True by auto
  next
    case False
    then show ?thesis using "1.prems" p peek_bounds [OF p] by (subst (asm) back_loop.simps) auto
  qed
qed

section \<open>The parser returns\<close>

text \<open>The words of every simple command fit the array of the arguments with its end mark.\<close>

primrec argv_fits :: "cmd \<Rightarrow> bool" where
  "argv_fits (Exec as) \<longleftrightarrow> length as < MAXARGS"
| "argv_fits (Redir c q eq mode fd) \<longleftrightarrow> argv_fits c"
| "argv_fits (Pipe c d) \<longleftrightarrow> argv_fits c \<and> argv_fits d"
| "argv_fits (Seq c d) \<longleftrightarrow> argv_fits c \<and> argv_fits d"
| "argv_fits (Back c) \<longleftrightarrow> argv_fits c"

lemma argv_fits_redircmds [simp]: "argv_fits (redircmds rs c) = argv_fits c"
  by (induction rs arbitrary: c) (simp_all add: redircmds_def split_beta)

lemma back_loop_fits: "argv_fits (fst (back_loop s i c)) = argv_fits c"
proof (induction s i c rule: back_loop.induct)
  case (1 s i c)
  obtain b p where p: "peek s i ''&'' = (b, p)" by fastforce
  obtain t q eq j where g: "gettoken s p = (t, q, eq, j)" by (metis prod_cases4)
  have "b \<Longrightarrow> argv_fits (fst (back_loop s j (Back c))) = argv_fits (Back c)"
    by (rule "1.IH" [OF p [symmetric] _ g [symmetric] refl refl])
  then show ?case using p g by (subst back_loop.simps) simp
qed

definition parse_ok :: "string \<Rightarrow> nat \<Rightarrow> (cmd \<times> nat) parsed \<Rightarrow> bool" where
  "parse_ok s i r =
     (case r of Done (c, k) \<Rightarrow> i \<le> k \<and> k \<le> length s \<and> list_all (word_at s) (words c) \<and> argv_fits c
      | Panic e \<Rightarrow> True | Endless \<Rightarrow> False)"

lemma parse_ok_simps [simp]:
  "parse_ok s i (Done (c, k)) \<longleftrightarrow> i \<le> k \<and> k \<le> length s \<and> list_all (word_at s) (words c) \<and> argv_fits c"
  "parse_ok s i (Panic e)" "\<not> parse_ok s i Endless"
  by (simp_all add: parse_ok_def)

lemma parse_ok_cases:
  assumes "parse_ok s i r"
  obtains (Done) c k where "r = Done (c, k)" "i \<le> k" "k \<le> length s" "list_all (word_at s) (words c)" "argv_fits c"
    | (Panic) e where "r = Panic e"
  using assms by (cases r) (auto simp: parse_ok_def)

lemma parseline_step:
  assumes "i \<le> length s" "parse_ok s i (parsepipe n s i)"
    "\<And>k. i < k \<Longrightarrow> k \<le> length s \<Longrightarrow> parse_ok s k (parseline n s k)"
  shows "parse_ok s i (parseline (Suc n) s i)"
  using assms(2)
proof (cases rule: parse_ok_cases)
  case (Done c j)
  obtain c' j' where b: "back_loop s j c = (c', j')" by fastforce
  note bl = back_loop_ok [OF b Done(3)] back_loop_fits [of s j c, unfolded b, simplified]
  obtain x p where p: "peek s j' '';'' = (x, p)" by fastforce
  obtain t q eq k where g: "gettoken s p = (t, q, eq, k)" by (metis prod_cases4)
  show ?thesis
  proof (cases x)
    case True
    have k: "i < k" "k \<le> length s" using peek_token [of s j' "'';''" p t q eq k] p g True bl(1) Done(2) by auto
    have "parse_ok s k (parseline n s k)" by (rule assms(3) [OF k])
    then show ?thesis using Done b bl p g True k by (cases rule: parse_ok_cases) auto
  next
    case False
    then show ?thesis using Done b bl p peek_bounds [OF p] by auto
  qed
qed simp

lemma parsepipe_step:
  assumes "i \<le> length s" "parse_ok s i (parseexec n s i)"
    "\<And>k. i < k \<Longrightarrow> k \<le> length s \<Longrightarrow> parse_ok s k (parsepipe n s k)"
  shows "parse_ok s i (parsepipe (Suc n) s i)"
  using assms(2)
proof (cases rule: parse_ok_cases)
  case (Done c j)
  obtain x p where p: "peek s j ''|'' = (x, p)" by fastforce
  obtain t q eq k where g: "gettoken s p = (t, q, eq, k)" by (metis prod_cases4)
  show ?thesis
  proof (cases x)
    case True
    have k: "i < k" "k \<le> length s" using peek_token [of s j "''|''" p t q eq k] p g True Done(2) by auto
    have "parse_ok s k (parsepipe n s k)" by (rule assms(3) [OF k])
    then show ?thesis using Done p g True k by (cases rule: parse_ok_cases) auto
  next
    case False
    then show ?thesis using Done p peek_bounds [OF p] by auto
  qed
qed simp

lemma parseexec_step:
  assumes "i \<le> length s" "\<And>p. i \<le> p \<Longrightarrow> p \<le> length s \<Longrightarrow> parse_ok s p (parseblock n s p)"
  shows "parse_ok s i (parseexec (Suc n) s i)"
proof -
  obtain x p where p: "peek s i ''('' = (x, p)" by fastforce
  have b: "i \<le> p" "p \<le> length s" using peek_bounds [OF p] assms(1) by auto
  have r: "redirs_ok s p (parseredirs s p [])" using parseredirs_ok b by simp
  have a: "args_ok s j (arg_loop s j [] rs)" if "parseredirs s p [] = Done (rs, j)" for rs j
    using r that arg_loop_ok [of j s "[]" rs] by (simp add: redirs_ok_def MAXARGS_def)
  show ?thesis
  proof (cases "parseredirs s p []")
    case (Done d)
    obtain rs j where d: "d = (rs, j)" by fastforce
    then show ?thesis
      using p b r Done a [of rs j] assms(2) [OF b]
      by (cases "arg_loop s j [] rs"; cases "parseblock n s p") (auto simp: redirs_ok_def args_ok_def parse_ok_def)
  qed (use p b r assms(2) [OF b] in \<open>cases "parseblock n s p"; auto simp: redirs_ok_def parse_ok_def\<close>)+
qed

lemma parseblock_step:
  assumes "i \<le> length s" "\<And>k. i < k \<Longrightarrow> k \<le> length s \<Longrightarrow> parse_ok s k (parseline n s k)"
  shows "parse_ok s i (parseblock (Suc n) s i)"
proof -
  obtain x p where p: "peek s i ''('' = (x, p)" by fastforce
  obtain t q eq j where g: "gettoken s p = (t, q, eq, j)" by (metis prod_cases4)
  show ?thesis
  proof (cases x)
    case True
    have j: "i < j" "j \<le> length s" using peek_token [of s i "''(''" p t q eq j] p g True by auto
    from assms(2) [OF j] show ?thesis
    proof (cases rule: parse_ok_cases)
      case (Done c k)
      obtain y p' where p': "peek s k '')'' = (y, p')" by fastforce
      obtain t' q' eq' l where g': "gettoken s p' = (t', q', eq', l)" by (metis prod_cases4)
      show ?thesis
      proof (cases y)
        case y: True
        have l: "k \<le> l" "l \<le> length s" using peek_token [of s k "'')''" p' t' q' eq' l] p' g' y by auto
        have "redirs_ok s l (parseredirs s l [])" using parseredirs_ok l by simp
        then show ?thesis using p g True Done p' g' y l j
          by (cases "parseredirs s l []") (auto simp: redirs_ok_def)
      qed (use p g True Done p' in simp)
    qed (use p g True in simp)
  qed (use p in simp)
qed

text \<open>
  Between two calls of the same procedure on the way down at least one character is taken,
  and there are four procedures.
\<close>

lemma parse_fuel:
  "i \<le> length s \<Longrightarrow> (4 * (length s - i) + 4 \<le> n \<longrightarrow> parse_ok s i (parseline n s i))
    \<and> (4 * (length s - i) + 3 \<le> n \<longrightarrow> parse_ok s i (parsepipe n s i))
    \<and> (4 * (length s - i) + 2 \<le> n \<longrightarrow> parse_ok s i (parseexec n s i))
    \<and> (4 * (length s - i) + 1 \<le> n \<longrightarrow> parse_ok s i (parseblock n s i))"
proof (induction n arbitrary: i)
  case (Suc n)
  have later: "parse_ok s k (parseline n s k) \<and> parse_ok s k (parsepipe n s k)"
    if "4 * (length s - i) \<le> n" "i < k" "k \<le> length s" for k
  proof -
    have "4 * (length s - k) + 4 \<le> n" using that by linarith
    then show ?thesis using Suc.IH [OF that(3)] by simp
  qed
  have block: "parse_ok s k (parseblock n s k)" if "4 * (length s - i) + 1 \<le> n" "i \<le> k" "k \<le> length s" for k
  proof -
    have "4 * (length s - k) + 1 \<le> n" using that by linarith
    then show ?thesis using Suc.IH [OF that(3)] by simp
  qed
  note now = Suc.IH [OF Suc.prems]
  show ?case
  proof (intro conjI impI)
    assume "4 * (length s - i) + 4 \<le> Suc n"
    then show "parse_ok s i (parseline (Suc n) s i)" using parseline_step [OF Suc.prems] now later by simp
  next
    assume "4 * (length s - i) + 3 \<le> Suc n"
    then show "parse_ok s i (parsepipe (Suc n) s i)" using parsepipe_step [OF Suc.prems] now later by simp
  next
    assume "4 * (length s - i) + 2 \<le> Suc n"
    then show "parse_ok s i (parseexec (Suc n) s i)" using parseexec_step [OF Suc.prems] block by simp
  next
    assume "4 * (length s - i) + 1 \<le> Suc n"
    then show "parse_ok s i (parseblock (Suc n) s i)" using parseblock_step [OF Suc.prems] later by simp
  qed
qed simp

section \<open>The strings of the words\<close>

definition cstr :: "string \<Rightarrow> nat \<Rightarrow> string" where
  "cstr b q = takeWhile (\<lambda>c. c \<noteq> NUL) (drop q b)"

definition word_text :: "string \<Rightarrow> nat \<times> nat \<Rightarrow> string" where
  "word_text s w = take (snd w - fst w) (drop (fst w) s)"

lemma nulterminate_fold: "nulterminate c b = fold (\<lambda>w b. b[snd w := NUL]) (words c) b"
  by (induction c arbitrary: b) (simp_all add: split_beta')

lemma marks_nth:
  "length (fold (\<lambda>w b. b[snd w := NUL]) ws b) = length b"
  "x < length b \<Longrightarrow> fold (\<lambda>w b. b[snd w := NUL]) ws b ! x = (if x \<in> snd ` set ws then NUL else b ! x)"
  by (induction ws arbitrary: b) (auto simp: nth_list_update)

lemma word_at_bounds:
  assumes "word_at s w"
  shows "snd w \<le> length s" "fst w \<le> x \<Longrightarrow> x < snd w \<Longrightarrow> word_char (s ! x)"
    "snd w < length s \<Longrightarrow> \<not> word_char (s ! snd w)"
proof -
  let ?t = "takeWhile word_char (drop (fst w) s)"
  have e: "fst w < snd w" "snd w = fst w + length ?t" using assms by (auto simp: word_at_def)
  have l: "length ?t \<le> length s - fst w" using length_takeWhile_le [of word_char "drop (fst w) s"] by simp
  show le: "snd w \<le> length s" using e l by linarith
  show "word_char (s ! x)" if "fst w \<le> x" "x < snd w"
  proof -
    have "?t ! (x - fst w) \<in> set ?t" using that e by (intro nth_mem) linarith
    moreover have "?t ! (x - fst w) = s ! x" using that e le by (simp add: takeWhile_nth)
    ultimately show ?thesis by (metis set_takeWhileD)
  qed
  show "\<not> word_char (s ! snd w)" if "snd w < length s"
    using nth_length_takeWhile [of word_char "drop (fst w) s"] that e by simp
qed

lemma word_string:
  assumes "NUL \<notin> set s" "list_all (word_at s) ws" "w \<in> set ws"
  shows "cstr (fold (\<lambda>w b. b[snd w := NUL]) ws (s @ [NUL])) (fst w) = word_text s w"
proof -
  let ?b = "fold (\<lambda>w b. b[snd w := NUL]) ws (s @ [NUL])"
  have w: "word_at s w" using assms by (auto simp: list_all_iff)
  have lt: "fst w < snd w" using w unfolding word_at_def by blast
  note B = word_at_bounds [OF w]
  have keep: "?b ! x = s ! x" if x: "fst w \<le> x" "x < snd w" for x
  proof -
    have "x \<notin> snd ` set ws" using word_at_bounds(3) assms(2) B(1,2) x by (fastforce simp: list_all_iff)
    then show ?thesis using x B(1) by (simp add: marks_nth nth_append)
  qed
  have stop: "?b ! snd w = NUL" using assms(3) B(1) by (simp add: marks_nth)
  have len: "length ?b = length s + 1" by (simp add: marks_nth)
  have split: "drop (fst w) ?b = word_text s w @ drop (snd w) ?b"
  proof (rule nth_equalityI)
    show "length (drop (fst w) ?b) = length (word_text s w @ drop (snd w) ?b)"
      using lt B(1) len by (simp add: word_text_def)
    fix n assume "n < length (drop (fst w) ?b)"
    then show "drop (fst w) ?b ! n = (word_text s w @ drop (snd w) ?b) ! n"
      using lt B(1) len keep [of "fst w + n"] by (auto simp: word_text_def nth_append add.commute)
  qed
  have clean: "\<forall>c \<in> set (word_text s w). c \<noteq> NUL" using assms(1) by (auto simp: word_text_def dest: in_set_takeD in_set_dropD)
  have "drop (snd w) ?b = NUL # drop (Suc (snd w)) ?b" using stop B(1) len by (metis Cons_nth_drop_Suc less_Suc_eq_le Suc_eq_plus1)
  then show ?thesis using split clean by (simp add: cstr_def takeWhile_append2)
qed

lemma parsecmd_cases:
  obtains (Done) c where "parsecmd s = Done (c, nulterminate c (s @ [NUL]))" "list_all (word_at s) (words c)" "argv_fits c"
    | (Panic) e where "parsecmd s = Panic e"
proof -
  have "parse_ok s 0 (parseline (4 * length s + 4) s 0)" using parse_fuel [of 0 s "4 * length s + 4"] by simp
  then show ?thesis
  proof (cases rule: parse_ok_cases)
    case (Done c k)
    then show ?thesis using that by (cases "skip s k = length s") (simp_all add: parsecmd_def peek_def Let_def)
  next
    case (Panic e)
    then show ?thesis using that(2) [of e] by (simp add: parsecmd_def)
  qed
qed

text \<open>
  C40. The parser of the shell returns on every line without a NUL: the mutual recursion of
  \<^verbatim>\<open>parseline\<close>, \<^verbatim>\<open>parsepipe\<close>, \<^verbatim>\<open>parseexec\<close> and
  \<^verbatim>\<open>parseblock\<close> never runs out of the fuel it is given, so the result is a call of
  \<^verbatim>\<open>panic\<close> or a command.  In the command every word is a longest run of word
  characters, no argument array overflows, and after \<^verbatim>\<open>nulterminate\<close> the C string at
  the beginning of each word, file names of redirections included, is exactly the text of that
  word in the line.
\<close>

theorem parsecmd_returns:
  assumes "NUL \<notin> set s"
  shows "(\<exists>e. parsecmd s = Panic e)
    \<or> (\<exists>c b. parsecmd s = Done (c, b) \<and> argv_fits c \<and> list_all (word_at s) (words c)
          \<and> list_all (\<lambda>w. cstr b (fst w) = word_text s w) (words c))"
proof (cases rule: parsecmd_cases [of s])
  case (Done c)
  then have "list_all (\<lambda>w. cstr (nulterminate c (s @ [NUL])) (fst w) = word_text s w) (words c)"
    using word_string [OF assms] by (simp add: list_all_iff nulterminate_fold)
  then show ?thesis using Done by blast
qed blast

theorem parsecmd_returns_witness:
  "parsecmd ''cat<in|(wc;b)&'' =
      Done (Back (Pipe (Redir (Exec [(0, 3)]) 4 6 0 0) (Seq (Exec [(8, 10)]) (Exec [(11, 12)]))),
        map (\<lambda>c. if c = CHR ''.'' then NUL else c) ''cat.in.(wc.b.&.'')
    \<and> cstr (map (\<lambda>c. if c = CHR ''.'' then NUL else c) ''cat.in.(wc.b.&.'') 8 = ''wc''"
proof -
  have p: "parsecmd ''cat<in|(wc;b)&'' =
      Done (Back (Pipe (Redir (Exec [(0, 3)]) 4 6 0 0) (Seq (Exec [(8, 10)]) (Exec [(11, 12)]))),
        map (\<lambda>c. if c = CHR ''.'' then NUL else c) ''cat.in.(wc.b.&.'')"
    by code_simp
  have n: "NUL \<notin> set ''cat<in|(wc;b)&''" by code_simp
  show ?thesis using parsecmd_returns [OF n] p by (simp add: word_text_def)
qed

end
