(* ===== verification/Spec2Isabelle.thy ===== *)
theory Spec2Isabelle
  imports Xv6_Pipe_Props Xv6_Output Xv6_Input Pth_Zemaphore Pth_Rwlock Pth_Master_Worker Pth_Barber
    Xv6_Path Xv6_Transaction Xv6_Tracing Usr_Grep Usr_Malloc Usr_Sh
begin

text \<open>
  Verification of the programs of this repository: two xv6 kernels (the lottery-scheduler
  exercise and the system-call exercise), the user programs \<^verbatim>\<open>grep\<close> and
  \<^verbatim>\<open>sh\<close>, the heap of user programs, and the programs of the thread-synchronization exercise.  This theory collects
  the development; the definitions and theorems are in the theories it imports.  Source files
  are named relative to the directory of their exercise.

  \<^bold>\<open>How programs are modelled.\<close>  Kernel code is an operation on an explicit state
  (\<open>Xv6_Prelude\<close>): it returns \<open>Ok\<close> with a value and the new state, or it
  \<open>Stop\<close>s, which is a \<^verbatim>\<open>panic\<close>, an access the C code has no right to make, a wait
  that does not end, or a switch to the scheduler.  The state is a chain of records, one
  extension per layer, in the order in which the layers use each other:
  \<open>machine\<close> (harts, interrupts, spin locks), \<open>phys\<close> and \<open>kmem\<close> (memory and its
  allocator), \<open>vm\<close>, \<open>kproc\<close> (process table), \<open>kuart\<close>, \<open>kcons\<close>,
  \<open>ksleep\<close>, \<open>kdisk\<close>, \<open>kbio\<close>, \<open>klog\<close>, \<open>kfs\<close>, \<open>kpipe\<close>,
  \<open>kfile\<close>, \<open>ktrap\<close> and, for the other kernel, \<open>ktraced\<close>.  An operation of a
  layer applies to the states of all later ones.  Pointers are names: a lock, a slot of a table,
  a buffer, an inode; physical memory is a function from 64-bit addresses to bytes.  Machine
  integers are words of their width, or \<open>int\<close> with \<open>i32\<close> where the code computes with
  \<^verbatim>\<open>int\<close>.  Threads of the synchronization exercise are control-flow graphs over a mutex and
  condition variables, interleaved instruction by instruction (\<open>Pth_Monitor\<close>).

  \<^bold>\<open>What is outside the sources is a parameter.\<close>  \<^verbatim>\<open>swtch\<close> is the field
  \<open>sw\<close> of an environment, or the argument \<open>run\<close> of the schedulers; device registers read
  what the field \<open>device\<close> says; the disk is the hypothesis \<open>device_answers\<close> of
  \<open>Xv6_Device\<close>; addresses of assembly code are symbols of the state.  Every theorem with such a
  hypothesis is followed by a witness in which the parameter is a concrete function.

  \<^bold>\<open>The kernel of the lottery exercise\<close> (\<^verbatim>\<open>kernel/\<close>).
  \<^item> \<open>Xv6_Layout\<close>: \<^verbatim>\<open>param.h\<close>, \<^verbatim>\<open>riscv.h\<close>, \<^verbatim>\<open>memlayout.h\<close>;
    the arithmetic of addresses and page-table entries.
  \<^item> \<open>Xv6_Spinlock\<close>: \<^verbatim>\<open>spinlock.c\<close>.  Nesting of interrupt-off sections, a lock taken
    and given back restores the state, and mutual exclusion in every interleaving of the harts.
  \<^item> \<open>Xv6_Kstring\<close>, \<open>Xv6_Rand\<close>: \<^verbatim>\<open>string.c\<close> and \<^verbatim>\<open>random.c\<close>.
  \<^item> \<open>Xv6_Kalloc\<close>: \<^verbatim>\<open>kalloc.c\<close>.  The free list in memory is a list of pages that
    \<^verbatim>\<open>kinit\<close> fills and \<^verbatim>\<open>kalloc\<close> and \<^verbatim>\<open>kfree\<close> conserve.
  \<^item> \<open>Xv6_Vm\<close>, \<open>Xv6_Pagetable\<close>, \<open>Xv6_Uvm\<close>: \<^verbatim>\<open>vm.c\<close>.  The page tables in
    memory are a tree; \<^verbatim>\<open>mappages\<close> updates a range of it, and user copies read and write
    through the translation.
  \<^item> \<open>Xv6_Proc\<close>, \<open>Xv6_Sched\<close>, \<open>Xv6_Fork\<close>: \<^verbatim>\<open>proc.c\<close>.  The lottery
    gives every process as many draws as it has tickets; a round runs the winner, or reads past the
    table when the draw is the number of tickets itself.
  \<^item> \<open>Xv6_Uart\<close>, \<open>Xv6_Console\<close>, with \<open>Xv6_Ring\<close>, \<open>Xv6_Output\<close>,
    \<open>Xv6_Printf\<close> and \<open>Xv6_Input\<close>: \<^verbatim>\<open>uart.c\<close>, \<^verbatim>\<open>console.c\<close>,
    \<^verbatim>\<open>printf.c\<close>, \<^verbatim>\<open>plic.c\<close>.  The transmit ring keeps order, numbers read back,
    \<^verbatim>\<open>printf\<close> sends the text of its format, and the input handler is a line editor.
  \<^item> \<open>Xv6_Sleeplock\<close>, \<open>Xv6_Virtio\<close>, \<open>Xv6_Device\<close>: \<^verbatim>\<open>sleeplock.c\<close>,
    \<^verbatim>\<open>virtio_disk.c\<close>.  With a disk that answers, a request transfers its block and gives all
    descriptors back.
  \<^item> \<open>Xv6_Bio\<close>, \<open>Xv6_Bcache\<close>, \<open>Xv6_Bview\<close>: \<^verbatim>\<open>bio.c\<close>.  The doubly
    linked list is well formed and in order of use, a block has at most one buffer, and the clients
    of the cache see it as if there were no buffers.
  \<^item> \<open>Xv6_Log\<close>, \<open>Xv6_Logview\<close>, \<open>Xv6_Crash\<close>, \<open>Xv6_Transaction\<close>:
    \<^verbatim>\<open>log.c\<close>.  A transaction is atomic and durable under a crash at any point, and so is
    recovery itself.
  \<^item> \<open>Xv6_Bytes\<close>, \<open>Xv6_Fs\<close>, \<open>Xv6_Path\<close>: \<^verbatim>\<open>fs.c\<close>.  The path walk visits
    the components of the path.
  \<^item> \<open>Xv6_Pipe\<close>, \<open>Xv6_Pipe_Props\<close>, \<open>Xv6_File\<close>: \<^verbatim>\<open>pipe.c\<close>,
    \<^verbatim>\<open>file.c\<close>.  A pipe is a bounded queue between the memories of two processes.
  \<^item> \<open>Xv6_Syscall\<close>, \<open>Xv6_Exec\<close>, \<open>Xv6_Sysfile\<close>, \<open>Xv6_Trap\<close>:
    \<^verbatim>\<open>syscall.c\<close>, \<^verbatim>\<open>exec.c\<close>, \<^verbatim>\<open>sysfile.c\<close>, \<^verbatim>\<open>sysproc.c\<close>,
    \<^verbatim>\<open>trap.c\<close>, \<^verbatim>\<open>main.c\<close>: the operations, from the trap to the handler.
  \<^item> \<open>Xv6_Frame\<close> has the frame lemmas of the layers, \<open>Xv6_Demo\<close> the state of a whole
    kernel on which witnesses are evaluated.

  \<^bold>\<open>The kernel of the system-call exercise.\<close>  \<open>Xv6_Tracing\<close> models where it differs:
  tracing of system calls, \<^verbatim>\<open>sysinfo\<close> (with \<^verbatim>\<open>freemem\<close>, which is in
  \<open>Xv6_Kalloc\<close>) and the round-robin scheduler.  The traced call is printed with its name and
  result, \<^verbatim>\<open>sysinfo\<close> prints what the tables say, and a pass of the scheduler runs every
  runnable process once.

  \<^bold>\<open>User programs.\<close>  \<open>Usr_Grep\<close>: the matcher decides the meaning of its patterns
  and the loop prints the matching lines.  \<open>Usr_Sh\<close>: the parser of the shell returns on every
  line, and the words of the command are the words of the line.  \<open>Usr_Malloc\<close>:
  \<^verbatim>\<open>umalloc.c\<close>; the ring of free blocks stays ordered and joined, and free and used blocks
  together are the memory obtained from the kernel.

  \<^bold>\<open>Thread programs.\<close>  \<open>Pth_Zemaphore\<close>, \<open>Pth_Rwlock\<close>,
  \<open>Pth_Master_Worker\<close>, \<open>Pth_Barber\<close>: the semaphore refines a counting semaphore, the
  locks exclude, every item is produced and consumed once, the shop closes; none loses a wakeup.

  \<^bold>\<open>Interfaces.\<close>  The locale \<open>bounded_fifo\<close> (\<open>Xv6_Ring\<close>) is interpreted on
  the pipe and on the transmit ring, \<open>page_allocator\<close> (\<open>Xv6_Kalloc\<close>) on
  \<^verbatim>\<open>kalloc\<close> and \<^verbatim>\<open>kfree\<close>, the locale \<open>monitor\<close> (\<open>Pth_Monitor\<close>) on the
  programs of the thread exercise.

  \<^bold>\<open>Bounds.\<close>  Loops that end are total functions.  Walks along the list of buffers
  have \<open>NBUF + 1\<close> steps, which a well-formed list never uses up.  The recursion of the shell's
  parser has four calls per character of the line and four more, which is shown to be enough.
  Loops around \<^verbatim>\<open>sleep\<close> end after \<open>wakeups\<close> awakenings and busy waits after
  \<open>polls\<close> reads with \<open>Stop Spin\<close>; the theorems about them prove that the code returns.
  The walk of \<^verbatim>\<open>freemem\<close> and the loops of \<^verbatim>\<open>malloc\<close> and \<^verbatim>\<open>free\<close> are
  shown to end on every well-formed list; requests to \<^verbatim>\<open>malloc\<close> are below 2 GiB, since
  larger ones do not fit the argument of \<^verbatim>\<open>sbrk\<close>.

  \<^bold>\<open>Not modelled.\<close>  Interleaving of kernel operations by several harts is modelled for
  the spin lock only; elsewhere an operation runs alone, except where it sleeps.  Caches, the
  translation look-aside buffer and memory ordering have no model.  \<^verbatim>\<open>start.c\<close> and the
  machine-mode registers, assembly, link scripts, \<^verbatim>\<open>ramdisk.c\<close> (not linked),
  \<^verbatim>\<open>mkfs\<close>, the rest of the user library and the remaining user programs and tests are not modelled: they
  are input and output or code of the host.  Of the shell, running a command is not modelled, of
  \<^verbatim>\<open>grep\<close> the opening of files.  The first process and the trap handler are modelled for the
  lottery kernel only; their text is the same in the other.  The copy-on-write exercise is a patch
  to sources that are not here, the first exercise a shell script.  Of the thread exercise the test
  drivers and the solution of the barber shop with semaphores are not modelled.
\<close>

end
